(* ===== verification/Prelude.thy ===== *)
theory Prelude
  imports Main "HOL-Library.Word" "HOL-Library.Char_ord" "HOL-Library.List_Lexorder"
    "HOL-Library.Sublist" "HOL-Library.Monad_Syntax"
begin

text \<open>
  Shared vocabulary of the development: the parts of the Rust standard library the modelled
  crates use (text operations, decimal numbers, checked indexing, \<open>BTreeMap\<close>), the
  weakest-precondition combinator for computations that may panic, and the collections of facts the
  component theories extend.

  Text is modelled by \<^typ>\<open>string\<close>; a \<^typ>\<open>char\<close> stands for one Unicode scalar
  value below U+0100. White space and lower-casing are those of Rust on that range. Indices and
  lengths count scalar values; no modelled operation exposes a byte offset across a component
  boundary.
\<close>

named_theorems wp_simps \<open>weakest preconditions of the partial operations\<close>
named_theorems text_simps \<open>rewriting rules for text operations\<close>

type_synonym u8 = "8 word"
type_synonym u16 = "16 word"
type_synonym u32 = "32 word"
type_synonym u64 = "64 word"

section \<open>Computations that may panic\<close>

text \<open>A panic (an index out of range) is \<^const>\<open>None\<close>. \<open>wp m P\<close> says that \<open>m\<close> does
  not panic and that its result satisfies \<open>P\<close>.\<close>

definition wp :: "'a option \<Rightarrow> ('a \<Rightarrow> bool) \<Rightarrow> bool" where
  "wp m P = (case m of None \<Rightarrow> False | Some x \<Rightarrow> P x)"

lemma wp_Some [simp, wp_simps]: "wp (Some x) P = P x"
  by (simp add: wp_def)

lemma wp_None [simp, wp_simps]: "\<not> wp None P"
  by (simp add: wp_def)

lemma wp_bind [simp, wp_simps]: "wp (Option.bind m f) P = wp m (\<lambda>x. wp (f x) P)"
  by (cases m) simp_all

lemma wp_map_option [simp, wp_simps]: "wp (map_option f m) P = wp m (\<lambda>x. P (f x))"
  by (cases m) simp_all

lemma wp_mono: "wp m P \<Longrightarrow> (\<And>x. P x \<Longrightarrow> Q x) \<Longrightarrow> wp m Q"
  by (cases m) simp_all

lemma wp_conj: "wp m (\<lambda>x. P x \<and> Q x) \<longleftrightarrow> wp m P \<and> wp m Q"
  by (cases m) simp_all

lemma wp_iff: "wp m P \<longleftrightarrow> (\<exists>x. m = Some x \<and> P x)"
  by (cases m) simp_all

lemma wpE:
  assumes "wp m P" obtains x where "m = Some x" "P x"
  using assms by (auto simp: wp_iff)

lemma wpD: "wp m P \<Longrightarrow> m = Some x \<Longrightarrow> P x"
  by simp

section \<open>Indexing\<close>

text \<open>\<open>slice::get\<close>.\<close>

definition nth_opt :: "'a list \<Rightarrow> nat \<Rightarrow> 'a option" where
  "nth_opt xs i = (if i < length xs then Some (xs ! i) else None)"

lemma nth_opt_Some [simp]: "nth_opt xs i = Some x \<longleftrightarrow> i < length xs \<and> x = xs ! i"
  by (auto simp: nth_opt_def)

lemma nth_opt_None [simp]: "nth_opt xs i = None \<longleftrightarrow> length xs \<le> i"
  by (auto simp: nth_opt_def)

lemma wp_nth_opt [wp_simps]: "wp (nth_opt xs i) P \<longleftrightarrow> i < length xs \<and> P (xs ! i)"
  by (simp add: nth_opt_def)

lemma nth_update: "j < length xs \<Longrightarrow> xs[i := x] ! j = (if i = j then x else xs ! j)"
  by (cases "i = j") simp_all

lemma set_map_filter: "set (List.map_filter g xs) = {y. \<exists>x\<in>set xs. g x = Some y}"
  by (force simp: List.map_filter_def)

text \<open>\<open>Iterator::position\<close>: the first index whose element satisfies the predicate.\<close>

fun position :: "('a \<Rightarrow> bool) \<Rightarrow> 'a list \<Rightarrow> nat option" where
  "position p [] = None"
| "position p (x # xs) = (if p x then Some 0 else map_option Suc (position p xs))"

lemma position_Some:
  "position p xs = Some i \<longleftrightarrow> i < length xs \<and> p (xs ! i) \<and> (\<forall>j<i. \<not> p (xs ! j))"
proof (induction xs arbitrary: i)
  case (Cons x xs)
  then show ?case
    by (cases i) (auto simp: less_Suc_eq_0_disj)
qed simp

lemma position_None: "position p xs = None \<longleftrightarrow> (\<forall>x\<in>set xs. \<not> p x)"
  by (induction xs) auto

lemma position_bound: "position p xs = Some i \<Longrightarrow> i < length xs"
  by (simp add: position_Some)

lemma position_unique:
  assumes "i < length xs" "p (xs ! i)" "\<And>j. j < length xs \<Longrightarrow> p (xs ! j) \<Longrightarrow> j = i"
  shows "position p xs = Some i"
  using assms unfolding position_Some by (metis less_irrefl order.strict_trans)

section \<open>Text\<close>

definition is_ws :: "char \<Rightarrow> bool" where
  "is_ws c = (let n = of_char c :: nat in (9 \<le> n \<and> n \<le> 13) \<or> n = 32 \<or> n = 133 \<or> n = 160)"

definition trim_start :: "string \<Rightarrow> string" where
  "trim_start s = dropWhile is_ws s"

definition trim_end :: "string \<Rightarrow> string" where
  "trim_end s = rev (dropWhile is_ws (rev s))"

definition trim :: "string \<Rightarrow> string" where
  "trim s = trim_end (trim_start s)"

definition strip_prefix :: "string \<Rightarrow> string \<Rightarrow> string option" where
  "strip_prefix p s = (if prefix p s then Some (drop (length p) s) else None)"

definition strip_suffix :: "string \<Rightarrow> string \<Rightarrow> string option" where
  "strip_suffix p s = (if suffix p s then Some (take (length s - length p) s) else None)"

text \<open>\<open>str::find\<close> with a text pattern.\<close>

fun str_find :: "string \<Rightarrow> string \<Rightarrow> nat option" where
  "str_find p [] = (if p = [] then Some 0 else None)"
| "str_find p (c # s) = (if prefix p (c # s) then Some 0 else map_option Suc (str_find p s))"

definition str_contains :: "string \<Rightarrow> string \<Rightarrow> bool" where
  "str_contains s p = (str_find p s \<noteq> None)"

text \<open>\<open>str::replace\<close>: non-overlapping occurrences, from the left. The counter skips the
  characters of an occurrence that was just replaced. The pattern is not empty where it is used.\<close>

fun replace_aux :: "nat \<Rightarrow> string \<Rightarrow> string \<Rightarrow> string \<Rightarrow> string" where
  "replace_aux k p t [] = []"
| "replace_aux (Suc k) p t (c # s) = replace_aux k p t s"
| "replace_aux 0 p t (c # s) =
     (if p \<noteq> [] \<and> prefix p (c # s) then t @ replace_aux (length p - 1) p t s
      else c # replace_aux 0 p t s)"

definition str_replace :: "string \<Rightarrow> string \<Rightarrow> string \<Rightarrow> string" where
  "str_replace s p t = replace_aux 0 p t s"

text \<open>\<open>char::to_ascii_lowercase\<close> and \<open>str::to_lowercase\<close> on the modelled range: the letters
  A to Z and the letters U+00C0 to U+00DE except the multiplication sign U+00D7.\<close>

definition ascii_lower :: "char \<Rightarrow> char" where
  "ascii_lower c = (let n = of_char c :: nat in if 65 \<le> n \<and> n \<le> 90 then char_of (n + 32) else c)"

definition lower_char :: "char \<Rightarrow> char" where
  "lower_char c = (let n = of_char c :: nat in
     if (65 \<le> n \<and> n \<le> 90) \<or> (192 \<le> n \<and> n \<le> 222 \<and> n \<noteq> 215) then char_of (n + 32) else c)"

definition to_lowercase :: "string \<Rightarrow> string" where
  "to_lowercase s = map lower_char s"

definition is_ascii_alphanumeric :: "char \<Rightarrow> bool" where
  "is_ascii_alphanumeric c = (let n = of_char c :: nat in
     (48 \<le> n \<and> n \<le> 57) \<or> (65 \<le> n \<and> n \<le> 90) \<or> (97 \<le> n \<and> n \<le> 122))"

text \<open>The bytes of a text: the scalar values from U+0080 to U+00FF take two.\<close>

definition utf8_len :: "string \<Rightarrow> nat" where
  "utf8_len s = (\<Sum>c\<leftarrow>s. if (of_char c :: nat) < 128 then 1 else 2)"

text \<open>\<open>[String]::join\<close>.\<close>

fun str_join :: "string \<Rightarrow> string list \<Rightarrow> string" where
  "str_join sep [] = []"
| "str_join sep [x] = x"
| "str_join sep (x # y # xs) = x @ sep @ str_join sep (y # xs)"

text \<open>\<open>str::split_inclusive('\n')\<close>.\<close>

abbreviation newline :: char where
  "newline \<equiv> CHR 0x0A"

fun split_inclusive :: "string \<Rightarrow> string list" where
  "split_inclusive [] = []"
| "split_inclusive (c # s) =
     (if c = newline then [c] # split_inclusive s
      else case split_inclusive s of [] \<Rightarrow> [[c]] | l # ls \<Rightarrow> (c # l) # ls)"

subsection \<open>Decimal numbers\<close>

definition digit_char :: "nat \<Rightarrow> char" where
  "digit_char d = char_of (48 + d)"

fun nat_to_string :: "nat \<Rightarrow> string" where
  "nat_to_string n =
     (if n < 10 then [digit_char n] else nat_to_string (n div 10) @ [digit_char (n mod 10)])"

declare nat_to_string.simps [simp del]

text \<open>\<open>str::parse\<close> for an unsigned integer of a given largest value: an optional plus sign, then at
  least one digit and nothing else; a value above the largest one is an error.\<close>

definition digit_val :: "char \<Rightarrow> nat option" where
  "digit_val c = (let n = of_char c :: nat in if 48 \<le> n \<and> n \<le> 57 then Some (n - 48) else None)"

fun parse_digits :: "nat \<Rightarrow> string \<Rightarrow> nat option" where
  "parse_digits acc [] = Some acc"
| "parse_digits acc (c # s) =
     (case digit_val c of None \<Rightarrow> None | Some d \<Rightarrow> parse_digits (10 * acc + d) s)"

definition parse_unsigned :: "nat \<Rightarrow> string \<Rightarrow> nat option" where
  "parse_unsigned largest s =
     (let t = (case s of c # rest \<Rightarrow> if c = CHR ''+'' then rest else s | [] \<Rightarrow> s) in
      if t = [] then None
      else case parse_digits 0 t of None \<Rightarrow> None | Some n \<Rightarrow> if n \<le> largest then Some n else None)"

section \<open>Ordered maps\<close>

text \<open>\<open>BTreeMap\<close> as an association list kept in key order, so that iteration has the order the
  code relies on.\<close>

type_synonym ('k, 'v) btree = "('k \<times> 'v) list"

fun bt_insert :: "'k::linorder \<Rightarrow> 'v \<Rightarrow> ('k, 'v) btree \<Rightarrow> ('k, 'v) btree" where
  "bt_insert k v [] = [(k, v)]"
| "bt_insert k v ((k', v') # m) =
     (if k < k' then (k, v) # (k', v') # m
      else if k = k' then (k, v) # m
      else (k', v') # bt_insert k v m)"

definition bt_get :: "('k, 'v) btree \<Rightarrow> 'k \<Rightarrow> 'v option" where
  "bt_get m k = map_of m k"

definition bt_remove :: "'k \<Rightarrow> ('k, 'v) btree \<Rightarrow> ('k, 'v) btree" where
  "bt_remove k m = filter (\<lambda>(k', _). k' \<noteq> k) m"

definition bt_extend :: "('k::linorder, 'v) btree \<Rightarrow> ('k, 'v) btree \<Rightarrow> ('k, 'v) btree" where
  "bt_extend m n = fold (\<lambda>(k, v). bt_insert k v) n m"

definition bt_keys :: "('k, 'v) btree \<Rightarrow> 'k list" where
  "bt_keys m = map fst m"

definition bt_wf :: "('k::linorder, 'v) btree \<Rightarrow> bool" where
  "bt_wf m = sorted_wrt (<) (map fst m)"

section \<open>Lemmas on text\<close>

lemma is_ws_dropWhile_hd: "dropWhile is_ws s = c # t \<Longrightarrow> \<not> is_ws c"
  by (metis hd_dropWhile list.discI list.sel(1))

lemma trim_start_id: "s = [] \<or> \<not> is_ws (hd s) \<Longrightarrow> trim_start s = s"
  by (cases s) (auto simp: trim_start_def)

lemma trim_end_id: "s = [] \<or> \<not> is_ws (last s) \<Longrightarrow> trim_end s = s"
  by (cases s rule: rev_cases) (auto simp: trim_end_def)

lemma trim_id: "s = [] \<or> (\<not> is_ws (hd s) \<and> \<not> is_ws (last s)) \<Longrightarrow> trim s = s"
  by (metis trim_def trim_start_id trim_end_id)

lemma trim_Nil [simp]: "trim [] = []"
  by (simp add: trim_id)

lemma trim_end_snoc: "trim_end (s @ [c]) = (if is_ws c then trim_end s else s @ [c])"
  by (simp add: trim_end_def)

lemma trim_end_prefix: "prefix (trim_end s) s"
  by (induction s rule: rev_induct) (auto simp: trim_end_snoc trim_end_def)

lemma trim_hd: "trim s \<noteq> [] \<Longrightarrow> \<not> is_ws (hd (trim s))"
proof -
  assume ne: "trim s \<noteq> []"
  obtain t where t: "trim_start s = trim s @ t"
    using trim_end_prefix [of "trim_start s"] unfolding trim_def prefix_def by blast
  with ne have "dropWhile is_ws s = hd (trim s) # (tl (trim s) @ t)"
    by (simp add: trim_start_def)
  then show ?thesis by (rule is_ws_dropWhile_hd)
qed

lemma trim_last: "trim s \<noteq> [] \<Longrightarrow> \<not> is_ws (last (trim s))"
  unfolding trim_def
  by (induction "trim_start s" arbitrary: s rule: rev_induct)
    (metis (no_types, lifting) hd_dropWhile last_rev rev_is_Nil_conv rev_rev_ident trim_end_def)+

lemma trim_trim [simp]: "trim (trim s) = trim s"
  using trim_hd trim_last trim_id by blast

lemma trim_empty_iff: "trim s = [] \<longleftrightarrow> (\<forall>c\<in>set s. is_ws c)"
proof -
  have "trim_end t = [] \<longleftrightarrow> (\<forall>c\<in>set t. is_ws c)" for t
    by (simp add: trim_end_def)
  moreover have "(\<forall>c\<in>set (dropWhile is_ws s). is_ws c) \<longleftrightarrow> (\<forall>c\<in>set s. is_ws c)"
    by (induction s) auto
  ultimately show ?thesis by (simp add: trim_def trim_start_def)
qed

lemma strip_suffix_append [simp]: "strip_suffix p (s @ p) = Some s"
  by (simp add: strip_suffix_def suffix_def)

lemma strip_prefix_append [simp]: "strip_prefix p (p @ s) = Some s"
  by (simp add: strip_prefix_def)

lemma strip_prefix_Some: "strip_prefix p s = Some t \<longleftrightarrow> s = p @ t"
  by (auto simp: strip_prefix_def prefix_def)

lemma strip_suffix_Some: "strip_suffix p s = Some t \<longleftrightarrow> s = t @ p"
  by (auto simp: strip_suffix_def suffix_def)

lemma str_find_Some_decomp:
  "str_find p s = Some i \<Longrightarrow> s = take i s @ p @ drop (i + length p) s \<and> i + length p \<le> length s"
proof (induction s arbitrary: i)
  case Nil
  then show ?case by (auto split: if_splits)
next
  case (Cons c s)
  show ?case
  proof (cases "prefix p (c # s)")
    case True
    with Cons.prems show ?thesis
      by (auto simp: prefix_def split: if_splits)
         (metis append_eq_conv_conj length_append le_add1 length_Cons)+
  next
    case False
    with Cons.prems obtain j where j: "str_find p s = Some j" "i = Suc j"
      by (auto split: if_splits)
    from Cons.IH [OF j(1)] j(2) show ?thesis by simp
  qed
qed

lemma str_find_None_iff: "str_find p s = None \<longleftrightarrow> \<not> (\<exists>u v. s = u @ p @ v)"
proof (induction s)
  case Nil
  then show ?case by auto
next
  case (Cons c s)
  show ?case
  proof (cases "prefix p (c # s)")
    case True
    then obtain v where "c # s = [] @ p @ v" by (auto simp: prefix_def)
    then have "\<exists>u v. c # s = u @ p @ v" by blast
    with True show ?thesis by simp
  next
    case False
    have "(\<exists>u v. c # s = u @ p @ v) \<longleftrightarrow> (\<exists>u v. s = u @ p @ v)"
    proof
      assume "\<exists>u v. c # s = u @ p @ v"
      then obtain u v where uv: "c # s = u @ p @ v" by blast
      with False show "\<exists>u v. s = u @ p @ v"
        by (cases u) (auto simp: prefix_def)
    next
      assume "\<exists>u v. s = u @ p @ v"
      then show "\<exists>u v. c # s = u @ p @ v" by (metis append_Cons)
    qed
    with False Cons.IH show ?thesis by simp
  qed
qed

lemma str_contains_iff: "str_contains s p \<longleftrightarrow> (\<exists>u v. s = u @ p @ v)"
  using str_find_None_iff [of p s] by (auto simp: str_contains_def)

lemma concat_split_inclusive [simp]: "concat (split_inclusive s) = s"
  by (induction s) (auto split: list.splits)

lemma split_inclusive_nonempty: "l \<in> set (split_inclusive s) \<Longrightarrow> l \<noteq> []"
  by (induction s arbitrary: l) (auto split: list.splits if_splits)

section \<open>Lemmas on decimal numbers\<close>

lemma of_char_digit: "d < 10 \<Longrightarrow> of_char (digit_char d) = 48 + d"
  by (simp add: digit_char_def)

lemma digit_val_digit: "d < 10 \<Longrightarrow> digit_val (digit_char d) = Some d"
  by (simp add: digit_val_def of_char_digit)

lemma parse_digits_append:
  "parse_digits acc (s @ t) =
     (case parse_digits acc s of None \<Rightarrow> None | Some n \<Rightarrow> parse_digits n t)"
  by (induction s arbitrary: acc) (auto split: option.splits)

lemma parse_digits_nat_to_string: "parse_digits 0 (nat_to_string n) = Some n"
proof (induction n rule: nat_to_string.induct)
  case (1 n)
  then show ?case
    by (subst nat_to_string.simps)
      (auto simp: parse_digits_append digit_val_digit)
qed

lemma nat_to_string_nonempty [simp]: "nat_to_string n \<noteq> []"
  by (subst nat_to_string.simps) simp

lemma nat_to_string_digits: "c \<in> set (nat_to_string n) \<Longrightarrow> \<exists>d<10. c = digit_char d"
proof (induction n rule: nat_to_string.induct)
  case (1 n)
  then show ?case
    by (cases "n < 10") (auto simp: nat_to_string.simps [of n] intro: exI [of _ "n mod 10"])
qed

lemma nat_to_string_inj: "nat_to_string m = nat_to_string n \<Longrightarrow> m = n"
  by (metis option.inject parse_digits_nat_to_string)

lemma nat_to_string_alphanumeric: "c \<in> set (nat_to_string n) \<Longrightarrow> is_ascii_alphanumeric c"
  using nat_to_string_digits by (fastforce simp: is_ascii_alphanumeric_def of_char_digit)

lemma alphanumeric_not_ws: "is_ascii_alphanumeric c \<Longrightarrow> \<not> is_ws c"
  by (auto simp: is_ascii_alphanumeric_def is_ws_def Let_def)

lemma trim_nat_to_string [simp]: "trim (nat_to_string n) = nat_to_string n"
proof (rule trim_id)
  have "\<not> is_ws c" if "c \<in> set (nat_to_string n)" for c
    using that by (simp add: alphanumeric_not_ws nat_to_string_alphanumeric)
  then show "nat_to_string n = [] \<or>
      \<not> is_ws (hd (nat_to_string n)) \<and> \<not> is_ws (last (nat_to_string n))"
    by simp
qed

lemma parse_unsigned_nat_to_string:
  "n \<le> largest \<Longrightarrow> parse_unsigned largest (nat_to_string n) = Some n"
proof -
  assume n: "n \<le> largest"
  obtain c s where cs: "nat_to_string n = c # s"
    by (cases "nat_to_string n") simp_all
  then have "is_ascii_alphanumeric c"
    using nat_to_string_alphanumeric [of c n] by simp
  then have "c \<noteq> CHR ''+''"
    by (auto simp: is_ascii_alphanumeric_def)
  then show ?thesis
    using n parse_digits_nat_to_string [of n] by (simp add: parse_unsigned_def cs)
qed

lemma parse_unsigned_bound: "parse_unsigned largest s = Some n \<Longrightarrow> n \<le> largest"
  by (auto simp: parse_unsigned_def Let_def split: if_splits option.splits list.splits)

section \<open>The contract of a map, and \<open>BTreeMap\<close> as its first provider\<close>

text \<open>What the clients of a keyed collection rely on: a lookup after an insertion, and that the
  insertion keeps the representation invariant.\<close>

locale keyed_map =
  fixes empty :: 'm
    and insert :: "'k \<Rightarrow> 'v \<Rightarrow> 'm \<Rightarrow> 'm"
    and lookup :: "'m \<Rightarrow> 'k \<Rightarrow> 'v option"
    and invar :: "'m \<Rightarrow> bool"
  assumes lookup_empty: "lookup empty k = None"
    and lookup_insert: "invar m \<Longrightarrow> lookup (insert k v m) k' = (if k' = k then Some v else lookup m k')"
    and invar_empty: "invar empty"
    and invar_insert: "invar m \<Longrightarrow> invar (insert k v m)"
begin

lemma invar_fold: "invar m \<Longrightarrow> invar (fold (\<lambda>(k, v). insert k v) kvs m)"
  by (induction kvs arbitrary: m) (auto simp: invar_insert)

lemma lookup_fold:
  "invar m \<Longrightarrow>
     lookup (fold (\<lambda>(k, v). insert k v) kvs m) k =
       (case map_of (rev kvs) k of None \<Rightarrow> lookup m k | Some v \<Rightarrow> Some v)"
proof (induction kvs arbitrary: m)
  case (Cons kv kvs)
  obtain k0 v0 where kv: "kv = (k0, v0)" by (cases kv)
  have "invar (insert k0 v0 m)" using Cons.prems by (rule invar_insert)
  with Cons show ?case
    by (simp add: kv lookup_insert map_add_def split: option.split)
qed simp

lemma insert_commute_lookup:
  "invar m \<Longrightarrow> k \<noteq> l \<Longrightarrow>
     lookup (insert k v (insert l w m)) x = lookup (insert l w (insert k v m)) x"
  by (simp add: lookup_insert invar_insert)

end

lemma map_of_bt_insert: "map_of (bt_insert k v m) k' = (if k' = k then Some v else map_of m k')"
  by (induction m) auto

lemma fst_bt_insert: "fst ` set (bt_insert k v m) = insert k (fst ` set m)"
  by (induction m) force+

lemma bt_wf_insert: "bt_wf m \<Longrightarrow> bt_wf (bt_insert k v m)"
proof (induction m)
  case (Cons kv m)
  obtain k0 v0 where kv: "kv = (k0, v0)" by (cases kv)
  have "x \<in> set (map fst (bt_insert k v m)) \<Longrightarrow> x = k \<or> x \<in> fst ` set m" for x
    using fst_bt_insert [of k v m] by auto
  with Cons show ?case
    by (fastforce simp: kv bt_wf_def)
qed (simp add: bt_wf_def)

interpretation btree: keyed_map "[]" bt_insert bt_get bt_wf
  by unfold_locales (simp_all add: bt_get_def map_of_bt_insert bt_wf_insert bt_wf_def [of "[]"])

lemma bt_get_insert [simp]: "bt_get (bt_insert k v m) k' = (if k' = k then Some v else bt_get m k')"
  by (simp add: bt_get_def map_of_bt_insert)

lemma bt_get_remove [simp]: "bt_get (bt_remove k m) k' = (if k' = k then None else bt_get m k')"
  by (induction m) (auto simp: bt_get_def bt_remove_def)

lemma bt_get_Nil [simp]: "bt_get [] k = None"
  by (simp add: bt_get_def)

lemma bt_wf_Nil [simp]: "bt_wf []"
  by (rule btree.invar_empty)

lemma bt_wf_extend: "bt_wf m \<Longrightarrow> bt_wf (bt_extend m n)"
  unfolding bt_extend_def by (rule btree.invar_fold)

lemma bt_get_extend:
  "bt_wf m \<Longrightarrow> bt_get (bt_extend m n) k =
     (case map_of (rev n) k of None \<Rightarrow> bt_get m k | Some v \<Rightarrow> Some v)"
  unfolding bt_extend_def by (rule btree.lookup_fold)

section \<open>Systems that react to events\<close>

text \<open>The states a system reaches from its initial states. A step answers an event with the next
  state, or with \<^const>\<open>None\<close> when the handler panics.\<close>

inductive reach :: "('s \<Rightarrow> bool) \<Rightarrow> ('s \<Rightarrow> 'e \<Rightarrow> 's option \<Rightarrow> bool) \<Rightarrow> 's \<Rightarrow> bool" for init step where
  reach_init: "init s \<Longrightarrow> reach init step s"
| reach_step: "reach init step s \<Longrightarrow> step s e (Some s') \<Longrightarrow> reach init step s'"

text \<open>What makes an invariant: it holds initially, and from a state where it holds every handler
  returns, in a state where it holds.\<close>

locale step_system =
  fixes init :: "'s \<Rightarrow> bool"
    and step :: "'s \<Rightarrow> 'e \<Rightarrow> 's option \<Rightarrow> bool"
    and inv :: "'s \<Rightarrow> bool"
  assumes init_inv: "init s \<Longrightarrow> inv s"
    and step_inv: "inv s \<Longrightarrow> step s e m \<Longrightarrow> wp m inv"
begin

lemma reach_inv: "reach init step s \<Longrightarrow> inv s"
proof (induction rule: reach.induct)
  case (reach_step s e s')
  then show ?case using step_inv [of s e "Some s'"] by simp
qed (rule init_inv)

lemma reach_no_panic: "reach init step s \<Longrightarrow> step s e m \<Longrightarrow> m \<noteq> None"
  using step_inv [OF reach_inv, of s e m] by (cases m) simp_all

end

end
