(* ===== verification/I18n.thy ===== *)
theory I18n
  imports Prelude
begin

text \<open>
  The translation layer (\<open>crates/i18n\<close>): the current language, one table per language loaded from
  the embedded locale files, and the lookup behind the \<open>t!\<close> macro with its fallbacks. The tables are
  state that the rest of the program only reads, so every operation that produces a message takes
  an \<open>i18n\<close> record.
\<close>

datatype language = English | PortugueseBrazil

datatype ui_language_content = LanguageSystem | LanguageEnglish | LanguagePortugueseBrazil

definition language_code :: "language \<Rightarrow> string" where
  "language_code l = (case l of English \<Rightarrow> ''en'' | PortugueseBrazil \<Rightarrow> ''pt-BR'')"

definition language_index :: "language \<Rightarrow> u8" where
  "language_index l = (case l of English \<Rightarrow> 0 | PortugueseBrazil \<Rightarrow> 1)"

definition language_from_index :: "u8 \<Rightarrow> language" where
  "language_from_index i = (if i = 1 then PortugueseBrazil else English)"

text \<open>The system locale is what \<open>sys_locale::get_locale\<close> reports.\<close>

definition system_language :: "string option \<Rightarrow> language" where
  "system_language locale = (case locale of
     Some l \<Rightarrow> if prefix ''pt'' (to_lowercase l) then PortugueseBrazil else English
   | None \<Rightarrow> English)"

definition language_from_setting :: "string option \<Rightarrow> ui_language_content \<Rightarrow> language" where
  "language_from_setting locale s = (case s of
     LanguageSystem \<Rightarrow> system_language locale
   | LanguageEnglish \<Rightarrow> English
   | LanguagePortugueseBrazil \<Rightarrow> PortugueseBrazil)"

type_synonym table = "string \<rightharpoonup> string"

record i18n =
  current_language :: u8
  tables :: "language \<Rightarrow> table"

text \<open>The files are given as the embedded paths with the entries their JSON holds, or
  \<^const>\<open>None\<close> for a file that does not parse, which is logged and left out.\<close>

definition namespaces ::
  "(string \<times> (string \<times> string) list option) list \<Rightarrow> language \<Rightarrow>
     (string \<times> (string \<times> string) list) list" where
  "namespaces files l = List.map_filter (\<lambda>(path, content).
     case Option.bind (strip_prefix (language_code l @ ''/'') path) (strip_suffix ''.json'') of
       None \<Rightarrow> None
     | Some namespace \<Rightarrow> map_option (\<lambda>entries. (namespace, entries)) content) files"

definition load_table :: "(string \<times> (string \<times> string) list option) list \<Rightarrow> language \<Rightarrow> table" where
  "load_table files l =
     fold (\<lambda>(namespace, entries) t.
       fold (\<lambda>(key, value) t. t(namespace @ ''.'' @ key \<mapsto> value)) entries t)
     (namespaces files l) Map.empty"

definition set_language :: "language \<Rightarrow> i18n \<Rightarrow> i18n" where
  "set_language l L = L\<lparr>current_language := language_index l\<rparr>"

definition lookup :: "i18n \<Rightarrow> string \<Rightarrow> string" where
  "lookup L key =
     (case tables L (language_from_index (current_language L)) key of
        Some text \<Rightarrow> text
      | None \<Rightarrow> (case tables L English key of Some text \<Rightarrow> text | None \<Rightarrow> key))"

definition translate :: "i18n \<Rightarrow> string \<Rightarrow> string" where
  "translate L key = lookup L key"

definition translate_with :: "i18n \<Rightarrow> string \<Rightarrow> (string \<times> string) list \<Rightarrow> string" where
  "translate_with L key arguments =
     fold (\<lambda>(name, value) text. str_replace text (''{'' @ name @ ''}'') value) arguments (lookup L key)"

definition translate_text :: "i18n \<Rightarrow> string \<Rightarrow> string \<Rightarrow> string" where
  "translate_text L namespace text =
     (let l = language_from_index (current_language L) in
      if l = English then text
      else case tables L l (namespace @ ''.'' @ text) of Some t \<Rightarrow> t | None \<Rightarrow> text)"

section \<open>Lookup, fallback and placeholders\<close>

lemma language_index_roundtrip [simp]: "language_from_index (language_index l) = l"
  by (cases l) (simp_all add: language_from_index_def language_index_def)

lemma replace_aux_no_match:
  "\<not> str_contains s p \<Longrightarrow> replace_aux 0 p t s = s"
proof (induction s)
  case (Cons c s)
  have "\<not> prefix p (c # s)"
    using Cons.prems by (auto simp: str_contains_def)
  moreover have "\<not> str_contains s p"
    using Cons.prems \<open>\<not> prefix p (c # s)\<close> by (auto simp: str_contains_def)
  ultimately show ?case using Cons.IH by simp
qed simp

lemma replace_aux_drop: "replace_aux k p t s = replace_aux 0 p t (drop k s)"
proof (induction s arbitrary: k)
  case (Cons c s)
  then show ?case by (cases k) simp_all
qed simp

text \<open>The first occurrence is replaced and the search goes on behind it.\<close>

lemma str_replace_first:
  assumes "p \<noteq> []" "str_find p s = Some i"
  shows "str_replace s p t = take i s @ t @ str_replace (drop (i + length p) s) p t"
  using assms(2)
proof (induction s arbitrary: i)
  case Nil
  with assms(1) show ?case by simp
next
  case (Cons c s)
  show ?case
  proof (cases "prefix p (c # s)")
    case True
    with Cons.prems have "i = 0" by simp
    moreover have "drop (length p - 1) s = drop (length p) (c # s)"
      using assms(1) by (cases p) simp_all
    ultimately show ?thesis
      using True assms(1)
      by (simp add: str_replace_def replace_aux_drop [of "length p - Suc 0"])
  next
    case False
    with Cons.prems obtain j where j: "str_find p s = Some j" "i = Suc j"
      by auto
    with Cons.IH [OF j(1)] False show ?thesis
      by (simp add: str_replace_def)
  qed
qed

lemma str_replace_no_match: "\<not> str_contains s p \<Longrightarrow> str_replace s p t = s"
  by (simp add: str_replace_def replace_aux_no_match)

end
