(* ===== verification/TaskAgents.thy ===== *)
theory TaskAgents
  imports I18n
begin

text \<open>
  Task agents (\<open>crates/task_agents\<close>): the command slug, the frontmatter of an agent file, reading
  an agent from its file and writing it back, the per-tool rules, and loading the agents of several
  folders with precedence between them.

  The YAML library is a parameter: \<open>from_yaml\<close> reads a frontmatter record or fails with the
  library's message, \<open>to_yaml\<close> writes one. An \<open>anyhow\<close> error is the list of its messages, outermost
  context first.
\<close>

type_synonym error = "string list"
type_synonym 'a result = "error + 'a"
type_synonym path = "string list"

definition render_error :: "error \<Rightarrow> string" where
  "render_error e = str_join '': '' e"

definition result_bind :: "'e + 'a \<Rightarrow> ('a \<Rightarrow> 'e + 'b) \<Rightarrow> 'e + 'b" where
  "result_bind m f = (case m of Inl e \<Rightarrow> Inl e | Inr x \<Rightarrow> f x)"

definition ok_or :: "'e \<Rightarrow> 'a option \<Rightarrow> 'e + 'a" where
  "ok_or e m = (case m of None \<Rightarrow> Inl e | Some x \<Rightarrow> Inr x)"

definition with_context :: "string \<Rightarrow> 'a result \<Rightarrow> 'a result" where
  "with_context c m = (case m of Inl e \<Rightarrow> Inl (c # e) | Inr x \<Rightarrow> Inr x)"

text \<open>\<open>Option::filter\<close>, \<open>Option::unwrap_or\<close>.\<close>

definition option_filter :: "('a \<Rightarrow> bool) \<Rightarrow> 'a option \<Rightarrow> 'a option" where
  "option_filter p m = (case m of Some x \<Rightarrow> if p x then Some x else None | None \<Rightarrow> None)"

definition unwrap_or :: "'a \<Rightarrow> 'a option \<Rightarrow> 'a" where
  "unwrap_or d m = (case m of Some x \<Rightarrow> x | None \<Rightarrow> d)"

text \<open>\<open>Path::file_name\<close>, \<open>Path::file_stem\<close> and \<open>Path::extension\<close> on a path given by its
  components.\<close>

definition file_name :: "path \<Rightarrow> string option" where
  "file_name p = (if p = [] \<or> last p = ''..'' \<or> last p = ''/'' then None else Some (last p))"

definition rsplit_dot :: "string \<Rightarrow> string \<times> string option" where
  "rsplit_dot s = (case position (\<lambda>c. c = CHR ''.'') (rev s) of
     None \<Rightarrow> (s, None)
   | Some i \<Rightarrow> (let k = length s - Suc i in
       if k = 0 then (s, None) else (take k s, Some (drop (Suc k) s))))"

definition file_stem :: "path \<Rightarrow> string option" where
  "file_stem p = map_option (\<lambda>n. fst (rsplit_dot n)) (file_name p)"

definition extension :: "path \<Rightarrow> string option" where
  "extension p = Option.bind (file_name p) (\<lambda>n. snd (rsplit_dot n))"

section \<open>Sources and permissions\<close>

datatype task_agent_source = AgentProject string | AgentPersonal | AgentImported string

definition is_editable :: "task_agent_source \<Rightarrow> bool" where
  "is_editable s = (case s of AgentImported _ \<Rightarrow> False | _ \<Rightarrow> True)"

definition precedence :: "task_agent_source \<Rightarrow> nat" where
  "precedence s = (case s of AgentProject _ \<Rightarrow> 2 | AgentPersonal \<Rightarrow> 1 | AgentImported _ \<Rightarrow> 0)"

datatype permission_mode = Allow | Confirm | Deny

record tool_permission_rules =
  rules_default :: "permission_mode option"
  rules_allow :: "string list"
  rules_confirm :: "string list"
  rules_deny :: "string list"

datatype permission_entry = Mode permission_mode | Rules tool_permission_rules

definition rules_of_entry :: "permission_entry \<Rightarrow> tool_permission_rules" where
  "rules_of_entry e = (case e of
     Mode m \<Rightarrow> \<lparr>rules_default = Some m, rules_allow = [], rules_confirm = [], rules_deny = []\<rparr>
   | Rules r \<Rightarrow> r)"

definition entry_of_rules :: "tool_permission_rules \<Rightarrow> permission_entry" where
  "entry_of_rules r =
     (if rules_allow r = [] \<and> rules_confirm r = [] \<and> rules_deny r = [] then
        (case rules_default r of Some m \<Rightarrow> Mode m | None \<Rightarrow> Rules r)
      else Rules r)"

datatype tools_entry = ToolsMap "(string, bool) btree" | ToolsList "string list" | ToolsText string

datatype toolkits_entry = KitsList "string list" | KitsText string

text \<open>\<open>str::split\<close> with a set of separator characters.\<close>

fun split_chars :: "(char \<Rightarrow> bool) \<Rightarrow> string \<Rightarrow> string list" where
  "split_chars p [] = [[]]"
| "split_chars p (c # s) =
     (if p c then [] # split_chars p s
      else case split_chars p s of [] \<Rightarrow> [[c]] | w # ws \<Rightarrow> (c # w) # ws)"

definition split_names :: "string \<Rightarrow> string list" where
  "split_names text =
     filter (\<lambda>n. n \<noteq> []) (map trim (split_chars (\<lambda>c. c = CHR '','' \<or> c = CHR '' '') text))"

section \<open>Models and efforts\<close>

record model_reference =
  mr_provider :: string
  mr_model :: string

definition split_once :: "char \<Rightarrow> string \<Rightarrow> (string \<times> string) option" where
  "split_once c s = map_option (\<lambda>i. (take i s, drop (Suc i) s)) (position (\<lambda>d. d = c) s)"

definition model_reference_parse :: "string \<Rightarrow> model_reference option" where
  "model_reference_parse text = (case split_once CHR ''/'' (trim text) of
     None \<Rightarrow> None
   | Some (provider, model) \<Rightarrow>
       if provider = [] \<or> model = [] then None
       else Some \<lparr>mr_provider = provider, mr_model = model\<rparr>)"

definition model_reference_display :: "model_reference \<Rightarrow> string" where
  "model_reference_display m = mr_provider m @ ''/'' @ mr_model m"

datatype subagent_thinking_effort =
  EffortInherit | EffortAuto | EffortLow | EffortMedium | EffortHigh | EffortXHigh | EffortMax

definition effort_value :: "subagent_thinking_effort \<Rightarrow> string option" where
  "effort_value e = (case e of
     EffortInherit \<Rightarrow> None | EffortAuto \<Rightarrow> None
   | EffortLow \<Rightarrow> Some ''low'' | EffortMedium \<Rightarrow> Some ''medium'' | EffortHigh \<Rightarrow> Some ''high''
   | EffortXHigh \<Rightarrow> Some ''xhigh'' | EffortMax \<Rightarrow> Some ''max'')"

definition effort_from_value :: "string \<Rightarrow> subagent_thinking_effort option" where
  "effort_from_value v = List.find (\<lambda>e. effort_value e = Some v)
     [EffortInherit, EffortAuto, EffortLow, EffortMedium, EffortHigh, EffortXHigh, EffortMax]"

definition subagent_effort_frontmatter_value :: "subagent_thinking_effort \<Rightarrow> string option" where
  "subagent_effort_frontmatter_value e =
     (case e of EffortAuto \<Rightarrow> Some ''auto'' | _ \<Rightarrow> effort_value e)"

section \<open>The agent\<close>

record task_agent_triggers =
  trig_composer :: bool
  trig_repo_dock :: bool
  trig_shortcut :: "string option"

definition triggers_default :: task_agent_triggers where
  "triggers_default = \<lparr>trig_composer = True, trig_repo_dock = False, trig_shortcut = None\<rparr>"

record task_agent =
  ta_id :: string
  ta_name :: string
  ta_command :: string
  ta_description :: string
  ta_profile :: "string option"
  ta_model :: "string option"
  ta_subagent_model :: "string option"
  ta_subagent_effort :: "subagent_thinking_effort option"
  ta_toolkits :: "string list"
  ta_tools :: "(string, bool) btree"
  ta_permissions :: "(string, tool_permission_rules) btree"
  ta_takes :: "string list"
  ta_gives :: "string list"
  ta_context_servers :: "string list"
  ta_enabled :: bool
  ta_triggers :: task_agent_triggers
  ta_instructions :: string
  ta_source :: task_agent_source
  ta_file_path :: path

definition model_reference :: "task_agent \<Rightarrow> model_reference option" where
  "model_reference a = Option.bind (ta_model a) model_reference_parse"

definition subagent_model_is_auto :: "task_agent \<Rightarrow> bool" where
  "subagent_model_is_auto a = (ta_subagent_model a = Some ''auto'')"

definition subagent_model_reference :: "task_agent \<Rightarrow> model_reference option" where
  "subagent_model_reference a = Option.bind (ta_subagent_model a) model_reference_parse"

definition tool_override :: "task_agent \<Rightarrow> string \<Rightarrow> string option \<Rightarrow> bool option" where
  "tool_override a tool toolkit =
     (case bt_get (ta_tools a) tool of
        Some enabled \<Rightarrow> Some enabled
      | None \<Rightarrow> (case toolkit of
            Some t \<Rightarrow> if t \<in> set (ta_toolkits a) then Some True else None
          | None \<Rightarrow> None))"

definition permission_rules :: "task_agent \<Rightarrow> string \<Rightarrow> string option \<Rightarrow> tool_permission_rules option" where
  "permission_rules a tool toolkit =
     (case bt_get (ta_permissions a) tool of
        Some r \<Rightarrow> Some r
      | None \<Rightarrow> (case Option.bind toolkit (bt_get (ta_permissions a)) of
            Some r \<Rightarrow> Some r
          | None \<Rightarrow> bt_get (ta_permissions a) ''*''))"

section \<open>Slugs and frontmatter\<close>

text \<open>The Portuguese letters the slug keeps without their accent.\<close>

definition plain_letter :: "char \<Rightarrow> char" where
  "plain_letter c =
     (let n = of_char c :: nat in
      if n \<in> {0xE1, 0xE0, 0xE3, 0xE2, 0xC1, 0xC0, 0xC3, 0xC2} then CHR ''a''
      else if n \<in> {0xE9, 0xEA, 0xC9, 0xCA} then CHR ''e''
      else if n \<in> {0xED, 0xCD} then CHR ''i''
      else if n \<in> {0xF3, 0xF5, 0xF4, 0xD3, 0xD5, 0xD4} then CHR ''o''
      else if n \<in> {0xFA, 0xDA} then CHR ''u''
      else if n \<in> {0xE7, 0xC7} then CHR ''c''
      else c)"

definition slug_step :: "string \<Rightarrow> char \<Rightarrow> string" where
  "slug_step slug c =
     (let c = plain_letter c in
      if is_ascii_alphanumeric c then slug @ [ascii_lower c]
      else if \<not> suffix ''-'' slug \<and> slug \<noteq> [] then slug @ ''-''
      else slug)"

definition trim_end_dashes :: "string \<Rightarrow> string" where
  "trim_end_dashes s = rev (dropWhile (\<lambda>c. c = CHR ''-'') (rev s))"

definition command_slug :: "string \<Rightarrow> string" where
  "command_slug text =
     trim_end_dashes (foldl slug_step [] (dropWhile (\<lambda>c. c = CHR ''/'') (trim text)))"

definition trim_end_newlines :: "string \<Rightarrow> string" where
  "trim_end_newlines s = rev (dropWhile (\<lambda>c. c = CHR 0x0D \<or> c = newline) (rev s))"

text \<open>The loop over the lines behind the opening \<open>---\<close>: the lines before the closing one, and the
  text behind it.\<close>

fun frontmatter_lines :: "string list \<Rightarrow> (string list \<times> string list) option" where
  "frontmatter_lines [] = None"
| "frontmatter_lines (l # ls) =
     (if trim_end_newlines l = ''---'' then Some ([], ls)
      else map_option (\<lambda>(before, after). (l # before, after)) (frontmatter_lines ls))"

text \<open>The leading U+FEFF lies outside the modelled range of characters, so the text has none.\<close>

definition split_frontmatter :: "i18n \<Rightarrow> string \<Rightarrow> (string option \<times> string) result" where
  "split_frontmatter L content =
     (case (case strip_prefix (''---'' @ [newline]) content of
              Some rest \<Rightarrow> Some rest
            | None \<Rightarrow> strip_prefix (''---'' @ [CHR 0x0D, newline]) content) of
        None \<Rightarrow> Inr (None, content)
      | Some rest \<Rightarrow> (case frontmatter_lines (split_inclusive rest) of
            Some (before, after) \<Rightarrow> Inr (Some (concat before), concat after)
          | None \<Rightarrow> Inl [translate L ''task_agents.parse.unclosed_frontmatter'']))"

record triggers_entry =
  te_composer :: "bool option"
  te_repo_dock :: bool
  te_shortcut :: "string option"

record frontmatter =
  fm_name :: "string option"
  fm_command :: "string option"
  fm_description :: string
  fm_profile :: "string option"
  fm_model :: "string option"
  fm_subagent_model :: "string option"
  fm_subagent_effort :: "string option"
  fm_toolkits :: "toolkits_entry option"
  fm_tools :: "tools_entry option"
  fm_permissions :: "(string, permission_entry) btree"
  fm_takes :: "toolkits_entry option"
  fm_gives :: "toolkits_entry option"
  fm_context_servers :: "toolkits_entry option"
  fm_enabled :: "bool option"
  fm_triggers :: triggers_entry

definition triggers_entry_default :: triggers_entry where
  "triggers_entry_default = \<lparr>te_composer = None, te_repo_dock = False, te_shortcut = None\<rparr>"

definition frontmatter_default :: frontmatter where
  "frontmatter_default = \<lparr>fm_name = None, fm_command = None, fm_description = [], fm_profile = None,
     fm_model = None, fm_subagent_model = None, fm_subagent_effort = None, fm_toolkits = None,
     fm_tools = None, fm_permissions = [], fm_takes = None, fm_gives = None,
     fm_context_servers = None, fm_enabled = None, fm_triggers = triggers_entry_default\<rparr>"

definition names_of_entry :: "toolkits_entry option \<Rightarrow> string list" where
  "names_of_entry e = (case e of
     Some (KitsList names) \<Rightarrow> names | Some (KitsText text) \<Rightarrow> split_names text | None \<Rightarrow> [])"

definition tools_on :: "string list \<Rightarrow> (string, bool) btree" where
  "tools_on names = fold (\<lambda>n. bt_insert n True) names []"

definition tools_of_entry :: "bool \<Rightarrow> tools_entry option \<Rightarrow> (string, bool) btree" where
  "tools_of_entry imported e =
     (if imported then []
      else case e of
        Some (ToolsMap m) \<Rightarrow> m
      | Some (ToolsList names) \<Rightarrow> tools_on names
      | Some (ToolsText text) \<Rightarrow> tools_on (split_names text)
      | None \<Rightarrow> [])"

definition triggers_of_entry :: "triggers_entry \<Rightarrow> task_agent_triggers" where
  "triggers_of_entry e =
     \<lparr>trig_composer = unwrap_or True (te_composer e),
      trig_repo_dock = te_repo_dock e,
      trig_shortcut = option_filter (\<lambda>s. s \<noteq> []) (map_option trim (te_shortcut e))\<rparr>"

text \<open>What \<open>parse_task_agent\<close> does once the frontmatter is read.\<close>

definition agent_of_frontmatter ::
  "i18n \<Rightarrow> string \<Rightarrow> path \<Rightarrow> task_agent_source \<Rightarrow> frontmatter \<Rightarrow> string \<Rightarrow> task_agent result" where
  "agent_of_frontmatter L aid path source fm body =
     (let name = unwrap_or aid (option_filter (\<lambda>n. trim n \<noteq> []) (fm_name fm));
          command = command_slug (unwrap_or name (fm_command fm)) in
      if command = [] then Inl [translate_with L ''task_agents.parse.no_command'' [(''name'', name)]]
      else Inr
       \<lparr>ta_id = aid, ta_name = name, ta_command = command,
        ta_description = trim (fm_description fm),
        ta_profile = option_filter (\<lambda>p. p \<noteq> []) (fm_profile fm),
        ta_model = option_filter (\<lambda>m. model_reference_parse m \<noteq> None) (fm_model fm),
        ta_subagent_model = option_filter (\<lambda>m. m = ''auto'' \<or> model_reference_parse m \<noteq> None)
          (map_option trim (fm_subagent_model fm)),
        ta_subagent_effort = Option.bind (map_option trim (fm_subagent_effort fm))
          (\<lambda>e. if e = ''auto'' then Some EffortAuto else effort_from_value e),
        ta_toolkits = names_of_entry (fm_toolkits fm),
        ta_tools = tools_of_entry (\<not> is_editable source) (fm_tools fm),
        ta_permissions = map (\<lambda>(n, e). (n, rules_of_entry e)) (fm_permissions fm),
        ta_takes = names_of_entry (fm_takes fm),
        ta_gives = names_of_entry (fm_gives fm),
        ta_context_servers = names_of_entry (fm_context_servers fm),
        ta_enabled = unwrap_or True (fm_enabled fm),
        ta_triggers = triggers_of_entry (fm_triggers fm),
        ta_instructions = trim body, ta_source = source, ta_file_path = path\<rparr>)"

definition parse_task_agent ::
  "i18n \<Rightarrow> (string \<Rightarrow> string + frontmatter) \<Rightarrow> path \<Rightarrow> string \<Rightarrow> task_agent_source \<Rightarrow>
     task_agent result" where
  "parse_task_agent L from_yaml path content source =
     result_bind (ok_or [translate L ''task_agents.parse.no_name''] (file_stem path)) (\<lambda>aid.
     result_bind (split_frontmatter L content) (\<lambda>(fm, body).
     result_bind
       (case fm of
          Some yaml \<Rightarrow>
            if trim yaml \<noteq> [] then
              (case from_yaml yaml of
                 Inl e \<Rightarrow> Inl [translate L ''task_agents.parse.invalid_yaml'', e]
               | Inr f \<Rightarrow> Inr f)
            else Inr frontmatter_default
        | None \<Rightarrow> Inr frontmatter_default) (\<lambda>f.
     agent_of_frontmatter L aid path source f body)))"

section \<open>Writing an agent\<close>

record triggers_out =
  to_composer :: bool
  to_repo_dock :: bool
  to_shortcut :: "string option"

record frontmatter_out =
  fo_name :: string
  fo_command :: string
  fo_description :: string
  fo_profile :: "string option"
  fo_model :: "string option"
  fo_subagent_model :: "string option"
  fo_subagent_effort :: "string option"
  fo_toolkits :: "string list"
  fo_tools :: "(string, bool) btree"
  fo_permissions :: "(string, permission_entry) btree"
  fo_takes :: "string list"
  fo_gives :: "string list"
  fo_context_servers :: "string list"
  fo_enabled :: bool
  fo_triggers :: "triggers_out option"

definition triggers_out_of :: "task_agent_triggers \<Rightarrow> triggers_out option" where
  "triggers_out_of t =
     (if t \<noteq> triggers_default then
        Some \<lparr>to_composer = trig_composer t, to_repo_dock = trig_repo_dock t,
              to_shortcut = trig_shortcut t\<rparr>
      else None)"

definition frontmatter_of_agent :: "task_agent \<Rightarrow> frontmatter_out" where
  "frontmatter_of_agent a =
     \<lparr>fo_name = ta_name a, fo_command = ta_command a, fo_description = ta_description a,
      fo_profile = ta_profile a, fo_model = ta_model a, fo_subagent_model = ta_subagent_model a,
      fo_subagent_effort = Option.bind (ta_subagent_effort a) subagent_effort_frontmatter_value,
      fo_toolkits = ta_toolkits a, fo_tools = ta_tools a,
      fo_permissions = map (\<lambda>(n, r). (n, entry_of_rules r)) (ta_permissions a),
      fo_takes = ta_takes a, fo_gives = ta_gives a, fo_context_servers = ta_context_servers a,
      fo_enabled = ta_enabled a,
      fo_triggers = triggers_out_of (ta_triggers a)\<rparr>"

definition agent_to_markdown :: "(frontmatter_out \<Rightarrow> string) \<Rightarrow> task_agent \<Rightarrow> string" where
  "agent_to_markdown to_yaml a =
     ''---'' @ [newline] @ to_yaml (frontmatter_of_agent a) @ ''---'' @ [newline, newline]
       @ trim (ta_instructions a) @ [newline]"

text \<open>The serialisation attributes of the two frontmatter structs: a field that is skipped when
  written is absent when read, and an absent field has the reader's default.\<close>

definition list_reread :: "string list \<Rightarrow> toolkits_entry option" where
  "list_reread xs = (if xs = [] then None else Some (KitsList xs))"

definition triggers_reread :: "triggers_out option \<Rightarrow> triggers_entry" where
  "triggers_reread m = (case m of
     None \<Rightarrow> triggers_entry_default
   | Some t \<Rightarrow> \<lparr>te_composer = (if to_composer t then None else Some False),
               te_repo_dock = to_repo_dock t, te_shortcut = to_shortcut t\<rparr>)"

definition frontmatter_reread :: "frontmatter_out \<Rightarrow> frontmatter" where
  "frontmatter_reread f =
     \<lparr>fm_name = Some (fo_name f), fm_command = Some (fo_command f),
      fm_description = fo_description f, fm_profile = fo_profile f, fm_model = fo_model f,
      fm_subagent_model = fo_subagent_model f, fm_subagent_effort = fo_subagent_effort f,
      fm_toolkits = list_reread (fo_toolkits f),
      fm_tools = (if fo_tools f = [] then None else Some (ToolsMap (fo_tools f))),
      fm_permissions = fo_permissions f,
      fm_takes = list_reread (fo_takes f), fm_gives = list_reread (fo_gives f),
      fm_context_servers = list_reread (fo_context_servers f),
      fm_enabled = (if fo_enabled f then None else Some False),
      fm_triggers = triggers_reread (fo_triggers f)\<rparr>"

section \<open>Loading the agents of several folders\<close>

record load_error =
  le_path :: path
  le_message :: string

record file_meta =
  meta_is_dir :: bool
  meta_len :: nat

text \<open>What the file system answers while the folders are read; an unreadable directory entry
  is \<^const>\<open>None\<close>, an I/O error is its message.\<close>

record fs_view =
  fs_read_dir :: "path \<Rightarrow> path option list option"
  fs_metadata :: "path \<Rightarrow> string + file_meta option"
  fs_load :: "path \<Rightarrow> string + string"

definition max_agent_file_size :: nat where
  "max_agent_file_size = 100 * 1024"

text \<open>One file of the folder: skipped, refused, or handed to the parser.\<close>

definition load_file ::
  "fs_view \<Rightarrow> nat \<Rightarrow> string \<Rightarrow> (path \<Rightarrow> string \<Rightarrow> 'a result) \<Rightarrow> path \<Rightarrow> (load_error + 'a) list" where
  "load_file fs max_size too_large parse path =
     (let fail = (\<lambda>m. [Inl \<lparr>le_path = path, le_message = m\<rparr>]);
          parsed = (case fs_load fs path of
              Inr content \<Rightarrow> (case parse path content of
                  Inr x \<Rightarrow> [Inr x] | Inl e \<Rightarrow> fail (render_error e))
            | Inl e \<Rightarrow> fail e) in
      case fs_metadata fs path of
        Inr (Some m) \<Rightarrow> if meta_is_dir m then [] else if meta_len m > max_size then fail too_large else parsed
      | Inr None \<Rightarrow> parsed
      | Inl e \<Rightarrow> fail e)"

definition load_directory ::
  "fs_view \<Rightarrow> nat \<Rightarrow> string \<Rightarrow> (path \<Rightarrow> bool) \<Rightarrow> (path \<Rightarrow> string \<Rightarrow> 'a result) \<Rightarrow> path \<Rightarrow>
     (load_error + 'a) list" where
  "load_directory fs max_size too_large wanted parse directory =
     (case fs_read_dir fs directory of
        None \<Rightarrow> []
      | Some entries \<Rightarrow>
          concat (map (load_file fs max_size too_large parse)
            (sort (filter wanted (List.map_filter (\<lambda>e. e) entries)))))"

definition load_task_agents_from_directory ::
  "i18n \<Rightarrow> (string \<Rightarrow> string + frontmatter) \<Rightarrow> fs_view \<Rightarrow> path \<Rightarrow> task_agent_source \<Rightarrow>
     (load_error + task_agent) list" where
  "load_task_agents_from_directory L from_yaml fs directory source =
     load_directory fs max_agent_file_size
       (translate_with L ''task_agents.load.too_large''
         [(''size'', nat_to_string (max_agent_file_size div 1024))])
       (\<lambda>p. extension p = Some ''md'')
       (\<lambda>p content. parse_task_agent L from_yaml p content source) directory"

definition add_agent :: "task_agent list \<Rightarrow> task_agent \<Rightarrow> task_agent list" where
  "add_agent agents a =
     (case position (\<lambda>e. ta_command e = ta_command a) agents of
        Some i \<Rightarrow>
          if precedence (ta_source a) > precedence (ta_source (agents ! i)) then agents[i := a] else agents
      | None \<Rightarrow> agents @ [a])"

fun merge_loaded ::
  "task_agent list \<times> load_error list \<Rightarrow> (load_error + task_agent) list \<Rightarrow>
     task_agent list \<times> load_error list" where
  "merge_loaded acc [] = acc"
| "merge_loaded (agents, errors) (Inr a # rs) = merge_loaded (add_agent agents a, errors) rs"
| "merge_loaded (agents, errors) (Inl e # rs) = merge_loaded (agents, errors @ [e]) rs"

definition load_task_agents ::
  "i18n \<Rightarrow> (string \<Rightarrow> string + frontmatter) \<Rightarrow> fs_view \<Rightarrow> path \<Rightarrow> (string \<times> path) list \<Rightarrow>
     task_agent list \<times> load_error list" where
  "load_task_agents L from_yaml fs personal_dir roots =
     merge_loaded ([], [])
       (concat (map (\<lambda>(name, root).
          load_task_agents_from_directory L from_yaml fs (root @ [''.asylum'', ''agents'']) (AgentProject name)
          @ load_task_agents_from_directory L from_yaml fs (root @ [''.claude'', ''agents'']) (AgentImported name))
          roots)
        @ load_task_agents_from_directory L from_yaml fs personal_dir AgentPersonal)"

definition shortcuts :: "task_agent list \<Rightarrow> (string \<times> string) list" where
  "shortcuts agents = List.map_filter
     (\<lambda>a. map_option (\<lambda>s. (s, ta_command a)) (trig_shortcut (ta_triggers a)))
     (filter ta_enabled agents)"

text \<open>\<open>set_active_task_agents\<close>: the published agents and whether the keymap is reloaded.\<close>

definition set_active_task_agents :: "task_agent list \<Rightarrow> task_agent list \<Rightarrow> task_agent list \<times> bool" where
  "set_active_task_agents active agents =
     (if active = agents then (active, False) else (agents, shortcuts agents \<noteq> shortcuts active))"

section \<open>Slugs\<close>

definition slug_char :: "char \<Rightarrow> bool" where
  "slug_char c = (let n = of_char c :: nat in (48 \<le> n \<and> n \<le> 57) \<or> (97 \<le> n \<and> n \<le> 122))"

definition dash_free_pair :: "char \<Rightarrow> char \<Rightarrow> bool" where
  "dash_free_pair x y = (x \<noteq> CHR ''-'' \<or> y \<noteq> CHR ''-'')"

text \<open>Lower-case letters, digits and single dashes, none of them at an end.\<close>

definition slug_ok :: "string \<Rightarrow> bool" where
  "slug_ok s = ((\<forall>c\<in>set s. slug_char c \<or> c = CHR ''-'') \<and> successively dash_free_pair s
     \<and> (s \<noteq> [] \<longrightarrow> hd s \<noteq> CHR ''-'' \<and> last s \<noteq> CHR ''-''))"

definition slug_prefix :: "string \<Rightarrow> bool" where
  "slug_prefix s = ((\<forall>c\<in>set s. slug_char c \<or> c = CHR ''-'') \<and> successively dash_free_pair s
     \<and> (s \<noteq> [] \<longrightarrow> hd s \<noteq> CHR ''-''))"

lemma slug_char_not_dash: "slug_char c \<Longrightarrow> c \<noteq> CHR ''-''"
  by (auto simp: slug_char_def)

lemma slug_char_lower: "is_ascii_alphanumeric c \<Longrightarrow> slug_char (ascii_lower c)"
  by (auto simp: is_ascii_alphanumeric_def slug_char_def ascii_lower_def Let_def)

lemma slug_prefix_snoc:
  assumes "slug_prefix s" "slug_char c"
  shows "slug_prefix (s @ [c])"
proof -
  from assms(2) have "c \<noteq> CHR ''-''" by (rule slug_char_not_dash)
  with assms show ?thesis
    by (simp add: slug_prefix_def successively_append_iff dash_free_pair_def hd_append)
qed

lemma slug_prefix_dash:
  "slug_prefix s \<Longrightarrow> s \<noteq> [] \<Longrightarrow> \<not> suffix ''-'' s \<Longrightarrow> slug_prefix (s @ ''-'')"
  by (cases s rule: rev_cases)
    (auto simp: slug_prefix_def successively_append_iff dash_free_pair_def suffix_def hd_append)

lemma slug_prefix_step: "slug_prefix s \<Longrightarrow> slug_prefix (slug_step s c)"
  by (auto simp: slug_step_def Let_def slug_prefix_snoc slug_prefix_dash slug_char_lower)

lemma slug_prefix_foldl: "slug_prefix s \<Longrightarrow> slug_prefix (foldl slug_step s cs)"
  by (induction cs arbitrary: s) (simp_all add: slug_prefix_step)

lemma trim_end_dashes_snoc:
  "trim_end_dashes (s @ [c]) = (if c = CHR ''-'' then trim_end_dashes s else s @ [c])"
  by (simp add: trim_end_dashes_def)

lemma slug_prefix_butlast: "slug_prefix (s @ [c]) \<Longrightarrow> slug_prefix s"
  by (auto simp: slug_prefix_def successively_append_iff hd_append split: if_splits)

lemma slug_ok_trim_end: "slug_prefix s \<Longrightarrow> slug_ok (trim_end_dashes s)"
proof (induction s rule: rev_induct)
  case Nil
  then show ?case by (simp add: slug_ok_def trim_end_dashes_def)
next
  case (snoc c s)
  show ?case
  proof (cases "c = CHR ''-''")
    case True
    with snoc slug_prefix_butlast show ?thesis by (simp add: trim_end_dashes_snoc)
  next
    case False
    with snoc.prems show ?thesis
      by (auto simp: trim_end_dashes_snoc slug_ok_def slug_prefix_def)
  qed
qed

lemma slug_prefix_Nil: "slug_prefix []"
  by (simp add: slug_prefix_def)

lemma slug_ok_command_slug: "slug_ok (command_slug text)"
  unfolding command_slug_def by (intro slug_ok_trim_end slug_prefix_foldl slug_prefix_Nil)

lemma plain_letter_ascii: "of_char c < (128::nat) \<Longrightarrow> plain_letter c = c"
  by (simp add: plain_letter_def)

lemma plain_letter_slug_char: "slug_char c \<or> c = CHR ''-'' \<Longrightarrow> plain_letter c = c"
  by (rule plain_letter_ascii) (auto simp: slug_char_def Let_def)

lemma slug_char_alphanumeric: "slug_char c \<Longrightarrow> is_ascii_alphanumeric c \<and> ascii_lower c = c"
  by (auto simp: slug_char_def is_ascii_alphanumeric_def ascii_lower_def Let_def)

lemma slug_step_slug_prefix: "slug_prefix (s @ [c]) \<Longrightarrow> slug_step s c = s @ [c]"
proof -
  assume p: "slug_prefix (s @ [c])"
  then have c: "slug_char c \<or> c = CHR ''-''" by (simp add: slug_prefix_def)
  show ?thesis
  proof (cases "c = CHR ''-''")
    case False
    with c show ?thesis
      using slug_char_alphanumeric [of c] by (simp add: slug_step_def plain_letter_slug_char)
  next
    case True
    have "\<not> is_ascii_alphanumeric CHR ''-''" by (simp add: is_ascii_alphanumeric_def)
    moreover have "s \<noteq> []" using p True by (auto simp: slug_prefix_def)
    moreover have "\<not> suffix ''-'' s"
      using p True by (auto simp: slug_prefix_def suffix_def successively_append_iff dash_free_pair_def)
    ultimately show ?thesis using True by (simp add: slug_step_def plain_letter_slug_char)
  qed
qed

lemma foldl_slug_step_id: "slug_prefix s \<Longrightarrow> foldl slug_step [] s = s"
proof (induction s rule: rev_induct)
  case (snoc c s)
  then show ?case
    using slug_prefix_butlast [OF snoc.prems] by (simp add: slug_step_slug_prefix)
qed simp

lemma slug_ok_imp_prefix: "slug_ok s \<Longrightarrow> slug_prefix s"
  by (auto simp: slug_ok_def slug_prefix_def)

lemma slug_char_not_special: "slug_char c \<or> c = CHR ''-'' \<Longrightarrow> \<not> is_ws c \<and> c \<noteq> CHR ''/''"
  by (auto simp: slug_char_def is_ws_def Let_def)

lemma command_slug_fixed: "slug_ok s \<Longrightarrow> command_slug s = s"
proof -
  assume ok: "slug_ok s"
  have chars: "\<not> is_ws c \<and> c \<noteq> CHR ''/''" if "c \<in> set s" for c
    using ok that slug_char_not_special by (auto simp: slug_ok_def)
  have t: "trim s = s"
    by (rule trim_id) (use chars in auto)
  have d: "dropWhile (\<lambda>c. c = CHR ''/'') s = s"
    using chars by (cases s) auto
  have e: "trim_end_dashes s = s"
    using ok by (cases s rule: rev_cases) (auto simp: slug_ok_def trim_end_dashes_snoc trim_end_dashes_def)
  show ?thesis
    by (simp add: command_slug_def t d e foldl_slug_step_id slug_ok_imp_prefix ok)
qed

text \<open>C32. Every command slug consists of lower-case ASCII letters, digits and single inner dashes,
  and taking the slug of a slug changes nothing, so a command survives any number of saves.\<close>

theorem command_slug_canonical:
  "slug_ok (command_slug text) \<and> command_slug (command_slug text) = command_slug text"
  by (simp add: slug_ok_command_slug command_slug_fixed)

section \<open>Frontmatter\<close>

text \<open>The shape of the text a YAML library writes for a mapping: it is not blank, ends with a
  line break and has no line that is just \<open>---\<close>.\<close>

definition yaml_block :: "string \<Rightarrow> bool" where
  "yaml_block y = (trim y \<noteq> [] \<and> y \<noteq> [] \<and> last y = newline
     \<and> (\<forall>l\<in>set (split_inclusive y). trim_end_newlines l \<noteq> ''---''))"

lemma split_inclusive_append:
  "y = [] \<or> last y = newline \<Longrightarrow> split_inclusive (y @ z) = split_inclusive y @ split_inclusive z"
proof (induction y)
  case (Cons c y)
  show ?case
  proof (cases "y = []")
    case True
    with Cons.prems show ?thesis by simp
  next
    case False
    with Cons.prems have "split_inclusive (y @ z) = split_inclusive y @ split_inclusive z"
      by (intro Cons.IH) simp
    moreover obtain l ls where "split_inclusive y = l # ls"
      using False concat_split_inclusive [of y] by (cases "split_inclusive y") auto
    ultimately show ?thesis by simp
  qed
qed simp

lemma frontmatter_lines_block:
  assumes "\<forall>l\<in>set ls. trim_end_newlines l \<noteq> ''---''" "trim_end_newlines l = ''---''"
  shows "frontmatter_lines (ls @ l # rest) = Some (ls, rest)"
  using assms by (induction ls) auto

lemma split_frontmatter_block:
  assumes "yaml_block y"
  shows "split_frontmatter L (''---'' @ [newline] @ y @ ''---'' @ [newline] @ body) = Inr (Some y, body)"
proof -
  have "split_inclusive (y @ ''---'' @ [newline] @ body)
      = split_inclusive y @ split_inclusive (''---'' @ [newline] @ body)"
    using assms by (intro split_inclusive_append) (simp add: yaml_block_def)
  also have "split_inclusive (''---'' @ [newline] @ body)
      = (''---'' @ [newline]) # split_inclusive body"
    by simp
  finally have "frontmatter_lines (split_inclusive (y @ ''---'' @ [newline] @ body))
      = Some (split_inclusive y, split_inclusive body)"
    using assms
    by (simp only:) (rule frontmatter_lines_block, simp_all add: yaml_block_def trim_end_newlines_def)
  then show ?thesis
    using strip_prefix_append [of "''---'' @ [newline]" "y @ ''---'' @ [newline] @ body"]
    by (simp add: split_frontmatter_def)
qed

lemma trim_newlines_around: "trim (newline # trim s @ [newline]) = trim s"
proof (cases "trim s = []")
  case True
  have "trim [newline, newline] = []" by (simp add: trim_empty_iff is_ws_def)
  with True show ?thesis by simp
next
  case False
  then have "trim_start (newline # trim s @ [newline]) = trim s @ [newline]"
    using trim_hd [OF False] by (cases "trim s") (simp_all add: trim_start_def is_ws_def)
  then show ?thesis
    using trim_last [OF False] trim_end_id [of "trim s"]
    by (simp add: trim_def [of "newline # trim s @ [newline]"] trim_end_snoc is_ws_def)
qed

section \<open>A saved agent reads back as it was\<close>

lemma rules_roundtrip [simp]: "rules_of_entry (entry_of_rules r) = r"
  by (auto simp: rules_of_entry_def entry_of_rules_def split: option.splits)

lemma option_filter_Some_iff: "option_filter p m = Some x \<longleftrightarrow> m = Some x \<and> p x"
  by (auto simp: option_filter_def split: option.splits if_splits)

lemma option_filter_again [simp]: "option_filter p (option_filter p m) = option_filter p m"
  by (auto simp: option_filter_def split: option.splits)

lemma option_filter_trim_again:
  "option_filter p (map_option trim (option_filter p (map_option trim m)))
     = option_filter p (map_option trim m)"
  by (cases m) (auto simp: option_filter_def)

lemma effort_roundtrip:
  "effort_from_value v = Some e \<Longrightarrow> effort_value e = Some v \<and> e \<noteq> EffortAuto \<and> e \<noteq> EffortInherit"
  by (auto simp: effort_from_value_def effort_value_def split: if_splits)

lemma trim_alphanumeric: "\<forall>c\<in>set s. is_ascii_alphanumeric c \<Longrightarrow> trim s = s"
  by (rule trim_id) (metis alphanumeric_not_ws hd_in_set last_in_set)

lemma effort_value_cases:
  assumes "effort_value e = Some v"
  shows "effort_from_value v = Some e" "v \<noteq> ''auto''" "\<forall>c\<in>set v. is_ascii_alphanumeric c"
  using assms
  by (cases e; simp add: effort_from_value_def effort_value_def; hypsubst;
      simp add: is_ascii_alphanumeric_def)+

lemma effort_from_value_value: "effort_value e = Some v \<Longrightarrow> effort_from_value v = Some e \<and> v \<noteq> ''auto'' \<and> trim v = v"
  using effort_value_cases trim_alphanumeric by blast

definition effort_of_text :: "string option \<Rightarrow> subagent_thinking_effort option" where
  "effort_of_text m = Option.bind (map_option trim m)
     (\<lambda>e. if e = ''auto'' then Some EffortAuto else effort_from_value e)"

lemma effort_of_text_again:
  "effort_of_text (Option.bind (effort_of_text m) subagent_effort_frontmatter_value) = effort_of_text m"
proof (cases "effort_of_text m")
  case None
  then show ?thesis by (simp add: effort_of_text_def)
next
  case (Some e)
  show ?thesis
  proof (cases "e = EffortAuto")
    case True
    have "trim ''auto'' = ''auto''" by (rule trim_id) (simp add: is_ws_def)
    with True Some show ?thesis
      by (simp add: effort_of_text_def [of "Some ''auto''"] subagent_effort_frontmatter_value_def)
  next
    case False
    with Some obtain v where "effort_from_value v = Some e"
      by (cases m) (auto simp: effort_of_text_def split: if_splits)
    then have v: "effort_value e = Some v" by (simp add: effort_roundtrip)
    with False have "subagent_effort_frontmatter_value e = Some v"
      by (cases e) (simp_all add: subagent_effort_frontmatter_value_def)
    with Some effort_from_value_value [OF v] show ?thesis
      by (simp add: effort_of_text_def [of "Some v"])
  qed
qed

lemma names_reread [simp]: "names_of_entry (list_reread xs) = xs"
  by (simp add: names_of_entry_def list_reread_def)

lemma permissions_reread:
  "map (\<lambda>(n, e). (n, rules_of_entry e)) (map (\<lambda>(n, r). (n, entry_of_rules r)) m) = m"
  by (induction m) auto

lemma agent_fields:
  assumes "agent_of_frontmatter L aid path source fm body = Inr a"
  shows "ta_id a = aid" "ta_source a = source" "ta_file_path a = path"
    and "ta_name a = unwrap_or aid (option_filter (\<lambda>n. trim n \<noteq> []) (fm_name fm))"
    and "ta_command a = command_slug (unwrap_or (ta_name a) (fm_command fm))" "ta_command a \<noteq> []"
    and "ta_description a = trim (fm_description fm)"
    and "ta_profile a = option_filter (\<lambda>p. p \<noteq> []) (fm_profile fm)"
    and "ta_model a = option_filter (\<lambda>m. model_reference_parse m \<noteq> None) (fm_model fm)"
    and "ta_subagent_model a = option_filter (\<lambda>m. m = ''auto'' \<or> model_reference_parse m \<noteq> None)
          (map_option trim (fm_subagent_model fm))"
    and "ta_subagent_effort a = effort_of_text (fm_subagent_effort fm)"
    and "ta_tools a = tools_of_entry (\<not> is_editable source) (fm_tools fm)"
    and "ta_triggers a = triggers_of_entry (fm_triggers fm)"
    and "ta_instructions a = trim body"
  using assms by (simp_all add: agent_of_frontmatter_def effort_of_text_def Let_def split: if_splits)
    (auto simp: agent_of_frontmatter_def effort_of_text_def Let_def split: if_splits)

lemma tools_reread:
  "tools_of_entry i (if tools_of_entry i e = [] then None else Some (ToolsMap (tools_of_entry i e)))
     = tools_of_entry i e"
  by (simp add: tools_of_entry_def)

lemma triggers_again: "triggers_of_entry (triggers_reread (triggers_out_of (triggers_of_entry e)))
    = triggers_of_entry e"
  by (auto simp: triggers_of_entry_def triggers_reread_def triggers_out_of_def triggers_default_def
      triggers_entry_default_def unwrap_or_def option_filter_def split: option.splits if_splits)

text \<open>The fields of a parsed agent are already in the form a second reading gives them.\<close>

lemma agent_of_frontmatter_again:
  assumes "agent_of_frontmatter L aid path source fm body = Inr a"
  shows "agent_of_frontmatter L aid path source (frontmatter_reread (frontmatter_of_agent a))
      (newline # trim (ta_instructions a) @ [newline]) = Inr a"
proof -
  note f = agent_fields [OF assms]
  have name: "unwrap_or aid (option_filter (\<lambda>n. trim n \<noteq> []) (Some (ta_name a))) = ta_name a"
    unfolding f(4) by (auto simp: unwrap_or_def option_filter_def split: option.splits)
  have cmd: "command_slug (ta_command a) = ta_command a"
    unfolding f(5) by (intro command_slug_fixed slug_ok_command_slug)
  have triggers: "triggers_of_entry (triggers_reread (triggers_out_of (ta_triggers a))) = ta_triggers a"
    unfolding f(13) by (rule triggers_again)
  have effort: "effort_of_text (Option.bind (ta_subagent_effort a) subagent_effort_frontmatter_value)
      = ta_subagent_effort a"
    unfolding f(11) by (rule effort_of_text_again)
  have sub: "option_filter (\<lambda>m. m = ''auto'' \<or> model_reference_parse m \<noteq> None)
      (map_option trim (ta_subagent_model a)) = ta_subagent_model a"
    unfolding f(10) by (rule option_filter_trim_again)
  have rest: "tools_of_entry (\<not> is_editable source)
        (if ta_tools a = [] then None else Some (ToolsMap (ta_tools a))) = ta_tools a"
    "option_filter (\<lambda>p. p \<noteq> []) (ta_profile a) = ta_profile a"
    "option_filter (\<lambda>m. model_reference_parse m \<noteq> None) (ta_model a) = ta_model a"
    "trim (ta_description a) = ta_description a" "trim (ta_instructions a) = ta_instructions a"
    unfolding f(7,8,9,12,14) by (rule tools_reread) simp_all
  have enabled: "unwrap_or True (if ta_enabled a then None else Some False) = ta_enabled a"
    by (simp add: unwrap_or_def)
  have body: "trim (newline # ta_instructions a @ [newline]) = ta_instructions a"
    using trim_newlines_around [of "ta_instructions a"] rest(5) by simp
  have "agent_of_frontmatter L aid path source (frontmatter_reread (frontmatter_of_agent a))
      (newline # trim (ta_instructions a) @ [newline]) =
    (if ta_command a = [] then Inl [translate_with L ''task_agents.parse.no_command'' [(''name'', ta_name a)]]
     else Inr \<lparr>ta_id = ta_id a, ta_name = ta_name a, ta_command = ta_command a,
        ta_description = ta_description a, ta_profile = ta_profile a, ta_model = ta_model a,
        ta_subagent_model = ta_subagent_model a, ta_subagent_effort = ta_subagent_effort a,
        ta_toolkits = ta_toolkits a, ta_tools = ta_tools a, ta_permissions = ta_permissions a,
        ta_takes = ta_takes a, ta_gives = ta_gives a, ta_context_servers = ta_context_servers a,
        ta_enabled = ta_enabled a, ta_triggers = ta_triggers a,
        ta_instructions = ta_instructions a, ta_source = ta_source a, ta_file_path = ta_file_path a\<rparr>)"
    unfolding agent_of_frontmatter_def Let_def
    by (simp only: frontmatter_reread_def frontmatter_of_agent_def frontmatter.simps frontmatter_out.simps
        name cmd f(1,2,3) sub rest effort [unfolded effort_of_text_def] triggers enabled body
        permissions_reread names_reread unwrap_or_def [of _ "Some _"] option.case)
  with f(6) show ?thesis by simp
qed

text \<open>C11. Saving an agent that was read from a file and reading it again gives the same agent,
  field by field, whatever was in the file: the command slug, the trimmed texts, the model filters,
  the effort levels, the permission shorthand and the trigger defaults all survive the round trip.
  The YAML library must read back what it wrote for this agent's frontmatter, and write it as a
  block of lines without a bare separator.\<close>

theorem parse_task_agent_resave:
  assumes "parse_task_agent L from_yaml path content source = Inr a"
    and "from_yaml (to_yaml (frontmatter_of_agent a)) = Inr (frontmatter_reread (frontmatter_of_agent a))"
    and "yaml_block (to_yaml (frontmatter_of_agent a))"
  shows "parse_task_agent L from_yaml path (agent_to_markdown to_yaml a) source = Inr a"
proof -
  let ?y = "to_yaml (frontmatter_of_agent a)"
  let ?body = "newline # trim (ta_instructions a) @ [newline]"
  from assms(1) obtain aid fm body where stem: "file_stem path = Some aid"
    and a: "agent_of_frontmatter L aid path source fm body = Inr a"
    by (auto simp: parse_task_agent_def result_bind_def ok_or_def split: sum.splits option.splits prod.splits)
  have "split_frontmatter L (agent_to_markdown to_yaml a) = Inr (Some ?y, ?body)"
    using split_frontmatter_block [OF assms(3), of L ?body] by (simp add: agent_to_markdown_def)
  moreover have "trim ?y \<noteq> []" using assms(3) by (simp add: yaml_block_def)
  ultimately show ?thesis
    using stem assms(2) agent_of_frontmatter_again [OF a]
    by (simp add: parse_task_agent_def result_bind_def ok_or_def)
qed

definition example_i18n :: i18n where
  "example_i18n = \<lparr>current_language = 0, tables = (\<lambda>_. Map.empty)\<rparr>"

definition example_agent :: task_agent where
  "example_agent = \<lparr>ta_id = ''dev'', ta_name = ''dev'', ta_command = ''dev'', ta_description = [],
     ta_profile = None, ta_model = None, ta_subagent_model = None, ta_subagent_effort = None,
     ta_toolkits = [], ta_tools = [], ta_permissions = [], ta_takes = [], ta_gives = [],
     ta_context_servers = [], ta_enabled = True, ta_triggers = triggers_default,
     ta_instructions = ''Code.'', ta_source = AgentPersonal, ta_file_path = [''dev.md'']\<rparr>"

definition example_from_yaml :: "string \<Rightarrow> string + frontmatter" where
  "example_from_yaml y = Inr (frontmatter_reread (frontmatter_of_agent example_agent))"

lemma example_agent_parses:
  "parse_task_agent example_i18n example_from_yaml [''dev.md''] ''Code.'' AgentPersonal = Inr example_agent"
  by code_simp

theorem parse_task_agent_resave_witness:
  "parse_task_agent example_i18n example_from_yaml [''dev.md'']
     (agent_to_markdown (\<lambda>_. ''name: dev'' @ [newline]) example_agent) AgentPersonal = Inr example_agent"
proof (rule parse_task_agent_resave [OF example_agent_parses])
  show "yaml_block (''name: dev'' @ [newline])"
    by code_simp
qed (simp add: example_from_yaml_def)

section \<open>Precedence between folders\<close>

definition oks :: "('e + 'a) list \<Rightarrow> 'a list" where
  "oks rs = List.map_filter (\<lambda>r. case r of Inr a \<Rightarrow> Some a | Inl _ \<Rightarrow> None) rs"

definition errs :: "('e + 'a) list \<Rightarrow> 'e list" where
  "errs rs = List.map_filter (\<lambda>r. case r of Inl e \<Rightarrow> Some e | Inr _ \<Rightarrow> None) rs"

lemma merge_loaded_foldl:
  "merge_loaded (agents, errors) rs = (foldl add_agent agents (oks rs), errors @ errs rs)"
proof (induction rs arbitrary: agents errors)
  case (Cons r rs)
  then show ?case by (cases r) (simp_all add: oks_def errs_def List.map_filter_def)
qed (simp add: oks_def errs_def List.map_filter_def)

text \<open>\<open>wins a bs\<close>: among the agents \<open>bs\<close> with the command of \<open>a\<close>, \<open>a\<close> is the first of the highest
  precedence.\<close>

definition wins :: "task_agent \<Rightarrow> task_agent list \<Rightarrow> bool" where
  "wins a bs = (\<exists>xs ys. bs = xs @ a # ys
     \<and> (\<forall>b\<in>set xs. ta_command b = ta_command a \<longrightarrow> precedence (ta_source b) < precedence (ta_source a))
     \<and> (\<forall>b\<in>set ys. ta_command b = ta_command a \<longrightarrow> precedence (ta_source b) \<le> precedence (ta_source a)))"

lemma wins_snoc:
  assumes "wins a bs"
    and "ta_command b = ta_command a \<Longrightarrow> precedence (ta_source b) \<le> precedence (ta_source a)"
  shows "wins a (bs @ [b])"
proof -
  from assms(1) obtain xs ys where d: "bs = xs @ a # ys"
    "\<forall>b\<in>set xs. ta_command b = ta_command a \<longrightarrow> precedence (ta_source b) < precedence (ta_source a)"
    "\<forall>b\<in>set ys. ta_command b = ta_command a \<longrightarrow> precedence (ta_source b) \<le> precedence (ta_source a)"
    unfolding wins_def by blast
  with assms(2) show ?thesis
    unfolding wins_def by (intro exI [of _ xs] exI [of _ "ys @ [b]"]) auto
qed

lemma wins_snoc_new:
  assumes "\<forall>b\<in>set bs. ta_command b = ta_command a \<longrightarrow> precedence (ta_source b) < precedence (ta_source a)"
  shows "wins a (bs @ [a])"
  unfolding wins_def using assms by (intro exI [of _ bs] exI [of _ "[]"]) simp

lemma wins_upper:
  "wins a bs \<Longrightarrow> b \<in> set bs \<Longrightarrow> ta_command b = ta_command a \<Longrightarrow>
     precedence (ta_source b) \<le> precedence (ta_source a)"
  by (fastforce simp: wins_def intro: less_imp_le)

definition merged_ok :: "task_agent list \<Rightarrow> task_agent list \<Rightarrow> bool" where
  "merged_ok agents bs = (distinct (map ta_command agents)
     \<and> set (map ta_command agents) = set (map ta_command bs) \<and> (\<forall>a\<in>set agents. wins a bs))"

lemma merged_ok_add:
  assumes "merged_ok agents bs"
  shows "merged_ok (add_agent agents b) (bs @ [b])"
proof (cases "position (\<lambda>e. ta_command e = ta_command b) agents")
  case None
  then have new: "ta_command b \<notin> set (map ta_command agents)"
    by (auto simp: position_None)
  with assms have "wins b (bs @ [b])"
    by (intro wins_snoc_new) (metis image_eqI list.set_map merged_ok_def)
  with assms new None show ?thesis
    by (auto simp: merged_ok_def add_agent_def intro!: wins_snoc)
next
  case (Some i)
  then have i: "i < length agents" "ta_command (agents ! i) = ta_command b"
    by (simp_all add: position_Some)
  have other: "wins a (bs @ [b])" if "a \<in> set agents" "a \<noteq> agents ! i" for a
  proof (rule wins_snoc)
    show "wins a bs" using assms that by (simp add: merged_ok_def)
    have "ta_command b \<noteq> ta_command a"
      using assms that i by (metis distinct_map inj_onD merged_ok_def nth_mem)
    then show "precedence (ta_source b) \<le> precedence (ta_source a)" if "ta_command b = ta_command a"
      using that by simp
  qed
  have old: "wins (agents ! i) bs" using assms i by (simp add: merged_ok_def)
  have cmd: "ta_command b \<in> ta_command ` set bs"
    using assms i by (metis image_eqI list.set_map merged_ok_def nth_mem)
  show ?thesis
  proof (cases "precedence (ta_source b) > precedence (ta_source (agents ! i))")
    case False
    then have "wins (agents ! i) (bs @ [b])" using old by (intro wins_snoc) simp_all
    with False Some assms i other cmd show ?thesis
      by (auto simp: merged_ok_def add_agent_def)
  next
    case True
    have "wins b (bs @ [b])"
      using True i wins_upper [OF old] by (intro wins_snoc_new) (metis le_less_trans)
    moreover have "map ta_command (agents[i := b]) = map ta_command agents"
      using i by (metis list_update_id map_update)
    moreover have "a = b \<or> a \<in> set agents \<and> a \<noteq> agents ! i" if "a \<in> set (agents[i := b])" for a
      using that assms i(1) set_update_distinct [of agents i b]
      by (auto simp: merged_ok_def distinct_map)
    ultimately show ?thesis
      using True Some assms i other cmd by (auto simp: merged_ok_def add_agent_def)
  qed
qed

lemma merged_ok_foldl: "merged_ok (foldl add_agent [] bs) bs"
  by (induction bs rule: rev_induct) (simp_all add: merged_ok_add, simp add: merged_ok_def)

text \<open>C10. Loading agents keeps one agent per command, keeps every command that any folder provides,
  and for each command picks the first of the highest precedence: a project agent over a personal
  one over an imported one. The errors are reported in the order they were met.\<close>

theorem merge_loaded_winners:
  assumes "merge_loaded ([], []) rs = (agents, errors)"
  shows "distinct (map ta_command agents)
    \<and> set (map ta_command agents) = set (map ta_command (oks rs))
    \<and> (\<forall>a\<in>set agents. wins a (oks rs)) \<and> errors = errs rs"
  using assms merged_ok_foldl [of "oks rs"] by (auto simp: merge_loaded_foldl merged_ok_def)

theorem merge_loaded_winners_witness:
  "let personal = example_agent; project = example_agent\<lparr>ta_source := AgentProject ''app''\<rparr> in
   (\<forall>a\<in>set [project]. wins a (oks [Inr personal, Inl \<lparr>le_path = [], le_message = ''x''\<rparr>, Inr project]))"
proof -
  let ?project = "example_agent\<lparr>ta_source := AgentProject ''app''\<rparr>"
  have "merge_loaded ([], []) [Inr example_agent, Inl \<lparr>le_path = [], le_message = ''x''\<rparr>, Inr ?project]
      = ([?project], [\<lparr>le_path = [], le_message = ''x''\<rparr>])"
    by (simp add: add_agent_def example_agent_def precedence_def)
  from merge_loaded_winners [OF this] show ?thesis by (simp add: Let_def)
qed

end
