(* ===== verification/Flows.thy ===== *)
theory Flows
  imports TaskAgents
begin

text \<open>
  Flows (\<open>crates/flows/src/flows.rs\<close>): the steps of a flow, what a step can receive from the steps
  before it, fresh step ids, and the validation shown next to each step.
\<close>

section \<open>Data\<close>

datatype flow_source = FlowProject string | FlowPersonal

datatype github_action =
    StartItem
  | OpenPullRequest bool
  | WaitChecks u32
  | MoveItem string
  | CommentItem string

datatype on_fail = Retry u8 | BackTo string u8 | AskYou | Continue

record github_step =
  gh_action :: github_action
  gh_on_fail :: on_fail

record branch_step =
  br_output :: string
  br_contains :: string
  br_then_to :: "string option"
  br_else_to :: "string option"

record parallel_step =
  pl_agents :: "string list"
  pl_read_only :: bool
  pl_on_fail :: on_fail

datatype design_tool = Pencil | Penpot | Figma | Code

record design_target =
  dt_tool :: design_tool
  dt_file :: "string option"

datatype verifier = You | SelfCheck | VerifyAgent string | VerifyCommand string

record criterion =
  crit_text :: string
  crit_required :: bool
  crit_verify :: verifier

text \<open>An \<open>f64\<close> is its bit pattern; the code only compares it with the default 1.0, which has one
  representation.\<close>

type_synonym f64 = "64 word"

definition usd_default :: f64 where
  "usd_default = 0x3FF0000000000000"

record step_limits =
  lim_turns :: u32
  lim_minutes :: u32
  lim_usd :: f64

definition step_limits_default :: step_limits where
  "step_limits_default = \<lparr>lim_turns = 30, lim_minutes = 20, lim_usd = usd_default\<rparr>"

record agent_step =
  as_agent :: string
  as_model :: "string option"
  as_instructions :: string
  as_where :: "design_target option"
  as_criteria :: "criterion list"
  as_on_fail :: on_fail
  as_limits :: step_limits

record gate_step =
  gate_note :: string
  gate_adjust_to :: "string option"

record run_step =
  rs_command :: string
  rs_on_fail :: on_fail

datatype step_kind =
    StepAgent agent_step
  | StepGate gate_step
  | StepRun run_step
  | StepBranch branch_step
  | StepParallel parallel_step
  | StepGitHub github_step

record flow_step =
  step_id :: string
  step_kind :: step_kind

record flow =
  flow_id :: string
  flow_name :: string
  flow_input :: string
  flow_steps :: "flow_step list"
  flow_notes :: string
  flow_source :: flow_source
  flow_file_path :: path

definition run_input :: string where
  "run_input = ''pedido''"

definition default_max :: u8 where
  "default_max = 2"

definition default_for_agent :: on_fail where
  "default_for_agent = Retry default_max"

definition agent_step_new :: "string \<Rightarrow> agent_step" where
  "agent_step_new agent = \<lparr>as_agent = agent, as_model = None, as_instructions = [], as_where = None,
     as_criteria = [], as_on_fail = default_for_agent, as_limits = step_limits_default\<rparr>"

section \<open>GitHub actions\<close>

definition github_action_all :: "github_action list" where
  "github_action_all = [StartItem, OpenPullRequest True, WaitChecks 30, MoveItem [], CommentItem []]"

definition github_action_key :: "github_action \<Rightarrow> string" where
  "github_action_key a = (case a of
     StartItem \<Rightarrow> ''start_item''
   | OpenPullRequest _ \<Rightarrow> ''open_pr''
   | WaitChecks _ \<Rightarrow> ''wait_checks''
   | MoveItem _ \<Rightarrow> ''move_item''
   | CommentItem _ \<Rightarrow> ''comment_item'')"

definition github_action_label :: "i18n \<Rightarrow> github_action \<Rightarrow> string" where
  "github_action_label L a = translate L (case a of
     StartItem \<Rightarrow> ''flows.github_action.start_item''
   | OpenPullRequest _ \<Rightarrow> ''flows.github_action.open_pull_request''
   | WaitChecks _ \<Rightarrow> ''flows.github_action.wait_checks''
   | MoveItem _ \<Rightarrow> ''flows.github_action.move_item''
   | CommentItem _ \<Rightarrow> ''flows.github_action.comment_item'')"

definition github_action_outputs :: "github_action \<Rightarrow> string list" where
  "github_action_outputs a = (case a of
     StartItem \<Rightarrow> [''branch'']
   | OpenPullRequest _ \<Rightarrow> [''pr'']
   | WaitChecks _ \<Rightarrow> [''checks'', ''log do que falhou'']
   | MoveItem _ \<Rightarrow> []
   | CommentItem _ \<Rightarrow> [])"

definition github_action_writes :: "github_action \<Rightarrow> bool" where
  "github_action_writes a = (case a of WaitChecks _ \<Rightarrow> False | _ \<Rightarrow> True)"

definition github_action_from_key :: "string \<Rightarrow> github_action option" where
  "github_action_from_key key = List.find (\<lambda>a. github_action_key a = trim key) github_action_all"

section \<open>Steps\<close>

definition find_agent :: "task_agent list \<Rightarrow> string \<Rightarrow> task_agent option" where
  "find_agent agents command = List.find (\<lambda>a. ta_command a = command) agents"

definition agent_label :: "task_agent list \<Rightarrow> string \<Rightarrow> string" where
  "agent_label agents command =
     (case find_agent agents command of Some a \<Rightarrow> ta_name a | None \<Rightarrow> ''/'' @ command)"

definition step_label :: "i18n \<Rightarrow> task_agent list \<Rightarrow> flow_step \<Rightarrow> string" where
  "step_label L agents s = (case step_kind s of
     StepAgent a \<Rightarrow> agent_label agents (as_agent a)
   | StepGate _ \<Rightarrow> translate L ''flows.step.gate''
   | StepRun _ \<Rightarrow> translate L ''flows.step.run''
   | StepGitHub g \<Rightarrow> github_action_label L (gh_action g)
   | StepBranch _ \<Rightarrow> translate L ''flows.step.branch''
   | StepParallel p \<Rightarrow>
       (let names = map (agent_label agents) (pl_agents p) in
        if names = [] then translate L ''flows.step.parallel''
        else translate_with L ''flows.step.parallel_with'' [(''agents'', str_join '' + '' names)]))"

definition default_id :: "step_kind \<Rightarrow> string" where
  "default_id k = (case k of
     StepAgent a \<Rightarrow> as_agent a
   | StepGate _ \<Rightarrow> ''aprovacao''
   | StepRun _ \<Rightarrow> ''comando''
   | StepGitHub g \<Rightarrow> (case gh_action g of
         StartItem \<Rightarrow> ''comecar''
       | OpenPullRequest _ \<Rightarrow> ''pr''
       | WaitChecks _ \<Rightarrow> ''checks''
       | MoveItem _ \<Rightarrow> ''mover''
       | CommentItem _ \<Rightarrow> ''comentar'')
   | StepBranch _ \<Rightarrow> ''se''
   | StepParallel _ \<Rightarrow> ''paralelo'')"

definition suffixed_id :: "string \<Rightarrow> nat \<Rightarrow> string" where
  "suffixed_id base n = base @ ''-'' @ nat_to_string n"

lemma suffixed_id_inj: "suffixed_id base m = suffixed_id base n \<longleftrightarrow> m = n"
  by (auto simp: suffixed_id_def dest: nat_to_string_inj)

text \<open>The loop of \<open>unique_step_id\<close>. It ends because only finitely many suffixed ids are taken.\<close>

function free_suffix :: "string list \<Rightarrow> string \<Rightarrow> nat \<Rightarrow> string" where
  "free_suffix ids base n =
     (if suffixed_id base n \<notin> set ids then suffixed_id base n else free_suffix ids base (Suc n))"
  by pat_completeness auto
termination
proof (relation "measure (\<lambda>(ids, base, n). card {m. n \<le> m \<and> suffixed_id base m \<in> set ids})")
  fix ids base and n :: nat
  assume taken: "\<not> suffixed_id base n \<notin> set ids"
  have inj: "inj (suffixed_id base)" by (simp add: inj_def suffixed_id_inj)
  then have "finite (suffixed_id base -` set ids)" by (rule finite_vimageI [OF finite_set])
  then have "finite {m. n \<le> m \<and> suffixed_id base m \<in> set ids}"
    by (rule rev_finite_subset) auto
  moreover have "{m. Suc n \<le> m \<and> suffixed_id base m \<in> set ids}
      \<subset> {m. n \<le> m \<and> suffixed_id base m \<in> set ids}"
    using taken by (auto simp: Suc_le_eq)
  ultimately show "((ids, base, Suc n), ids, base, n)
      \<in> measure (\<lambda>(ids, base, n). card {m. n \<le> m \<and> suffixed_id base m \<in> set ids})"
    by (simp add: psubset_card_mono)
qed simp

declare free_suffix.simps [simp del]

definition unique_step_id :: "flow_step list \<Rightarrow> string \<Rightarrow> string" where
  "unique_step_id steps base =
     (let ids = map step_id steps in
      if base \<notin> set ids then base else free_suffix ids base 2)"

record available_input =
  ai_name :: string
  ai_from_step :: "nat option"

definition step_outputs :: "task_agent list \<Rightarrow> step_kind \<Rightarrow> string list" where
  "step_outputs agents k = (case k of
     StepGitHub g \<Rightarrow> github_action_outputs (gh_action g)
   | StepAgent a \<Rightarrow> (case find_agent agents (as_agent a) of Some t \<Rightarrow> ta_gives t | None \<Rightarrow> [])
   | StepParallel p \<Rightarrow> concat (map (\<lambda>c.
         case find_agent agents c of Some t \<Rightarrow> ta_gives t | None \<Rightarrow> []) (pl_agents p))
   | _ \<Rightarrow> [])"

definition available_inputs :: "flow \<Rightarrow> nat \<Rightarrow> task_agent list \<Rightarrow> available_input list" where
  "available_inputs f index agents =
     \<lparr>ai_name = run_input, ai_from_step = None\<rparr> #
     concat (map (\<lambda>(i, s). map (\<lambda>output. \<lparr>ai_name = output, ai_from_step = Some i\<rparr>)
         (step_outputs agents (step_kind s)))
       (enumerate 0 (take index (flow_steps f))))"

definition step_index :: "flow \<Rightarrow> string \<Rightarrow> nat option" where
  "step_index f sid = position (\<lambda>s. step_id s = sid) (flow_steps f)"

section \<open>Validation\<close>

datatype flow_problem =
    NoSteps
  | DuplicateStepId nat string
  | UnknownAgent nat string
  | MissingInput nat string
  | BackToNotEarlier nat string
  | AdjustToNotEarlier nat string
  | ContinueWithRequiredCriteria nat
  | EmptyCommand nat
  | EmptyCriterion nat nat
  | UnknownVerifierAgent nat string
  | InvalidModel nat string
  | BranchTargetNotLater nat string
  | EmptyParallel nat
  | EmptyStatus nat

definition problem_step :: "flow_problem \<Rightarrow> nat option" where
  "problem_step p = (case p of
     NoSteps \<Rightarrow> None
   | DuplicateStepId s _ \<Rightarrow> Some s | UnknownAgent s _ \<Rightarrow> Some s | MissingInput s _ \<Rightarrow> Some s
   | BackToNotEarlier s _ \<Rightarrow> Some s | AdjustToNotEarlier s _ \<Rightarrow> Some s
   | ContinueWithRequiredCriteria s \<Rightarrow> Some s | EmptyCommand s \<Rightarrow> Some s
   | EmptyCriterion s _ \<Rightarrow> Some s | UnknownVerifierAgent s _ \<Rightarrow> Some s
   | InvalidModel s _ \<Rightarrow> Some s | BranchTargetNotLater s _ \<Rightarrow> Some s
   | EmptyParallel s \<Rightarrow> Some s | EmptyStatus s \<Rightarrow> Some s)"

definition problem_message :: "i18n \<Rightarrow> flow_problem \<Rightarrow> string" where
  "problem_message L p = (case p of
     NoSteps \<Rightarrow> translate L ''flows.problem.no_steps''
   | DuplicateStepId _ i \<Rightarrow> translate_with L ''flows.problem.duplicate_step_id'' [(''id'', i)]
   | UnknownAgent _ a \<Rightarrow> translate_with L ''flows.problem.unknown_agent'' [(''agent'', a)]
   | MissingInput _ i \<Rightarrow> translate_with L ''flows.problem.missing_input'' [(''input'', i)]
   | BackToNotEarlier _ t \<Rightarrow> translate_with L ''flows.problem.back_to_not_earlier'' [(''target'', t)]
   | AdjustToNotEarlier _ t \<Rightarrow> translate_with L ''flows.problem.adjust_to_not_earlier'' [(''target'', t)]
   | ContinueWithRequiredCriteria _ \<Rightarrow> translate L ''flows.problem.continue_with_required_criteria''
   | EmptyCommand _ \<Rightarrow> translate L ''flows.problem.empty_command''
   | EmptyCriterion _ c \<Rightarrow>
       translate_with L ''flows.problem.empty_criterion'' [(''number'', nat_to_string (c + 1))]
   | UnknownVerifierAgent _ a \<Rightarrow>
       translate_with L ''flows.problem.unknown_verifier_agent'' [(''agent'', a)]
   | InvalidModel _ m \<Rightarrow> translate_with L ''flows.problem.invalid_model'' [(''model'', m)]
   | BranchTargetNotLater _ t \<Rightarrow>
       translate_with L ''flows.problem.branch_target_not_later'' [(''target'', t)]
   | EmptyParallel _ \<Rightarrow> translate L ''flows.problem.empty_parallel''
   | EmptyStatus _ \<Rightarrow> translate L ''flows.problem.empty_status'')"

definition is_agent_kind :: "step_kind \<Rightarrow> bool" where
  "is_agent_kind k = (case k of StepAgent _ \<Rightarrow> True | _ \<Rightarrow> False)"

definition check_back_to :: "flow \<Rightarrow> nat \<Rightarrow> on_fail \<Rightarrow> flow_problem list" where
  "check_back_to f index o_f = (case o_f of
     BackTo target _ \<Rightarrow>
       if \<exists>e\<in>set (take index (flow_steps f)). step_id e = target \<and> is_agent_kind (step_kind e)
       then [] else [BackToNotEarlier index target]
   | _ \<Rightarrow> [])"

definition check_takes :: "flow \<Rightarrow> nat \<Rightarrow> task_agent list \<Rightarrow> string \<Rightarrow> flow_problem list" where
  "check_takes f index agents command = (case find_agent agents command of
     None \<Rightarrow> [UnknownAgent index command]
   | Some a \<Rightarrow>
       map (MissingInput index)
         (filter (\<lambda>i. i \<notin> ai_name ` set (available_inputs f index agents)) (ta_takes a)))"

definition check_criterion :: "task_agent list \<Rightarrow> nat \<Rightarrow> nat \<times> criterion \<Rightarrow> flow_problem list" where
  "check_criterion agents index = (\<lambda>(i, c).
     (if crit_text c = [] then [EmptyCriterion index i] else []) @
     (case crit_verify c of
        VerifyAgent v \<Rightarrow> if v \<in> ta_command ` set agents then [] else [UnknownVerifierAgent index v]
      | _ \<Rightarrow> []))"

definition check_agent_step :: "flow \<Rightarrow> task_agent list \<Rightarrow> nat \<Rightarrow> agent_step \<Rightarrow> flow_problem list" where
  "check_agent_step f agents index a =
     check_takes f index agents (as_agent a) @
     (case as_model a of
        Some m \<Rightarrow> if model_reference_parse m = None then [InvalidModel index m] else []
      | None \<Rightarrow> []) @
     concat (map (check_criterion agents index) (enumerate 0 (as_criteria a))) @
     (if as_on_fail a = Continue \<and> (\<exists>c\<in>set (as_criteria a). crit_required c)
      then [ContinueWithRequiredCriteria index] else []) @
     check_back_to f index (as_on_fail a)"

definition check_branch_step :: "i18n \<Rightarrow> flow \<Rightarrow> task_agent list \<Rightarrow> nat \<Rightarrow> branch_step \<Rightarrow> flow_problem list" where
  "check_branch_step L f agents index b =
     (if br_output b \<in> ai_name ` set (available_inputs f index agents) then []
      else [MissingInput index
        (if br_output b = [] then translate L ''flows.problem.branch_output_placeholder'' else br_output b)]) @
     map (BranchTargetNotLater index)
       (filter (\<lambda>t. t \<notin> step_id ` set (drop (index + 1) (flow_steps f)))
         (List.map_filter (\<lambda>t. t) [br_then_to b, br_else_to b]))"

definition step_problems :: "i18n \<Rightarrow> flow \<Rightarrow> task_agent list \<Rightarrow> nat \<Rightarrow> flow_step \<Rightarrow> flow_problem list" where
  "step_problems L f agents index s = (case step_kind s of
     StepAgent a \<Rightarrow> check_agent_step f agents index a
   | StepGate g \<Rightarrow> (case gate_adjust_to g of
         Some t \<Rightarrow> if t \<in> step_id ` set (take index (flow_steps f)) then [] else [AdjustToNotEarlier index t]
       | None \<Rightarrow> [])
   | StepRun r \<Rightarrow>
       (if trim (rs_command r) = [] then [EmptyCommand index] else []) @
       check_back_to f index (rs_on_fail r)
   | StepGitHub g \<Rightarrow>
       (case gh_action g of
          MoveItem status \<Rightarrow> if trim status = [] then [EmptyStatus index] else []
        | _ \<Rightarrow> []) @
       check_back_to f index (gh_on_fail g)
   | StepBranch b \<Rightarrow> check_branch_step L f agents index b
   | StepParallel p \<Rightarrow>
       (if length (pl_agents p) < 2 then [EmptyParallel index] else []) @
       concat (map (check_takes f index agents) (pl_agents p)) @
       check_back_to f index (pl_on_fail p))"

fun validate_steps ::
  "i18n \<Rightarrow> flow \<Rightarrow> task_agent list \<Rightarrow> string list \<Rightarrow> nat \<Rightarrow> flow_step list \<Rightarrow> flow_problem list" where
  "validate_steps L f agents seen index [] = []"
| "validate_steps L f agents seen index (s # ss) =
     (if step_id s \<in> set seen then [DuplicateStepId index (step_id s)] else []) @
     step_problems L f agents index s @
     validate_steps L f agents (step_id s # seen) (index + 1) ss"

definition validate_flow :: "i18n \<Rightarrow> flow \<Rightarrow> task_agent list \<Rightarrow> flow_problem list" where
  "validate_flow L f agents =
     (if flow_steps f = [] then [NoSteps] else []) @ validate_steps L f agents [] 0 (flow_steps f)"

section \<open>Fresh ids\<close>

lemma free_suffix_fresh: "free_suffix ids base n \<notin> set ids"
proof (induction ids base n rule: free_suffix.induct)
  case (1 ids base n)
  then show ?case by (subst free_suffix.simps) simp
qed

lemma free_suffix_least:
  "\<exists>m\<ge>n. free_suffix ids base n = suffixed_id base m \<and> (\<forall>k. n \<le> k \<and> k < m \<longrightarrow> suffixed_id base k \<in> set ids)"
proof (induction ids base n rule: free_suffix.induct)
  case (1 ids base n)
  show ?case
  proof (cases "suffixed_id base n \<in> set ids")
    case False
    then show ?thesis
      by (intro exI [of _ n]) (auto simp: free_suffix.simps [of ids base n])
  next
    case True
    then obtain m where "Suc n \<le> m" "free_suffix ids base (Suc n) = suffixed_id base m"
      "\<forall>k. Suc n \<le> k \<and> k < m \<longrightarrow> suffixed_id base k \<in> set ids"
      using "1.IH" by auto
    moreover from this have "\<forall>k. n \<le> k \<and> k < m \<longrightarrow> suffixed_id base k \<in> set ids"
      using True by (metis Suc_leI le_neq_implies_less)
    ultimately show ?thesis
      using True by (intro exI [of _ m]) (simp add: free_suffix.simps [of ids base n])
  qed
qed

lemma unique_step_id_fresh: "unique_step_id steps base \<notin> step_id ` set steps"
  by (simp add: unique_step_id_def free_suffix_fresh [of "map step_id steps", simplified])

lemma unique_step_id_base: "base \<notin> step_id ` set steps \<Longrightarrow> unique_step_id steps base = base"
  by (simp add: unique_step_id_def)

text \<open>C33. A generated step id never collides with the id of a step that exists, is the plain name
  when that is free, and otherwise carries the least suffix from 2 on that is free.\<close>

theorem unique_step_id_spec:
  "unique_step_id steps base \<notin> step_id ` set steps \<and>
   (unique_step_id steps base =
     (if base \<notin> step_id ` set steps then base
      else suffixed_id base (LEAST n. 2 \<le> n \<and> suffixed_id base n \<notin> step_id ` set steps)))"
proof (cases "base \<in> step_id ` set steps")
  case False
  then show ?thesis by (simp add: unique_step_id_base)
next
  case True
  then have u: "unique_step_id steps base = free_suffix (map step_id steps) base 2"
    by (auto simp: unique_step_id_def)
  obtain m where m: "2 \<le> m" "unique_step_id steps base = suffixed_id base m"
    "\<forall>k. 2 \<le> k \<and> k < m \<longrightarrow> suffixed_id base k \<in> step_id ` set steps"
    using free_suffix_least [of 2 "map step_id steps" base] by (auto simp: u)
  have "(LEAST n. 2 \<le> n \<and> suffixed_id base n \<notin> step_id ` set steps) = m"
  proof (rule Least_equality)
    show "2 \<le> m \<and> suffixed_id base m \<notin> step_id ` set steps"
      using m(1) unique_step_id_fresh [of steps base] by (simp add: m(2))
    show "m \<le> k" if "2 \<le> k \<and> suffixed_id base k \<notin> step_id ` set steps" for k
      using that m(3) by (meson not_le)
  qed
  with True m show ?thesis
    using unique_step_id_fresh [of steps base] by simp
qed

section \<open>What validation guarantees\<close>

lemma validate_steps_Nil_iff:
  "validate_steps L f agents seen index ss = [] \<longleftrightarrow>
     distinct (map step_id ss) \<and> set seen \<inter> step_id ` set ss = {}
     \<and> (\<forall>i<length ss. step_problems L f agents (index + i) (ss ! i) = [])"
proof (induction ss arbitrary: seen index)
  case (Cons s ss)
  have "(\<forall>i<length (s # ss). step_problems L f agents (index + i) ((s # ss) ! i) = []) \<longleftrightarrow>
      step_problems L f agents index s = []
      \<and> (\<forall>i<length ss. step_problems L f agents (index + 1 + i) (ss ! i) = [])"
    by (auto simp: less_Suc_eq_0_disj)
  with Cons show ?case by auto
qed simp

lemma validate_flow_Nil_iff:
  "validate_flow L f agents = [] \<longleftrightarrow>
     flow_steps f \<noteq> [] \<and> distinct (map step_id (flow_steps f))
     \<and> (\<forall>i<length (flow_steps f). step_problems L f agents i (flow_steps f ! i) = [])"
  by (auto simp: validate_flow_def validate_steps_Nil_iff)

lemma validate_steps_indices:
  "p \<in> set (validate_steps L f agents seen index ss) \<Longrightarrow>
     \<exists>i. problem_step p = Some i \<and> index \<le> i \<and> i < index + length ss"
proof (induction ss arbitrary: seen index)
  case (Cons s ss)
  have here: "problem_step p = Some index" if "p \<in> set (step_problems L f agents index s)"
    using that
    by (auto simp: step_problems_def check_agent_step_def check_takes_def check_criterion_def
        check_back_to_def check_branch_step_def problem_step_def
        split: step_kind.splits option.splits on_fail.splits verifier.splits github_action.splits if_splits)
  from Cons.prems consider "p = DuplicateStepId index (step_id s)"
    | "p \<in> set (step_problems L f agents index s)"
    | "p \<in> set (validate_steps L f agents (step_id s # seen) (index + 1) ss)"
    by (auto split: if_splits)
  then show ?case
  proof cases
    case 1
    then show ?thesis by (simp add: problem_step_def)
  next
    case 2
    then show ?thesis using here by simp
  next
    case 3
    from Cons.IH [OF this] show ?thesis by auto
  qed
qed simp

text \<open>The on-fail rule of a step, as \<open>fail_step\<close> reads it; gates and branches ask the user.\<close>

definition on_fail_of :: "step_kind \<Rightarrow> on_fail" where
  "on_fail_of k = (case k of
     StepAgent a \<Rightarrow> as_on_fail a
   | StepRun r \<Rightarrow> rs_on_fail r
   | StepGitHub g \<Rightarrow> gh_on_fail g
   | StepParallel p \<Rightarrow> pl_on_fail p
   | StepGate _ \<Rightarrow> AskYou
   | StepBranch _ \<Rightarrow> AskYou)"

lemma step_problems_back_to:
  assumes "step_problems L f agents i s = []"
  shows "check_back_to f i (on_fail_of (step_kind s)) = []"
  using assms
  by (auto simp: step_problems_def check_agent_step_def on_fail_of_def check_back_to_def [of f i AskYou]
      split: step_kind.splits)

lemma step_index_distinct:
  assumes "distinct (map step_id (flow_steps f))" "j < length (flow_steps f)"
  shows "step_index f (step_id (flow_steps f ! j)) = Some j"
  unfolding step_index_def
  using assms by (intro position_unique) (auto simp: distinct_conv_nth)

lemma step_index_bound: "step_index f sid = Some j \<Longrightarrow> j < length (flow_steps f) \<and> step_id (flow_steps f ! j) = sid"
  by (simp add: step_index_def position_Some)

lemma mem_take_nth: "x \<in> set (take i xs) \<Longrightarrow> \<exists>j. j < i \<and> j < length xs \<and> xs ! j = x"
  by (auto simp: in_set_conv_nth)

lemma mem_drop_nth: "x \<in> set (drop i xs) \<Longrightarrow> \<exists>j. i \<le> j \<and> j < length xs \<and> xs ! j = x"
  by (auto simp: in_set_conv_nth) (metis add.commute le_add1 less_diff_conv)

lemma valid_back_to:
  assumes "validate_flow L f agents = []" "i < length (flow_steps f)"
    and "on_fail_of (step_kind (flow_steps f ! i)) = BackTo target m"
  shows "\<exists>j<i. step_index f target = Some j \<and> is_agent_kind (step_kind (flow_steps f ! j))"
proof -
  from assms(1,2) have d: "distinct (map step_id (flow_steps f))"
    and "step_problems L f agents i (flow_steps f ! i) = []"
    by (simp_all add: validate_flow_Nil_iff)
  from step_problems_back_to [OF this(2)] assms(3)
  obtain e where e: "e \<in> set (take i (flow_steps f))" "step_id e = target" "is_agent_kind (step_kind e)"
    by (auto simp: check_back_to_def split: if_splits)
  from mem_take_nth [OF e(1)] obtain j where j: "j < i" "j < length (flow_steps f)" "flow_steps f ! j = e"
    by blast
  with e d show ?thesis using step_index_distinct [OF d j(2)] by auto
qed

lemma valid_adjust_to:
  assumes "validate_flow L f agents = []" "i < length (flow_steps f)"
    and "step_kind (flow_steps f ! i) = StepGate g" "gate_adjust_to g = Some target"
  shows "\<exists>j<i. step_index f target = Some j"
proof -
  from assms(1,2) have d: "distinct (map step_id (flow_steps f))"
    and "step_problems L f agents i (flow_steps f ! i) = []"
    by (simp_all add: validate_flow_Nil_iff)
  with assms(3,4) obtain e where e: "e \<in> set (take i (flow_steps f))" "step_id e = target"
    by (auto simp: step_problems_def split: if_splits)
  from mem_take_nth [OF e(1)] obtain j where j: "j < i" "j < length (flow_steps f)" "flow_steps f ! j = e"
    by blast
  with e show ?thesis using step_index_distinct [OF d j(2)] by auto
qed

lemma valid_branch_to:
  assumes "validate_flow L f agents = []" "i < length (flow_steps f)"
    and "step_kind (flow_steps f ! i) = StepBranch b" "br_then_to b = Some target \<or> br_else_to b = Some target"
  shows "\<exists>j>i. step_index f target = Some j"
proof -
  from assms(1,2) have d: "distinct (map step_id (flow_steps f))"
    and p: "step_problems L f agents i (flow_steps f ! i) = []"
    by (simp_all add: validate_flow_Nil_iff)
  from p assms(3) have "t \<in> step_id ` set (drop (i + 1) (flow_steps f))"
    if "br_then_to b = Some t \<or> br_else_to b = Some t" for t
    using that by (auto simp: step_problems_def check_branch_step_def List.map_filter_def filter_empty_conv
        split: if_splits)
  with assms(4) obtain e where e: "e \<in> set (drop (i + 1) (flow_steps f))" "step_id e = target"
    by blast
  from mem_drop_nth [OF e(1)] obtain j where j: "i + 1 \<le> j" "j < length (flow_steps f)" "flow_steps f ! j = e"
    by blast
  with e show ?thesis using step_index_distinct [OF d j(2)] by auto
qed

lemma valid_continue:
  assumes "validate_flow L f agents = []" "i < length (flow_steps f)"
    and "step_kind (flow_steps f ! i) = StepAgent a" "as_on_fail a = Continue" "c \<in> set (as_criteria a)"
  shows "\<not> crit_required c"
proof -
  from assms(1,2) have "step_problems L f agents i (flow_steps f ! i) = []"
    by (simp add: validate_flow_Nil_iff)
  with assms(3-) show ?thesis
    by (auto simp: step_problems_def check_agent_step_def split: if_splits)
qed

lemma available_inputs_iff:
  "x \<in> ai_name ` set (available_inputs f i agents) \<longleftrightarrow>
     x = run_input \<or> (\<exists>j<i. j < length (flow_steps f) \<and> x \<in> set (step_outputs agents (step_kind (flow_steps f ! j))))"
  (is "?l \<longleftrightarrow> ?r")
proof -
  have "?l \<longleftrightarrow> x = run_input \<or>
      (\<exists>(j, s)\<in>set (enumerate 0 (take i (flow_steps f))). x \<in> set (step_outputs agents (step_kind s)))"
    by (force simp: available_inputs_def)
  also have "\<dots> \<longleftrightarrow> x = run_input \<or> (\<exists>j<length (take i (flow_steps f)).
      x \<in> set (step_outputs agents (step_kind (take i (flow_steps f) ! j))))"
    by (force simp: enumerate_eq_zip set_zip)
  finally show ?thesis by auto
qed

lemma valid_takes:
  assumes "validate_flow L f agents = []" "i < length (flow_steps f)"
    and "step_kind (flow_steps f ! i) = StepAgent a"
  shows "\<exists>t. find_agent agents (as_agent a) = Some t \<and>
     (\<forall>x\<in>set (ta_takes t). x \<in> ai_name ` set (available_inputs f i agents))"
  using assms
  by (auto simp: validate_flow_Nil_iff step_problems_def check_agent_step_def check_takes_def
      filter_empty_conv split: option.splits)

text \<open>C7. What a flow without problems guarantees to the runner: step ids are unique; a return goes
  strictly back to an agent step, an adjustment strictly back, a branch strictly forward; and every
  input an agent step takes is the run's input or delivered by an earlier step.\<close>

theorem validate_flow_sound:
  assumes "validate_flow L f agents = []"
  shows "flow_steps f \<noteq> [] \<and> distinct (map step_id (flow_steps f)) \<and>
    (\<forall>i<length (flow_steps f). case step_kind (flow_steps f ! i) of
        StepGate g \<Rightarrow> (\<forall>t. gate_adjust_to g = Some t \<longrightarrow> (\<exists>j<i. step_index f t = Some j))
      | StepBranch b \<Rightarrow> (\<forall>t. br_then_to b = Some t \<or> br_else_to b = Some t \<longrightarrow> (\<exists>j>i. step_index f t = Some j))
      | k \<Rightarrow> (\<forall>t m. on_fail_of k = BackTo t m \<longrightarrow>
            (\<exists>j<i. step_index f t = Some j \<and> is_agent_kind (step_kind (flow_steps f ! j))))) \<and>
    (\<forall>i a. i < length (flow_steps f) \<longrightarrow> step_kind (flow_steps f ! i) = StepAgent a \<longrightarrow>
      (\<exists>t. find_agent agents (as_agent a) = Some t \<and>
        (\<forall>x\<in>set (ta_takes t). x = run_input \<or>
          (\<exists>j<i. x \<in> set (step_outputs agents (step_kind (flow_steps f ! j)))))))"
proof (intro conjI allI impI)
  show "flow_steps f \<noteq> []" "distinct (map step_id (flow_steps f))"
    using assms by (simp_all add: validate_flow_Nil_iff)
  show "case step_kind (flow_steps f ! i) of
        StepGate g \<Rightarrow> (\<forall>t. gate_adjust_to g = Some t \<longrightarrow> (\<exists>j<i. step_index f t = Some j))
      | StepBranch b \<Rightarrow> (\<forall>t. br_then_to b = Some t \<or> br_else_to b = Some t \<longrightarrow> (\<exists>j>i. step_index f t = Some j))
      | k \<Rightarrow> (\<forall>t m. on_fail_of k = BackTo t m \<longrightarrow>
            (\<exists>j<i. step_index f t = Some j \<and> is_agent_kind (step_kind (flow_steps f ! j))))"
    if "i < length (flow_steps f)" for i
    using valid_back_to [OF assms that] valid_adjust_to [OF assms that] valid_branch_to [OF assms that]
    by (auto split: step_kind.splits)
  show "\<exists>t. find_agent agents (as_agent a) = Some t \<and>
        (\<forall>x\<in>set (ta_takes t). x = run_input \<or>
          (\<exists>j<i. x \<in> set (step_outputs agents (step_kind (flow_steps f ! j)))))"
    if "i < length (flow_steps f)" "step_kind (flow_steps f ! i) = StepAgent a" for i a
    using valid_takes [OF assms that] unfolding available_inputs_iff by blast
qed

definition example_dev :: flow_step where
  "example_dev = \<lparr>step_id = ''dev'', step_kind = StepAgent (agent_step_new ''dev'')\<rparr>"

definition example_tests :: flow_step where
  "example_tests = \<lparr>step_id = ''comando'',
     step_kind = StepRun \<lparr>rs_command = ''npm test'', rs_on_fail = BackTo ''dev'' 1\<rparr>\<rparr>"

definition example_flow :: flow where
  "example_flow = \<lparr>flow_id = ''f'', flow_name = ''F'', flow_input = [],
     flow_steps = [example_dev, example_tests], flow_notes = [],
     flow_source = FlowPersonal, flow_file_path = [''f.flow.md'']\<rparr>"

lemma example_flow_valid: "validate_flow example_i18n example_flow [example_agent] = []"
  by code_simp

theorem validate_flow_sound_witness:
  "\<exists>j<1. step_index example_flow ''dev'' = Some j \<and> is_agent_kind (step_kind (flow_steps example_flow ! j))"
  using validate_flow_sound [OF example_flow_valid]
  by (auto simp: example_flow_def example_tests_def on_fail_of_def less_Suc_eq_0_disj)

text \<open>Every problem names a step of the flow, except that an empty flow has exactly the one
  problem of having no steps; so each problem can be shown next to the step it belongs to.\<close>

lemma validate_flow_problem_steps:
  "(\<forall>p\<in>set (validate_flow L f agents).
      (p = NoSteps \<and> flow_steps f = []) \<or> (\<exists>i. problem_step p = Some i \<and> i < length (flow_steps f))) \<and>
   (flow_steps f = [] \<longrightarrow> validate_flow L f agents = [NoSteps])"
  using validate_steps_indices [of _ L f agents "[]" 0 "flow_steps f"]
  by (auto simp: validate_flow_def split: if_splits)

lemma validate_flow_problem_steps_witness:
  "validate_flow example_i18n (example_flow\<lparr>flow_steps := []\<rparr>) [] = [NoSteps]"
  using validate_flow_problem_steps [of example_i18n "example_flow\<lparr>flow_steps := []\<rparr>" "[]"] by simp

end
