(* ===== verification/FlowFile.thy ===== *)
theory FlowFile
  imports Flows
begin

text \<open>
  The \<open>.flow.md\<close> file (\<open>crates/flows/src/flows.rs\<close>, \<open>authoring.rs\<close>): the raw steps of the YAML
  frontmatter, their conversion to and from the steps of a flow, reading and writing a whole flow,
  and the review of a suggested flow. The YAML library is a parameter, as for agents.
\<close>

section \<open>Raw data\<close>

record raw_condition =
  rc_output :: string
  rc_contains :: string

record raw_where =
  rw_tool :: design_tool
  rw_file :: "string option"

datatype raw_verify = RawVerifyWord string | RawVerifyAgent string | RawVerifyCommand string

record raw_criterion =
  rcr_text :: string
  rcr_required :: bool
  rcr_verify :: raw_verify

datatype raw_on_fail =
    RawFailWord string
  | RawRetry u8 "string option"
  | RawBackTo string u8 "string option"

record raw_limits =
  rl_turns :: "u32 option"
  rl_minutes :: "u32 option"
  rl_usd :: "f64 option"

record raw_step =
  raw_id :: "string option"
  raw_agent :: "string option"
  raw_gate :: "string option"
  raw_run :: "string option"
  raw_github :: "string option"
  raw_draft :: "bool option"
  raw_timeout :: "string option"
  raw_status :: "string option"
  raw_comment :: "string option"
  raw_if :: "raw_condition option"
  raw_then :: "string option"
  raw_else :: "string option"
  raw_parallel :: "string list option"
  raw_read_only :: "bool option"
  raw_note :: "string option"
  raw_adjust_to :: "string option"
  raw_model :: "string option"
  raw_instructions :: "string option"
  raw_where :: "raw_where option"
  raw_criteria :: "raw_criterion list"
  raw_on_fail :: "raw_on_fail option"
  raw_limits :: "raw_limits option"

record raw_flow =
  rf_name :: string
  rf_input :: string
  rf_steps :: "raw_step list"

definition raw_step_default :: raw_step where
  "raw_step_default = \<lparr>raw_id = None, raw_agent = None, raw_gate = None, raw_run = None,
     raw_github = None, raw_draft = None, raw_timeout = None, raw_status = None, raw_comment = None,
     raw_if = None, raw_then = None, raw_else = None, raw_parallel = None, raw_read_only = None,
     raw_note = None, raw_adjust_to = None, raw_model = None, raw_instructions = None,
     raw_where = None, raw_criteria = [], raw_on_fail = None, raw_limits = None\<rparr>"

section \<open>Conversions\<close>

definition check_then :: "i18n \<Rightarrow> string option \<Rightarrow> unit result" where
  "check_then L t = (case t of
     None \<Rightarrow> Inr ()
   | Some w \<Rightarrow> if w = ''ask_you'' then Inr ()
             else Inl [translate_with L ''flows.parse.unknown_then'' [(''value'', w)]])"

definition into_on_fail :: "i18n \<Rightarrow> raw_on_fail \<Rightarrow> on_fail result" where
  "into_on_fail L r = (case r of
     RawFailWord w \<Rightarrow>
       if w = ''ask_you'' then Inr AskYou
       else if w = ''continue'' then Inr Continue
       else Inl [translate_with L ''flows.parse.unknown_on_fail'' [(''value'', w)]]
   | RawRetry n t \<Rightarrow> result_bind (check_then L t) (\<lambda>_. Inr (Retry (max n 1)))
   | RawBackTo s m t \<Rightarrow> result_bind (check_then L t) (\<lambda>_. Inr (BackTo s (max m 1))))"

definition from_on_fail :: "on_fail \<Rightarrow> raw_on_fail" where
  "from_on_fail f = (case f of
     Retry m \<Rightarrow> RawRetry m (Some ''ask_you'')
   | BackTo s m \<Rightarrow> RawBackTo s m (Some ''ask_you'')
   | AskYou \<Rightarrow> RawFailWord ''ask_you''
   | Continue \<Rightarrow> RawFailWord ''continue'')"

definition into_verifier :: "i18n \<Rightarrow> raw_verify \<Rightarrow> verifier result" where
  "into_verifier L r = (case r of
     RawVerifyWord w \<Rightarrow>
       if w = ''you'' \<or> w = ''voce'' \<or> w = ''voc'' @ [CHR 0xEA] then Inr You
       else if w = ''self'' then Inr SelfCheck
       else Inl [translate_with L ''flows.parse.unknown_verify'' [(''value'', w)]]
   | RawVerifyAgent a \<Rightarrow> Inr (VerifyAgent (command_slug a))
   | RawVerifyCommand c \<Rightarrow> Inr (VerifyCommand c))"

definition from_verifier :: "verifier \<Rightarrow> raw_verify" where
  "from_verifier v = (case v of
     You \<Rightarrow> RawVerifyWord ''you''
   | SelfCheck \<Rightarrow> RawVerifyWord ''self''
   | VerifyAgent a \<Rightarrow> RawVerifyAgent a
   | VerifyCommand c \<Rightarrow> RawVerifyCommand c)"

text \<open>The messages of \<open>ParseIntError\<close>.\<close>

fun digits_error :: "nat \<Rightarrow> nat \<Rightarrow> string \<Rightarrow> string" where
  "digits_error largest acc [] = []"
| "digits_error largest acc (c # s) = (case digit_val c of
     None \<Rightarrow> ''invalid digit found in string''
   | Some d \<Rightarrow> if 10 * acc + d > largest then ''number too large to fit in target type''
              else digits_error largest (10 * acc + d) s)"

definition parse_int_error :: "nat \<Rightarrow> string \<Rightarrow> string" where
  "parse_int_error largest s =
     (if s = [] then ''cannot parse integer from empty string''
      else if s = ''+'' then ''invalid digit found in string''
      else digits_error largest 0 (unwrap_or s (strip_prefix ''+'' s)))"

text \<open>\<open>number * factor\<close> is a \<open>u32\<close> product; in a release build it wraps.\<close>

definition parse_minutes :: "i18n \<Rightarrow> string \<Rightarrow> u32 result" where
  "parse_minutes L input =
     (let text = trim input;
          (number, factor) = (case strip_suffix ''h'' text of
              Some hours \<Rightarrow> (hours, 60)
            | None \<Rightarrow> (unwrap_or text (strip_suffix ''m'' text), 1)) in
      case parse_unsigned (2 ^ 32 - 1) (trim number) of
        Some n \<Rightarrow> Inr (of_nat n * factor)
      | None \<Rightarrow> Inl [translate_with L ''flows.parse.invalid_timeout'' [(''value'', text)],
                    parse_int_error (2 ^ 32 - 1) (trim number)])"

definition on_fail_or :: "i18n \<Rightarrow> on_fail \<Rightarrow> raw_on_fail option \<Rightarrow> on_fail result" where
  "on_fail_or L d r = (case r of Some x \<Rightarrow> into_on_fail L x | None \<Rightarrow> Inr d)"

definition into_github_action :: "i18n \<Rightarrow> raw_step \<Rightarrow> string \<Rightarrow> github_action result" where
  "into_github_action L r key = (case github_action_from_key key of
     Some (OpenPullRequest _) \<Rightarrow> Inr (OpenPullRequest (unwrap_or True (raw_draft r)))
   | Some (WaitChecks t) \<Rightarrow> (case raw_timeout r of
         Some timeout \<Rightarrow> result_bind (parse_minutes L timeout) (\<lambda>n. Inr (WaitChecks n))
       | None \<Rightarrow> Inr (WaitChecks t))
   | Some (MoveItem _) \<Rightarrow> Inr (MoveItem (trim (unwrap_or [] (raw_status r))))
   | Some (CommentItem _) \<Rightarrow> Inr (CommentItem (trim (unwrap_or [] (raw_comment r))))
   | Some StartItem \<Rightarrow> Inr StartItem
   | None \<Rightarrow> Inl [translate_with L ''flows.parse.unknown_github'' [(''value'', key)]])"

definition into_criterion :: "i18n \<Rightarrow> raw_criterion \<Rightarrow> criterion result" where
  "into_criterion L c = result_bind (into_verifier L (rcr_verify c)) (\<lambda>v.
     Inr \<lparr>crit_text = trim (rcr_text c), crit_required = rcr_required c, crit_verify = v\<rparr>)"

text \<open>\<open>collect::<Result<Vec<_>>>\<close>: the first error, or all the values.\<close>

fun collect_results :: "('e + 'a) list \<Rightarrow> 'e + 'a list" where
  "collect_results [] = Inr []"
| "collect_results (r # rs) = result_bind r (\<lambda>x. result_bind (collect_results rs) (\<lambda>xs. Inr (x # xs)))"

definition into_limits :: "raw_limits option \<Rightarrow> step_limits" where
  "into_limits m = (case m of
     Some l \<Rightarrow> \<lparr>lim_turns = unwrap_or (lim_turns step_limits_default) (rl_turns l),
               lim_minutes = unwrap_or (lim_minutes step_limits_default) (rl_minutes l),
               lim_usd = unwrap_or (lim_usd step_limits_default) (rl_usd l)\<rparr>
   | None \<Rightarrow> step_limits_default)"

definition into_agent_step :: "i18n \<Rightarrow> raw_step \<Rightarrow> step_kind result" where
  "into_agent_step L r =
     (let agent = command_slug (unwrap_or [] (raw_agent r)) in
      if agent = [] then Inl [translate L ''flows.parse.empty_agent'']
      else
        result_bind (collect_results (map (into_criterion L) (raw_criteria r))) (\<lambda>criteria.
        result_bind (on_fail_or L default_for_agent (raw_on_fail r)) (\<lambda>o_f.
        Inr (StepAgent
          \<lparr>as_agent = agent,
           as_model = option_filter (\<lambda>m. trim m \<noteq> []) (raw_model r),
           as_instructions = trim (unwrap_or [] (raw_instructions r)),
           as_where = map_option (\<lambda>t. \<lparr>dt_tool = rw_tool t,
             dt_file = option_filter (\<lambda>f. trim f \<noteq> []) (rw_file t)\<rparr>) (raw_where r),
           as_criteria = criteria,
           as_on_fail = o_f,
           as_limits = into_limits (raw_limits r)\<rparr>))))"

definition kinds_set :: "raw_step \<Rightarrow> nat" where
  "kinds_set r = length (filter (\<lambda>b. b)
     [raw_agent r \<noteq> None, raw_gate r \<noteq> None, raw_run r \<noteq> None, raw_if r \<noteq> None,
      raw_parallel r \<noteq> None, raw_github r \<noteq> None])"

definition into_kind :: "i18n \<Rightarrow> raw_step \<Rightarrow> step_kind result" where
  "into_kind L r =
     (if kinds_set r \<noteq> 1 then Inl [translate L ''flows.parse.one_kind_per_step'']
      else case raw_github r of
        Some key \<Rightarrow>
          result_bind (into_github_action L r key) (\<lambda>action.
          result_bind (on_fail_or L AskYou (raw_on_fail r)) (\<lambda>o_f.
          Inr (StepGitHub \<lparr>gh_action = action, gh_on_fail = o_f\<rparr>)))
      | None \<Rightarrow> (case raw_if r of
        Some c \<Rightarrow> Inr (StepBranch
          \<lparr>br_output = trim (rc_output c), br_contains = rc_contains c,
           br_then_to = option_filter (\<lambda>t. trim t \<noteq> []) (raw_then r),
           br_else_to = option_filter (\<lambda>t. trim t \<noteq> []) (raw_else r)\<rparr>)
      | None \<Rightarrow> (case raw_parallel r of
        Some p \<Rightarrow>
          result_bind (on_fail_or L AskYou (raw_on_fail r)) (\<lambda>o_f.
          Inr (StepParallel
            \<lparr>pl_agents = filter (\<lambda>c. c \<noteq> []) (map command_slug p),
             pl_read_only = unwrap_or True (raw_read_only r), pl_on_fail = o_f\<rparr>))
      | None \<Rightarrow> (case raw_gate r of
        Some gate \<Rightarrow>
          if gate \<noteq> ''you'' then Inl [translate_with L ''flows.parse.unknown_gate'' [(''value'', gate)]]
          else Inr (StepGate \<lparr>gate_note = unwrap_or [] (raw_note r), gate_adjust_to = raw_adjust_to r\<rparr>)
      | None \<Rightarrow> (case raw_run r of
        Some command \<Rightarrow>
          result_bind (on_fail_or L AskYou (raw_on_fail r)) (\<lambda>o_f.
          Inr (StepRun \<lparr>rs_command = command, rs_on_fail = o_f\<rparr>))
      | None \<Rightarrow> into_agent_step L r)))))"

definition then_some :: "bool \<Rightarrow> 'a \<Rightarrow> 'a option" where
  "then_some b x = (if b then Some x else None)"

definition from_limits :: "step_limits \<Rightarrow> raw_limits option" where
  "from_limits l = then_some (l \<noteq> step_limits_default)
     \<lparr>rl_turns = then_some (lim_turns l \<noteq> lim_turns step_limits_default) (lim_turns l),
      rl_minutes = then_some (lim_minutes l \<noteq> lim_minutes step_limits_default) (lim_minutes l),
      rl_usd = then_some (lim_usd l \<noteq> lim_usd step_limits_default) (lim_usd l)\<rparr>"

definition from_criterion :: "criterion \<Rightarrow> raw_criterion" where
  "from_criterion c = \<lparr>rcr_text = crit_text c, rcr_required = crit_required c,
     rcr_verify = from_verifier (crit_verify c)\<rparr>"

definition from_github :: "github_step \<Rightarrow> raw_step" where
  "from_github g =
     (let raw = raw_step_default
        \<lparr>raw_github := Some (github_action_key (gh_action g)),
         raw_on_fail := then_some (gh_on_fail g \<noteq> AskYou) (from_on_fail (gh_on_fail g))\<rparr> in
      case gh_action g of
        OpenPullRequest draft \<Rightarrow> raw\<lparr>raw_draft := Some draft\<rparr>
      | WaitChecks t \<Rightarrow> raw\<lparr>raw_timeout := Some (nat_to_string (unat t) @ ''m'')\<rparr>
      | MoveItem status \<Rightarrow> raw\<lparr>raw_status := Some status\<rparr>
      | CommentItem text \<Rightarrow> raw\<lparr>raw_comment := then_some (text \<noteq> []) text\<rparr>
      | StartItem \<Rightarrow> raw)"

definition from_step :: "step_kind \<Rightarrow> raw_step" where
  "from_step k = (case k of
     StepAgent a \<Rightarrow> raw_step_default
       \<lparr>raw_agent := Some (as_agent a),
        raw_model := as_model a,
        raw_instructions := then_some (as_instructions a \<noteq> []) (as_instructions a),
        raw_where := map_option (\<lambda>t. \<lparr>rw_tool = dt_tool t, rw_file = dt_file t\<rparr>) (as_where a),
        raw_criteria := map from_criterion (as_criteria a),
        raw_on_fail := Some (from_on_fail (as_on_fail a)),
        raw_limits := from_limits (as_limits a)\<rparr>
   | StepGate g \<Rightarrow> raw_step_default
       \<lparr>raw_gate := Some ''you'',
        raw_note := then_some (gate_note g \<noteq> []) (gate_note g),
        raw_adjust_to := gate_adjust_to g\<rparr>
   | StepRun r \<Rightarrow> raw_step_default
       \<lparr>raw_run := Some (rs_command r),
        raw_on_fail := then_some (rs_on_fail r \<noteq> AskYou) (from_on_fail (rs_on_fail r))\<rparr>
   | StepGitHub g \<Rightarrow> from_github g
   | StepBranch b \<Rightarrow> raw_step_default
       \<lparr>raw_if := Some \<lparr>rc_output = br_output b, rc_contains = br_contains b\<rparr>,
        raw_then := br_then_to b, raw_else := br_else_to b\<rparr>
   | StepParallel p \<Rightarrow> raw_step_default
       \<lparr>raw_parallel := Some (pl_agents p),
        raw_read_only := then_some (\<not> pl_read_only p) False,
        raw_on_fail := then_some (pl_on_fail p \<noteq> AskYou) (from_on_fail (pl_on_fail p))\<rparr>)"

section \<open>Files\<close>

definition flow_file_suffix :: string where
  "flow_file_suffix = ''.flow.md''"

definition flow_id_from_path :: "path \<Rightarrow> string option" where
  "flow_id_from_path p = Option.bind (file_name p) (\<lambda>n.
     Option.bind (strip_suffix flow_file_suffix n) (\<lambda>i. then_some (i \<noteq> []) i))"

text \<open>One turn of the loop over the raw steps: the explicit id as a slug, or a fresh one.\<close>

definition read_step :: "i18n \<Rightarrow> flow_step list \<Rightarrow> nat \<Rightarrow> raw_step \<Rightarrow> flow_step result" where
  "read_step L steps index r =
     result_bind
       (with_context (translate_with L ''flows.parse.step'' [(''number'', nat_to_string (index + 1))])
         (into_kind L r)) (\<lambda>kind.
     Inr \<lparr>step_id = (case option_filter (\<lambda>i. i \<noteq> []) (map_option command_slug (raw_id r)) of
            Some i \<Rightarrow> i
          | None \<Rightarrow> unique_step_id steps (default_id kind)),
          step_kind = kind\<rparr>)"

fun read_steps :: "i18n \<Rightarrow> flow_step list \<Rightarrow> raw_step list \<Rightarrow> flow_step list result" where
  "read_steps L steps [] = Inr steps"
| "read_steps L steps (r # rs) =
     result_bind (read_step L steps (length steps) r) (\<lambda>s. read_steps L (steps @ [s]) rs)"

definition parse_flow ::
  "i18n \<Rightarrow> (string \<Rightarrow> string + raw_flow) \<Rightarrow> path \<Rightarrow> string \<Rightarrow> flow_source \<Rightarrow> flow result" where
  "parse_flow L from_yaml path content source =
     result_bind (ok_or [translate L ''flows.parse.wrong_extension''] (flow_id_from_path path)) (\<lambda>fid.
     result_bind (split_frontmatter L content) (\<lambda>(fm, body).
     result_bind
       (case fm of
          Some yaml \<Rightarrow>
            if trim yaml \<noteq> [] then
              (case from_yaml yaml of
                 Inl e \<Rightarrow> Inl [translate L ''flows.parse.invalid_yaml'', e]
               | Inr raw \<Rightarrow> Inr raw)
            else Inl [translate L ''flows.parse.missing_frontmatter'']
        | None \<Rightarrow> Inl [translate L ''flows.parse.missing_frontmatter'']) (\<lambda>raw.
     result_bind (read_steps L [] (rf_steps raw)) (\<lambda>steps.
     Inr \<lparr>flow_id = fid,
          flow_name = (if trim (rf_name raw) = [] then fid else trim (rf_name raw)),
          flow_input = trim (rf_input raw),
          flow_steps = steps,
          flow_notes = trim body,
          flow_source = source,
          flow_file_path = path\<rparr>))))"

text \<open>The loop of \<open>to_markdown\<close>: an id is written only when it differs from the one that would be
  generated; the generated ids are kept beside the steps.\<close>

fun write_steps :: "flow_step list \<Rightarrow> flow_step list \<Rightarrow> raw_step list" where
  "write_steps auto_ids [] = []"
| "write_steps auto_ids (s # ss) =
     (let auto_id = unique_step_id auto_ids (default_id (step_kind s));
          raw = from_step (step_kind s) in
      (if step_id s \<noteq> auto_id then raw\<lparr>raw_id := Some (step_id s)\<rparr> else raw)
      # write_steps (auto_ids @ [\<lparr>step_id = auto_id, step_kind = step_kind s\<rparr>]) ss)"

definition frontmatter_of_flow :: "flow \<Rightarrow> raw_flow" where
  "frontmatter_of_flow f = \<lparr>rf_name = flow_name f, rf_input = flow_input f,
     rf_steps = write_steps [] (flow_steps f)\<rparr>"

definition flow_to_markdown :: "(raw_flow \<Rightarrow> string + string) \<Rightarrow> flow \<Rightarrow> string result" where
  "flow_to_markdown to_yaml f =
     (case to_yaml (frontmatter_of_flow f) of
        Inl e \<Rightarrow> Inl [e]
      | Inr yaml \<Rightarrow>
          (let notes = trim (flow_notes f) in
           Inr (if notes = [] then ''---'' @ [newline] @ yaml @ ''---'' @ [newline]
                else ''---'' @ [newline] @ yaml @ ''---'' @ [newline, newline] @ notes @ [newline])))"

definition max_flow_file_size :: nat where
  "max_flow_file_size = 100 * 1024"

definition load_flows_from_directory ::
  "i18n \<Rightarrow> (string \<Rightarrow> string + raw_flow) \<Rightarrow> fs_view \<Rightarrow> path \<Rightarrow> flow_source \<Rightarrow> (load_error + flow) list" where
  "load_flows_from_directory L from_yaml fs directory source =
     load_directory fs max_flow_file_size
       (translate_with L ''flows.load.too_large'' [(''size'', nat_to_string (max_flow_file_size div 1024))])
       (\<lambda>p. flow_id_from_path p \<noteq> None)
       (\<lambda>p content. parse_flow L from_yaml p content source) directory"

definition load_flows ::
  "i18n \<Rightarrow> (string \<Rightarrow> string + raw_flow) \<Rightarrow> fs_view \<Rightarrow> path \<Rightarrow> (string \<times> path) list \<Rightarrow>
     flow list \<times> load_error list" where
  "load_flows L from_yaml fs personal_dir roots =
     (let results = concat (map (\<lambda>(name, root).
            load_flows_from_directory L from_yaml fs (root @ [''.asylum'', ''flows'']) (FlowProject name)) roots)
          @ load_flows_from_directory L from_yaml fs personal_dir FlowPersonal in
      (oks results, errs results))"

section \<open>Suggestions\<close>

definition strip_fence :: "string \<Rightarrow> string" where
  "strip_fence body = (case str_find (rev ''```'') (rev body) of
     Some i \<Rightarrow> take (length body - i - 3) body
   | None \<Rightarrow> body)"

definition extract_agent_markdown :: "string \<Rightarrow> string" where
  "extract_agent_markdown response =
     (let text = trim response;
          text = (case str_find ''```'' text of
              Some start \<Rightarrow>
                (let after_fence = drop (start + 3) text;
                     body_start = (case position (\<lambda>c. c = newline) after_fence of
                         Some i \<Rightarrow> i + 1 | None \<Rightarrow> length after_fence);
                     fenced = strip_fence (drop body_start after_fence) in
                 if prefix ''---'' (trim_start fenced) then trim fenced else text)
            | None \<Rightarrow> text);
          text = (if \<not> prefix ''---'' text then
                    (case str_find ([newline] @ ''---'' @ [newline]) text of
                       Some start \<Rightarrow> drop (start + 1) text | None \<Rightarrow> text)
                  else text) in
      trim text @ [newline])"

text \<open>\<open>Path::new\<close>: the components of a path text.\<close>

definition path_new :: "string \<Rightarrow> path" where
  "path_new s = (if prefix ''/'' s then [''/''] else []) @
     filter (\<lambda>c. c \<noteq> [] \<and> c \<noteq> ''.'') (split_chars (\<lambda>c. c = CHR ''/'') s)"

definition review_suggestion ::
  "i18n \<Rightarrow> (string \<Rightarrow> string + raw_flow) \<Rightarrow> string \<Rightarrow> string \<Rightarrow> flow_source \<Rightarrow> task_agent list \<Rightarrow>
     string list + flow" where
  "review_suggestion L from_yaml response fid source agents =
     (case parse_flow L from_yaml (path_new (fid @ flow_file_suffix)) (extract_agent_markdown response) source of
        Inl e \<Rightarrow> Inl [''o arquivo n'' @ [CHR 0xE3] @ ''o abre: '' @ render_error e]
      | Inr f \<Rightarrow>
          (let problems = map (\<lambda>p. case problem_step p of
                 Some s \<Rightarrow> ''passo '' @ nat_to_string (s + 1) @ '': '' @ problem_message L p
               | None \<Rightarrow> problem_message L p) (validate_flow L f agents) in
           if problems = [] then Inr f else Inl problems))"

section \<open>Round trips of the parts\<close>

lemma result_bind_Inr [simp]: "result_bind (Inr x) f = f x"
  by (simp add: result_bind_def)

lemma result_bind_Inl [simp]: "result_bind (Inl e) f = Inl e"
  by (simp add: result_bind_def)

lemma result_bind_Inr_iff: "result_bind m f = Inr y \<longleftrightarrow> (\<exists>x. m = Inr x \<and> f x = Inr y)"
  by (cases m) simp_all

definition on_fail_canonical :: "on_fail \<Rightarrow> bool" where
  "on_fail_canonical f = (case f of Retry m \<Rightarrow> 1 \<le> m | BackTo _ m \<Rightarrow> 1 \<le> m | _ \<Rightarrow> True)"

lemma into_on_fail_canonical: "into_on_fail L r = Inr f \<Longrightarrow> on_fail_canonical f"
  by (auto simp: into_on_fail_def on_fail_canonical_def result_bind_Inr_iff
      split: raw_on_fail.splits if_splits)

lemma on_fail_roundtrip: "on_fail_canonical f \<Longrightarrow> into_on_fail L (from_on_fail f) = Inr f"
  by (cases f) (simp_all add: into_on_fail_def from_on_fail_def on_fail_canonical_def check_then_def max_absorb1)

lemma on_fail_or_roundtrip:
  "on_fail_canonical f \<Longrightarrow> on_fail_or L AskYou (then_some (f \<noteq> AskYou) (from_on_fail f)) = Inr f"
  by (simp add: on_fail_or_def then_some_def on_fail_roundtrip)

lemma on_fail_or_canonical: "on_fail_or L d r = Inr f \<Longrightarrow> on_fail_canonical d \<Longrightarrow> on_fail_canonical f"
  by (auto simp: on_fail_or_def intro: into_on_fail_canonical split: option.splits)

lemma on_fail_defaults_canonical [simp]: "on_fail_canonical AskYou" "on_fail_canonical default_for_agent"
  by (simp_all add: on_fail_canonical_def default_for_agent_def default_max_def)

lemmas on_fail_or_defaults =
  on_fail_or_canonical [OF _ on_fail_defaults_canonical(1)]
  on_fail_or_canonical [OF _ on_fail_defaults_canonical(2)]

lemma verifier_again: "into_verifier L r = Inr v \<Longrightarrow> into_verifier L (from_verifier v) = Inr v"
  by (cases r)
    (auto simp: into_verifier_def from_verifier_def command_slug_fixed slug_ok_command_slug split: if_splits)

lemma criterion_again: "into_criterion L r = Inr c \<Longrightarrow> into_criterion L (from_criterion c) = Inr c"
  by (auto simp: into_criterion_def from_criterion_def result_bind_Inr_iff dest: verifier_again)

lemma collect_results_Inr:
  "collect_results rs = Inr xs \<longleftrightarrow> rs = map Inr xs"
proof (induction rs arbitrary: xs)
  case (Cons r rs)
  then show ?case by (cases r; cases xs) (auto simp: result_bind_Inr_iff)
qed auto

lemma criteria_again:
  assumes "collect_results (map (into_criterion L) rs) = Inr cs"
  shows "collect_results (map (into_criterion L) (map from_criterion cs)) = Inr cs"
proof -
  from assms have "map (into_criterion L) rs = map Inr cs" by (simp add: collect_results_Inr)
  then have "\<forall>c\<in>set cs. \<exists>r. into_criterion L r = Inr c"
    by (metis (no_types, lifting) image_iff list.set_map)
  then show ?thesis by (auto simp: collect_results_Inr dest: criterion_again)
qed

lemma limits_roundtrip: "into_limits (from_limits l) = l"
  by (auto simp: into_limits_def from_limits_def then_some_def unwrap_or_def)

lemma minutes_roundtrip: "parse_minutes L (nat_to_string (unat n) @ ''m'') = Inr n"
proof -
  let ?s = "nat_to_string (unat n)"
  have h: "\<not> is_ws (hd ?s)"
    by (rule alphanumeric_not_ws, rule nat_to_string_alphanumeric [of _ "unat n"]) simp
  have "\<not> is_ws CHR ''m''" by (simp add: is_ws_def)
  note h = h this
  have t: "trim (?s @ ''m'') = ?s @ ''m''"
    by (rule trim_id) (use h in \<open>simp add: hd_append\<close>)
  have "strip_suffix ''h'' (?s @ ''m'') = None"
    by (simp add: strip_suffix_def suffix_def)
  moreover have "unat n \<le> 2 ^ 32 - 1"
    using unsigned_less [of n, where ?'a = nat] by simp
  ultimately show ?thesis
    using parse_unsigned_nat_to_string [of "unat n" "2 ^ 32 - 1"]
    by (simp add: parse_minutes_def Let_def t unwrap_or_def)
qed

lemma github_key_roundtrip:
  "github_action_from_key (github_action_key a) =
     Some (case a of StartItem \<Rightarrow> StartItem | OpenPullRequest _ \<Rightarrow> OpenPullRequest True
       | WaitChecks _ \<Rightarrow> WaitChecks 30 | MoveItem _ \<Rightarrow> MoveItem [] | CommentItem _ \<Rightarrow> CommentItem [])"
proof -
  have "trim (github_action_key a) = github_action_key a"
    by (rule trim_id) (cases a; simp add: github_action_key_def is_ws_def)
  then show ?thesis
    by (cases a) (simp_all add: github_action_from_key_def github_action_key_def github_action_all_def)
qed

section \<open>A step read from a file is in canonical form\<close>

definition verifier_canonical :: "verifier \<Rightarrow> bool" where
  "verifier_canonical v = (case v of VerifyAgent a \<Rightarrow> slug_ok a | _ \<Rightarrow> True)"

definition criterion_canonical :: "criterion \<Rightarrow> bool" where
  "criterion_canonical c = (trim (crit_text c) = crit_text c \<and> verifier_canonical (crit_verify c))"

definition not_blank :: "string option \<Rightarrow> bool" where
  "not_blank m = (case m of Some t \<Rightarrow> trim t \<noteq> [] | None \<Rightarrow> True)"

definition agent_step_canonical :: "agent_step \<Rightarrow> bool" where
  "agent_step_canonical a = (slug_ok (as_agent a) \<and> as_agent a \<noteq> [] \<and> not_blank (as_model a)
     \<and> trim (as_instructions a) = as_instructions a
     \<and> (case as_where a of Some t \<Rightarrow> not_blank (dt_file t) | None \<Rightarrow> True)
     \<and> (\<forall>c\<in>set (as_criteria a). criterion_canonical c) \<and> on_fail_canonical (as_on_fail a))"

definition github_action_canonical :: "github_action \<Rightarrow> bool" where
  "github_action_canonical a = (case a of
     MoveItem s \<Rightarrow> trim s = s | CommentItem t \<Rightarrow> trim t = t | _ \<Rightarrow> True)"

definition kind_canonical :: "step_kind \<Rightarrow> bool" where
  "kind_canonical k = (case k of
     StepAgent a \<Rightarrow> agent_step_canonical a
   | StepGate g \<Rightarrow> True
   | StepRun r \<Rightarrow> on_fail_canonical (rs_on_fail r)
   | StepGitHub g \<Rightarrow> github_action_canonical (gh_action g) \<and> on_fail_canonical (gh_on_fail g)
   | StepBranch b \<Rightarrow> trim (br_output b) = br_output b \<and> not_blank (br_then_to b) \<and> not_blank (br_else_to b)
   | StepParallel p \<Rightarrow> (\<forall>c\<in>set (pl_agents p). slug_ok c \<and> c \<noteq> []) \<and> on_fail_canonical (pl_on_fail p))"

lemma not_blank_filter [simp]: "not_blank (option_filter (\<lambda>t. trim t \<noteq> []) m)"
  by (auto simp: not_blank_def option_filter_def split: option.splits)

lemma not_blank_filter_id: "not_blank m \<Longrightarrow> option_filter (\<lambda>t. trim t \<noteq> []) m = m"
  by (auto simp: not_blank_def option_filter_def split: option.splits)

lemma into_criterion_canonical: "into_criterion L r = Inr c \<Longrightarrow> criterion_canonical c"
  by (auto simp: into_criterion_def criterion_canonical_def result_bind_Inr_iff verifier_canonical_def
      into_verifier_def slug_ok_command_slug split: raw_verify.splits if_splits)

lemma into_agent_step_canonical: "into_agent_step L r = Inr k \<Longrightarrow> kind_canonical k"
proof -
  assume k: "into_agent_step L r = Inr k"
  then obtain cs o_f where ok: "command_slug (unwrap_or [] (raw_agent r)) \<noteq> []"
    "collect_results (map (into_criterion L) (raw_criteria r)) = Inr cs"
    "on_fail_or L default_for_agent (raw_on_fail r) = Inr o_f"
    and a: "k = StepAgent
          \<lparr>as_agent = command_slug (unwrap_or [] (raw_agent r)),
           as_model = option_filter (\<lambda>m. trim m \<noteq> []) (raw_model r),
           as_instructions = trim (unwrap_or [] (raw_instructions r)),
           as_where = map_option (\<lambda>t. \<lparr>dt_tool = rw_tool t,
             dt_file = option_filter (\<lambda>f. trim f \<noteq> []) (rw_file t)\<rparr>) (raw_where r),
           as_criteria = cs, as_on_fail = o_f, as_limits = into_limits (raw_limits r)\<rparr>"
    by (auto simp: into_agent_step_def Let_def result_bind_Inr_iff split: if_splits)
  have "\<forall>c\<in>set cs. \<exists>x. into_criterion L x = Inr c"
    using ok(2) by (metis (no_types, lifting) collect_results_Inr image_iff list.set_map)
  then have "\<forall>c\<in>set cs. criterion_canonical c" using into_criterion_canonical by blast
  with ok on_fail_or_defaults(2) [OF ok(3)] show ?thesis
    unfolding a by (simp add: kind_canonical_def agent_step_canonical_def slug_ok_command_slug
        split: option.split)
qed

lemma into_github_action_canonical:
  "into_github_action L r key = Inr a \<Longrightarrow> github_action_canonical a"
  by (auto simp: into_github_action_def github_action_canonical_def result_bind_Inr_iff
      split: option.splits github_action.splits)

lemma into_kind_canonical: "into_kind L r = Inr k \<Longrightarrow> kind_canonical k"
  by (auto simp: into_kind_def kind_canonical_def [of "StepGitHub _"] kind_canonical_def [of "StepBranch _"]
      kind_canonical_def [of "StepParallel _"] kind_canonical_def [of "StepGate _"]
      kind_canonical_def [of "StepRun _"] result_bind_Inr_iff slug_ok_command_slug
      into_agent_step_canonical into_github_action_canonical on_fail_or_defaults
      split: if_splits option.splits)

lemma criterion_roundtrip: "criterion_canonical c \<Longrightarrow> into_criterion L (from_criterion c) = Inr c"
  by (cases "crit_verify c")
    (simp_all add: into_criterion_def from_criterion_def criterion_canonical_def verifier_canonical_def
      into_verifier_def from_verifier_def command_slug_fixed)

lemma criteria_roundtrip:
  "\<forall>c\<in>set cs. criterion_canonical c \<Longrightarrow> collect_results (map (into_criterion L) (map from_criterion cs)) = Inr cs"
  by (auto simp: collect_results_Inr criterion_roundtrip)

lemma where_roundtrip:
  assumes "case w of Some t \<Rightarrow> not_blank (dt_file t) | None \<Rightarrow> True"
  shows "map_option (\<lambda>t. \<lparr>dt_tool = rw_tool t, dt_file = option_filter (\<lambda>f. trim f \<noteq> []) (rw_file t)\<rparr>)
      (map_option (\<lambda>t. \<lparr>rw_tool = dt_tool t, rw_file = dt_file t\<rparr>) w) = w"
proof (cases w)
  case (Some t)
  with assms have "option_filter (\<lambda>f. trim f \<noteq> []) (dt_file t) = dt_file t"
    by (simp add: not_blank_filter_id)
  with Some show ?thesis by (simp del: not_None_eq)
qed simp

lemma then_some_text: "unwrap_or [] (then_some (t \<noteq> []) t) = t"
  by (simp add: then_some_def unwrap_or_def)

lemma agent_step_roundtrip:
  assumes "agent_step_canonical a"
  shows "into_kind L (from_step (StepAgent a)) = Inr (StepAgent a)"
proof -
  have [simp]: "command_slug (as_agent a) = as_agent a" "as_agent a \<noteq> []"
    "trim (as_instructions a) = as_instructions a"
    "option_filter (\<lambda>t. trim t \<noteq> []) (as_model a) = as_model a"
    using assms by (simp_all add: agent_step_canonical_def command_slug_fixed not_blank_filter_id)
  have [simp]: "on_fail_or L default_for_agent (Some (from_on_fail (as_on_fail a))) = Inr (as_on_fail a)"
    using assms by (simp add: on_fail_or_def on_fail_roundtrip agent_step_canonical_def)
  have w: "map_option (\<lambda>t. \<lparr>dt_tool = rw_tool t, dt_file = option_filter (\<lambda>f. trim f \<noteq> []) (rw_file t)\<rparr>)
      (map_option (\<lambda>t. \<lparr>rw_tool = dt_tool t, rw_file = dt_file t\<rparr>) (as_where a)) = as_where a"
    using assms by (intro where_roundtrip) (simp add: agent_step_canonical_def)
  have c: "collect_results (map (into_criterion L) (map from_criterion (as_criteria a))) = Inr (as_criteria a)"
    using assms by (intro criteria_roundtrip) (simp add: agent_step_canonical_def)
  have "unwrap_or [] (Some x) = x" for x :: string by (simp add: unwrap_or_def)
  with w c show ?thesis
    by (simp add: into_kind_def kinds_set_def from_step_def raw_step_default_def into_agent_step_def Let_def
        then_some_text limits_roundtrip del: map_map)
qed

lemma github_roundtrip:
  assumes "github_action_canonical (gh_action g)" "on_fail_canonical (gh_on_fail g)"
  shows "into_kind L (from_step (StepGitHub g)) = Inr (StepGitHub g)"
proof -
  have f: "raw_github (from_github g) = Some (github_action_key (gh_action g))"
    "raw_on_fail (from_github g) = then_some (gh_on_fail g \<noteq> AskYou) (from_on_fail (gh_on_fail g))"
    "kinds_set (from_github g) = 1"
    by (simp_all add: from_github_def Let_def raw_step_default_def kinds_set_def split: github_action.split)
  have "into_github_action L (from_github g) (github_action_key (gh_action g)) = Inr (gh_action g)"
    using assms(1)
    by (cases "gh_action g")
      (simp_all add: into_github_action_def github_key_roundtrip from_github_def raw_step_default_def
        github_action_canonical_def minutes_roundtrip then_some_text, simp_all add: unwrap_or_def)
  with f assms(2) show ?thesis
    by (simp add: into_kind_def from_step_def on_fail_or_roundtrip)
qed

lemma kind_roundtrip: "kind_canonical k \<Longrightarrow> into_kind L (from_step k) = Inr k"
proof (cases k)
  case (StepAgent a)
  moreover assume "kind_canonical k"
  ultimately show ?thesis by (simp add: kind_canonical_def agent_step_roundtrip)
next
  case (StepGitHub g)
  moreover assume "kind_canonical k"
  ultimately show ?thesis by (simp add: kind_canonical_def github_roundtrip)
next
  case (StepParallel p)
  moreover assume "kind_canonical k"
  moreover have "map command_slug (pl_agents p) = pl_agents p" if "\<forall>c\<in>set (pl_agents p). slug_ok c \<and> c \<noteq> []"
    using that by (simp add: command_slug_fixed map_idI)
  moreover have "unwrap_or True (then_some (\<not> pl_read_only p) False) = pl_read_only p"
    by (simp add: unwrap_or_def then_some_def)
  ultimately show ?thesis
    by (simp add: into_kind_def kinds_set_def from_step_def raw_step_default_def kind_canonical_def
        on_fail_or_roundtrip filter_id_conv)
next
  case (StepBranch b)
  moreover assume "kind_canonical k"
  ultimately show ?thesis
    by (simp add: into_kind_def kinds_set_def from_step_def raw_step_default_def kind_canonical_def
        not_blank_filter_id)
qed (simp_all add: into_kind_def kinds_set_def from_step_def raw_step_default_def kind_canonical_def
      on_fail_or_roundtrip then_some_text)

text \<open>Writing a step that was read from a flow file and reading it again gives the same step,
  for every kind of step: agents with their criteria, limits and on-fail rules, gates, commands,
  GitHub actions, branches and parallel steps.\<close>

lemma into_kind_resave:
  assumes "into_kind L r = Inr k"
  shows "into_kind L (from_step k) = Inr k"
  using assms by (intro kind_roundtrip into_kind_canonical)

lemma into_kind_resave_witness:
  "let k = StepRun \<lparr>rs_command = ''npm test'', rs_on_fail = BackTo ''dev'' 1\<rparr> in
   into_kind example_i18n (from_step k) = Inr k"
proof -
  have "into_kind example_i18n
      (raw_step_default\<lparr>raw_run := Some ''npm test'', raw_on_fail := Some (RawBackTo ''dev'' 0 None)\<rparr>)
      = Inr (StepRun \<lparr>rs_command = ''npm test'', rs_on_fail = BackTo ''dev'' 1\<rparr>)"
    by (simp add: into_kind_def kinds_set_def raw_step_default_def on_fail_or_def into_on_fail_def
        check_then_def)
  from into_kind_resave [OF this] show ?thesis by (simp add: Let_def)
qed

section \<open>Reading back a whole flow\<close>

lemma default_id_ok: "kind_canonical k \<Longrightarrow> slug_ok (default_id k) \<and> default_id k \<noteq> []"
  by (auto simp: default_id_def kind_canonical_def agent_step_canonical_def slug_ok_def slug_char_def
      dash_free_pair_def split: step_kind.split github_action.split)

lemma digit_slug_char: "c \<in> set (nat_to_string n) \<Longrightarrow> slug_char c"
  by (auto dest!: nat_to_string_digits simp: slug_char_def of_char_digit)

lemma successively_digits:
  "(\<forall>c\<in>set s. slug_char c) \<Longrightarrow> successively dash_free_pair s"
proof (induction s rule: induct_list012)
  case (3 x y s)
  then have "x \<noteq> CHR ''-''" using slug_char_not_dash by simp
  with 3 show ?case by (simp add: dash_free_pair_def)
qed simp_all

lemma suffixed_id_ok:
  assumes "slug_ok base" "base \<noteq> []"
  shows "slug_ok (suffixed_id base n) \<and> suffixed_id base n \<noteq> []"
proof -
  let ?d = "nat_to_string n"
  have d: "\<forall>c\<in>set ?d. slug_char c" using digit_slug_char by blast
  then have nd: "hd ?d \<noteq> CHR ''-''" "last ?d \<noteq> CHR ''-''"
    using slug_char_not_dash by (metis hd_in_set last_in_set nat_to_string_nonempty)+
  have "successively dash_free_pair (CHR ''-'' # ?d)"
    using nd successively_digits [OF d] by (cases ?d) (simp_all add: dash_free_pair_def)
  moreover have "dash_free_pair (last base) (CHR ''-'')"
    using assms by (simp add: slug_ok_def dash_free_pair_def)
  ultimately have "successively dash_free_pair (base @ ''-'' @ ?d)"
    using assms by (simp add: slug_ok_def successively_append_iff)
  with assms d nd show ?thesis
    by (auto simp: slug_ok_def suffixed_id_def hd_append)
qed

lemma unique_step_id_ok:
  "slug_ok base \<Longrightarrow> base \<noteq> [] \<Longrightarrow> slug_ok (unique_step_id steps base) \<and> unique_step_id steps base \<noteq> []"
proof (cases "base \<in> set (map step_id steps)")
  case True
  assume "slug_ok base" "base \<noteq> []"
  with True show ?thesis
    using free_suffix_least [of 2 "map step_id steps" base] suffixed_id_ok [of base]
    by (simp only: unique_step_id_def Let_def if_False not_not if_True simp_thms) metis
qed (simp add: unique_step_id_def)

definition step_canonical :: "flow_step \<Rightarrow> bool" where
  "step_canonical s = (kind_canonical (step_kind s) \<and> slug_ok (step_id s) \<and> step_id s \<noteq> [])"

lemma read_step_canonical: "read_step L steps n r = Inr s \<Longrightarrow> step_canonical s"
proof -
  assume "read_step L steps n r = Inr s"
  then obtain k where k: "into_kind L r = Inr k"
    and s: "s = \<lparr>step_id = (case option_filter (\<lambda>i. i \<noteq> []) (map_option command_slug (raw_id r)) of
            Some i \<Rightarrow> i | None \<Rightarrow> unique_step_id steps (default_id k)), step_kind = k\<rparr>"
    by (auto simp: read_step_def result_bind_Inr_iff with_context_def split: sum.splits)
  have c: "kind_canonical k" using k by (rule into_kind_canonical)
  then show ?thesis
    using unique_step_id_ok [of "default_id k" steps] default_id_ok [OF c]
    by (auto simp: s step_canonical_def option_filter_def slug_ok_command_slug split: option.splits)
qed

lemma read_steps_canonical:
  "read_steps L steps rs = Inr out \<Longrightarrow> \<forall>s\<in>set steps. step_canonical s \<Longrightarrow> \<forall>s\<in>set out. step_canonical s"
proof (induction rs arbitrary: steps)
  case (Cons r rs)
  then obtain s where s: "read_step L steps (length steps) r = Inr s" "read_steps L (steps @ [s]) rs = Inr out"
    by (auto simp: result_bind_Inr_iff)
  from Cons.IH [OF s(2)] Cons.prems(2) read_step_canonical [OF s(1)] show ?case by simp
qed simp

lemma read_steps_prefix: "read_steps L steps rs = Inr out \<Longrightarrow> \<exists>t. out = steps @ t"
proof (induction rs arbitrary: steps)
  case (Cons r rs)
  then show ?case by (fastforce simp: result_bind_Inr_iff)
qed simp

text \<open>Where the written file leaves an id out, the reader generates it again from the ids read so
  far; \<open>ids_stable\<close> says that it generates the same one.\<close>

fun ids_stable :: "flow_step list \<Rightarrow> flow_step list \<Rightarrow> flow_step list \<Rightarrow> bool" where
  "ids_stable auto_ids before [] = True"
| "ids_stable auto_ids before (s # ss) =
     (let auto_id = unique_step_id auto_ids (default_id (step_kind s)) in
      (step_id s = auto_id \<longrightarrow> unique_step_id before (default_id (step_kind s)) = auto_id) \<and>
      ids_stable (auto_ids @ [\<lparr>step_id = auto_id, step_kind = step_kind s\<rparr>]) (before @ [s]) ss)"

lemma into_kind_raw_id: "into_kind L (r\<lparr>raw_id := i\<rparr>) = into_kind L r"
  by (cases r, hypsubst, unfold into_kind_def kinds_set_def into_agent_step_def into_github_action_def
      raw_step.update_convs raw_step.select_convs, rule refl)

lemma read_step_written:
  assumes "step_canonical s"
  shows "read_step L before n (hd (write_steps auto_ids [s])) =
    Inr \<lparr>step_id = (if step_id s = unique_step_id auto_ids (default_id (step_kind s))
           then unique_step_id before (default_id (step_kind s)) else step_id s),
         step_kind = step_kind s\<rparr>"
proof -
  have k: "into_kind L (from_step (step_kind s)) = Inr (step_kind s)"
    using assms by (intro kind_roundtrip) (simp add: step_canonical_def)
  have "raw_id (from_step (step_kind s)) = None"
    by (simp add: from_step_def from_github_def raw_step_default_def Let_def
        split: step_kind.split github_action.split)
  moreover have "command_slug (step_id s) = step_id s" "step_id s \<noteq> []"
    using assms by (simp_all add: step_canonical_def command_slug_fixed)
  ultimately show ?thesis
    by (simp add: read_step_def with_context_def k Let_def option_filter_def into_kind_raw_id)
qed

lemma read_written_steps:
  assumes "\<forall>s\<in>set ss. step_canonical s"
  shows "read_steps L before (write_steps auto_ids ss) = Inr (before @ ss) \<longleftrightarrow> ids_stable auto_ids before ss"
  using assms
proof (induction ss arbitrary: before auto_ids)
  case (Cons s ss)
  let ?auto = "unique_step_id auto_ids (default_id (step_kind s))"
  let ?autos = "auto_ids @ [\<lparr>step_id = ?auto, step_kind = step_kind s\<rparr>]"
  let ?id = "if step_id s = ?auto then unique_step_id before (default_id (step_kind s)) else step_id s"
  let ?s = "\<lparr>step_id = ?id, step_kind = step_kind s\<rparr>"
  have w: "write_steps auto_ids (s # ss) = hd (write_steps auto_ids [s]) # write_steps ?autos ss"
    by (simp add: Let_def)
  have r: "read_steps L before (write_steps auto_ids (s # ss))
      = read_steps L (before @ [?s]) (write_steps ?autos ss)"
    unfolding w using read_step_written [of s L before "length before" auto_ids] Cons.prems
    by (simp del: write_steps.simps)
  show ?case
  proof (cases "?id = step_id s")
    case True
    then have "?s = s" by simp
    with r have "read_steps L before (write_steps auto_ids (s # ss))
        = read_steps L (before @ [s]) (write_steps ?autos ss)" by simp
    moreover have "ids_stable auto_ids before (s # ss) \<longleftrightarrow> ids_stable ?autos (before @ [s]) ss"
      using True by (auto simp: Let_def split: if_splits)
    ultimately show ?thesis
      using Cons.IH [of "before @ [s]" ?autos] Cons.prems by (simp del: write_steps.simps)
  next
    case False
    have "read_steps L before (write_steps auto_ids (s # ss)) \<noteq> Inr (before @ s # ss)"
    proof
      assume "read_steps L before (write_steps auto_ids (s # ss)) = Inr (before @ s # ss)"
      with r obtain t where "before @ s # ss = (before @ [?s]) @ t"
        using read_steps_prefix by metis
      then have "s = ?s" by simp
      with False show False by (metis flow_step.select_convs(1))
    qed
    with False show ?thesis by (auto simp: Let_def split: if_splits)
  qed
qed simp

lemma split_flow_markdown:
  assumes "yaml_block y" "flow_to_markdown to_yaml f = Inr text" "to_yaml (frontmatter_of_flow f) = Inr y"
    and "trim (flow_notes f) = flow_notes f"
  shows "\<exists>body. split_frontmatter L text = Inr (Some y, body) \<and> trim body = flow_notes f"
proof (cases "flow_notes f = []")
  case True
  with assms have "text = ''---'' @ [newline] @ y @ ''---'' @ [newline] @ []"
    by (simp add: flow_to_markdown_def)
  with True split_frontmatter_block [OF assms(1), of L "[]"] show ?thesis by simp
next
  case False
  let ?body = "newline # trim (flow_notes f) @ [newline]"
  from False assms have "text = ''---'' @ [newline] @ y @ ''---'' @ [newline] @ ?body"
    by (simp add: flow_to_markdown_def)
  with split_frontmatter_block [OF assms(1), of L ?body] assms(4) trim_newlines_around [of "flow_notes f"]
  show ?thesis by simp
qed

lemma read_written_kinds:
  assumes "\<forall>s\<in>set ss. step_canonical s"
  shows "\<exists>out. read_steps L before (write_steps auto_ids ss) = Inr out
    \<and> map step_kind out = map step_kind before @ map step_kind ss"
  using assms
proof (induction ss arbitrary: before auto_ids)
  case (Cons s ss)
  let ?auto = "unique_step_id auto_ids (default_id (step_kind s))"
  let ?autos = "auto_ids @ [\<lparr>step_id = ?auto, step_kind = step_kind s\<rparr>]"
  have w: "write_steps auto_ids (s # ss) = hd (write_steps auto_ids [s]) # write_steps ?autos ss"
    by (simp add: Let_def)
  obtain s' where s': "read_step L before (length before) (hd (write_steps auto_ids [s])) = Inr s'"
    "step_kind s' = step_kind s"
    using read_step_written [of s L before "length before" auto_ids] Cons.prems by auto
  from Cons.IH [of "before @ [s']" ?autos] Cons.prems s' show ?case
    unfolding w by (auto simp del: write_steps.simps)
qed simp

lemma parse_flow_elim:
  assumes "parse_flow L from_yaml path content source = Inr f"
  shows "\<exists>fid (raw :: raw_flow) body. flow_id_from_path path = Some fid \<and> read_steps L [] (rf_steps raw) = Inr (flow_steps f)
    \<and> f = \<lparr>flow_id = fid, flow_name = (if trim (rf_name raw) = [] then fid else trim (rf_name raw)),
          flow_input = trim (rf_input raw), flow_steps = flow_steps f, flow_notes = trim body,
          flow_source = source, flow_file_path = path\<rparr>"
proof -
  from assms obtain fid and fm :: "string option \<times> string" and raw :: raw_flow and steps
    where id_ok: "ok_or [translate L ''flows.parse.wrong_extension''] (flow_id_from_path path) = Inr fid"
    and steps: "read_steps L [] (rf_steps raw) = Inr steps"
    and f: "\<lparr>flow_id = fid, flow_name = (if trim (rf_name raw) = [] then fid else trim (rf_name raw)),
          flow_input = trim (rf_input raw), flow_steps = steps, flow_notes = trim (snd fm),
          flow_source = source, flow_file_path = path\<rparr> = f"
    unfolding parse_flow_def result_bind_Inr_iff case_prod_beta sum.inject
    by (elim exE conjE) (rule that, assumption+)
  have "flow_steps f = steps" using arg_cong [OF f, of flow_steps] by simp
  moreover have "flow_id_from_path path = Some fid"
    using id_ok by (auto simp: ok_or_def split: option.splits)
  ultimately show ?thesis using steps f by (intro exI [of _ fid] exI [of _ raw] exI [of _ "snd fm"]) simp
qed


definition example_flow_yaml :: "string \<Rightarrow> string + raw_flow" where
  "example_flow_yaml y = Inr (frontmatter_of_flow example_flow)"

lemma example_flow_parses:
  "parse_flow example_i18n example_flow_yaml (flow_file_path example_flow)
     (''---'' @ [newline] @ ''name: F'' @ [newline] @ ''---'' @ [newline]) FlowPersonal = Inr example_flow"
  by code_simp


text \<open>A flow with a renamed first step and a repeated agent. The second step keeps its generated id,
  so the file leaves it out.\<close>

definition drift_flow :: flow where
  "drift_flow = example_flow
     \<lparr>flow_steps :=
       [\<lparr>step_id = ''x'', step_kind = StepAgent (agent_step_new ''dev'')\<rparr>,
        \<lparr>step_id = ''dev-2'', step_kind = StepAgent (agent_step_new ''dev'')\<rparr>,
        \<lparr>step_id = ''comando'', step_kind = StepRun \<lparr>rs_command = ''test'', rs_on_fail = BackTo ''dev-2'' 2\<rparr>\<rparr>]\<rparr>"

text \<open>C35. A flow that validates can be saved as a file that does not: the id left out is generated
  again under another name, and the step that goes back to it has lost its target. No property of the
  YAML library is involved: the steps written are the steps read.\<close>

theorem resave_drifts:
  "validate_flow example_i18n drift_flow [example_agent] = [] \<and>
   (\<exists>steps. read_steps example_i18n [] (rf_steps (frontmatter_of_flow drift_flow)) = Inr steps \<and>
      map step_id steps = [''x'', ''dev'', ''comando''] \<and>
      validate_flow example_i18n (drift_flow\<lparr>flow_steps := steps\<rparr>) [example_agent] = [BackToNotEarlier 2 ''dev-2''])"
proof -
  let ?steps = "[\<lparr>step_id = ''x'', step_kind = StepAgent (agent_step_new ''dev'')\<rparr>,
        \<lparr>step_id = ''dev'', step_kind = StepAgent (agent_step_new ''dev'')\<rparr>,
        \<lparr>step_id = ''comando'', step_kind = StepRun \<lparr>rs_command = ''test'', rs_on_fail = BackTo ''dev-2'' 2\<rparr>\<rparr>]"
  have "validate_flow example_i18n drift_flow [example_agent] = []" by code_simp
  moreover have "read_steps example_i18n [] (rf_steps (frontmatter_of_flow drift_flow)) = Inr ?steps" by code_simp
  moreover have "validate_flow example_i18n (drift_flow\<lparr>flow_steps := ?steps\<rparr>) [example_agent]
      = [BackToNotEarlier 2 ''dev-2'']" by code_simp
  ultimately show ?thesis by simp
qed

lemma trim_number_suffix:
  assumes "\<not> is_ws u" shows "trim (nat_to_string n @ [u]) = nat_to_string n @ [u]"
proof (rule trim_id)
  have "\<not> is_ws (hd (nat_to_string n))"
    by (rule alphanumeric_not_ws, rule nat_to_string_alphanumeric [of _ n]) simp
  with assms show "nat_to_string n @ [u] = [] \<or>
      \<not> is_ws (hd (nat_to_string n @ [u])) \<and> \<not> is_ws (last (nat_to_string n @ [u]))"
    by (simp add: hd_append)
qed

text \<open>A timeout written in hours is multiplied by sixty in 32 bits: the minutes read are the
  hours times sixty modulo 2 to the 32, so exactly the hour counts below 71582789 are read right. A
  timeout written in minutes is always read as it is.\<close>

lemma parse_minutes_hours:
  assumes "n < 2 ^ 32"
  shows "parse_minutes L (nat_to_string n @ ''m'') = Inr (of_nat n)
    \<and> (\<exists>v. parse_minutes L (nat_to_string n @ ''h'') = Inr v \<and> unat v = (60 * n) mod 2 ^ 32)"
proof -
  have m: "unat (of_nat n :: u32) = n" using assms by (simp add: unat_of_nat take_bit_nat_eq_self)
  have n: "parse_unsigned (2 ^ 32 - 1) (nat_to_string n) = Some n"
    using assms by (intro parse_unsigned_nat_to_string) simp
  have "\<not> is_ws CHR ''h''" by (simp add: is_ws_def)
  then have "parse_minutes L (nat_to_string n @ ''h'') = Inr (of_nat n * 60)"
    using n by (simp add: parse_minutes_def trim_number_suffix)
  moreover have "unat (of_nat n * 60 :: u32) = (60 * n) mod 2 ^ 32"
    using m by (simp add: unat_word_ariths mult.commute)
  ultimately show ?thesis
    using minutes_roundtrip [of L "of_nat n"] m by simp
qed

lemma parse_minutes_hours_witness:
  "\<exists>v. parse_minutes example_i18n (nat_to_string 71582789 @ ''h'') = Inr v \<and> unat v = 44"
  using parse_minutes_hours [of 71582789 example_i18n] by simp

end
