(* ===== verification/FlowRun.thy ===== *)
theory FlowRun
  imports Flows
begin

text \<open>
  The run of a flow (\<open>crates/flows/src/run.rs\<close>): what a run knows about each step, the decision
  after every result (retry, go back, wait for the user, go on), gates and branches, and the
  snapshot kept across restarts.

  Every operation is a function on the run. The operations index vectors, so each returns an option:
  \<^const>\<open>None\<close> is the panic of an index out of range. The clock is a parameter: \<open>env_now E k\<close> is the
  time read for the \<open>k\<close>-th event of the run.
\<close>

section \<open>Data\<close>

datatype waiting =
    WaitGate nat
  | WaitCriteria nat "nat list"
  | WaitExhausted nat string

datatype run_state = RunRunning | RunWaiting waiting | RunSucceeded | RunCancelled

datatype step_state =
    Queued | Running | Verifying | WaitingForYou | Passed | Failed | Skipped

datatype criterion_outcome = OutcomePassed | OutcomeFailed | OutcomeWithYou

record criterion_result =
  cr_index :: nat
  cr_outcome :: criterion_outcome
  cr_evidence :: string

record submission =
  sub_summary :: string
  sub_outputs :: "(string, string) btree"
  sub_self_checks :: "(nat, bool \<times> string) btree"

record step_run =
  sr_state :: step_state
  sr_attempts :: u8
  sr_submission :: "submission option"
  sr_criteria :: "criterion_result list"
  sr_feedback :: "string option"
  sr_note :: "string option"

definition step_run_new :: step_run where
  "step_run_new = \<lparr>sr_state = Queued, sr_attempts = 0, sr_submission = None, sr_criteria = [],
     sr_feedback = None, sr_note = None\<rparr>"

datatype run_event_kind =
  EvYou | EvDelivered | EvVerified | EvFailed | EvBack | EvGate | EvFinished | EvStopped

record run_event =
  ev_kind :: run_event_kind
  ev_title :: string
  ev_message :: string
  ev_step :: "nat option"
  ev_at :: nat
  ev_criteria :: bool

datatype run_action =
    StartAgent nat
  | RunCommand nat
  | RunGitHub nat
  | StartParallel nat
  | Wait
  | Done

record flow_run =
  fr_flow :: flow
  fr_input :: string
  fr_steps :: "step_run list"
  fr_cursor :: nat
  fr_state :: run_state
  fr_events :: "run_event list"
  fr_backs :: "(nat, u8) btree"
  fr_retries :: "(nat, u8) btree"

record run_snapshot =
  sn_input :: string
  sn_steps :: "step_run list"
  sn_cursor :: nat
  sn_state :: run_state
  sn_events :: "run_event list"
  sn_backs :: "(nat, u8) btree"
  sn_retries :: "(nat, u8) btree"

record run_env =
  env_i18n :: i18n
  env_now :: "nat \<Rightarrow> nat"

section \<open>Access\<close>

text \<open>\<open>self.flow.steps[i].kind\<close>, \<open>self.steps[i]\<close> read and written, and the loop that gives every
  step of a range the same state.\<close>

definition kind_at :: "flow_run \<Rightarrow> nat \<Rightarrow> step_kind option" where
  "kind_at r i = map_option step_kind (nth_opt (flow_steps (fr_flow r)) i)"

definition step_at :: "flow_run \<Rightarrow> nat \<Rightarrow> step_run option" where
  "step_at r i = nth_opt (fr_steps r) i"

definition upd_step :: "nat \<Rightarrow> (step_run \<Rightarrow> step_run) \<Rightarrow> flow_run \<Rightarrow> flow_run option" where
  "upd_step i g r =
     (if i < length (fr_steps r) then Some (r\<lparr>fr_steps := (fr_steps r)[i := g (fr_steps r ! i)]\<rparr>)
      else None)"

fun set_states :: "step_state \<Rightarrow> nat list \<Rightarrow> flow_run \<Rightarrow> flow_run option" where
  "set_states st [] r = Some r"
| "set_states st (i # is) r = Option.bind (upd_step i (sr_state_update (\<lambda>_. st)) r) (set_states st is)"

definition log_event ::
  "run_env \<Rightarrow> run_event_kind \<Rightarrow> string \<Rightarrow> string \<Rightarrow> nat option \<Rightarrow> flow_run \<Rightarrow> flow_run" where
  "log_event E kind title message step r = r\<lparr>fr_events := fr_events r @
     [\<lparr>ev_kind = kind, ev_title = title, ev_message = message, ev_step = step,
       ev_at = env_now E (length (fr_events r)), ev_criteria = False\<rparr>]\<rparr>"

definition step_title :: "run_env \<Rightarrow> nat \<Rightarrow> string \<Rightarrow> string" where
  "step_title E step label = translate_with (env_i18n E) ''flows.run.step_title''
     [(''number'', nat_to_string (step + 1)), (''label'', label)]"

section \<open>Snapshots\<close>

definition snapshot :: "flow_run \<Rightarrow> run_snapshot" where
  "snapshot r = \<lparr>sn_input = fr_input r, sn_steps = fr_steps r, sn_cursor = fr_cursor r,
     sn_state = fr_state r, sn_events = fr_events r, sn_backs = fr_backs r, sn_retries = fr_retries r\<rparr>"

definition requeue :: "step_run \<Rightarrow> step_run" where
  "requeue s = (if sr_state s \<in> {Running, Verifying} then s\<lparr>sr_state := Queued\<rparr> else s)"

definition restore :: "flow \<Rightarrow> run_snapshot \<Rightarrow> flow_run option" where
  "restore f sn =
     (if length (sn_steps sn) \<noteq> length (flow_steps f) then None
      else Some \<lparr>fr_flow = f, fr_input = sn_input sn, fr_steps = map requeue (sn_steps sn),
        fr_cursor = sn_cursor sn, fr_state = sn_state sn, fr_events = sn_events sn,
        fr_backs = sn_backs sn, fr_retries = sn_retries sn\<rparr>)"

definition resume :: "run_env \<Rightarrow> flow_run \<Rightarrow> flow_run" where
  "resume E r =
     (if fr_state r = RunRunning then
        log_event E EvYou (translate (env_i18n E) ''flows.run.resumed_title'')
          (translate (env_i18n E) ''flows.run.resumed_message'') None r
      else r)"

definition was_interrupted :: "flow_run \<Rightarrow> bool" where
  "was_interrupted r = (fr_state r = RunRunning)"

definition is_finished :: "flow_run \<Rightarrow> bool" where
  "is_finished r = (case fr_state r of RunSucceeded \<Rightarrow> True | RunCancelled \<Rightarrow> True | _ \<Rightarrow> False)"

definition passed_steps :: "flow_run \<Rightarrow> nat" where
  "passed_steps r = length (filter (\<lambda>s. sr_state s = Passed) (fr_steps r))"

section \<open>Gates and branches\<close>

fun find_map :: "('a \<Rightarrow> 'b option) \<Rightarrow> 'a list \<Rightarrow> 'b option" where
  "find_map g [] = None"
| "find_map g (x # xs) = (case g x of Some y \<Rightarrow> Some y | None \<Rightarrow> find_map g xs)"

definition delivered :: "flow_run \<Rightarrow> string \<Rightarrow> string option" where
  "delivered r output = find_map (\<lambda>sub. bt_get (sub_outputs sub) output)
     (List.map_filter sr_submission (rev (fr_steps r)))"

definition branch_holds :: "flow_run \<Rightarrow> branch_step \<Rightarrow> bool" where
  "branch_holds r b = (case delivered r (br_output b) of
     Some value \<Rightarrow> str_contains (to_lowercase value) (to_lowercase (br_contains b))
   | None \<Rightarrow> False)"

definition branch_target :: "flow_run \<Rightarrow> nat \<Rightarrow> branch_step \<Rightarrow> nat" where
  "branch_target r step b =
     (case Option.bind (if branch_holds r b then br_then_to b else br_else_to b) (step_index (fr_flow r)) of
        Some target \<Rightarrow> if target > step then target else step + 1
      | None \<Rightarrow> step + 1)"

text \<open>\<open>take_branch\<close> up to its last line, the call of \<open>enter_cursor\<close>.\<close>

definition take_branch :: "run_env \<Rightarrow> nat \<Rightarrow> branch_step \<Rightarrow> flow_run \<Rightarrow> flow_run option" where
  "take_branch E step b r =
     (let L = env_i18n E; holds = branch_holds r b; target = branch_target r step b in
      Option.bind (upd_step step (\<lambda>s. s\<lparr>sr_state := Passed,
        sr_note := Some (if holds then translate L ''flows.run.branch_yes''
                         else translate L ''flows.run.branch_no'')\<rparr>) r) (\<lambda>r.
      Option.bind (set_states Skipped [step + 1..<target] r) (\<lambda>r.
      let destination = (if target < length (flow_steps (fr_flow r))
            then translate_with L ''flows.run.branch_to_step'' [(''number'', nat_to_string (target + 1))]
            else translate L ''flows.run.branch_to_end'');
          title = step_title E step (translate L ''flows.step.branch'');
          arguments = [(''output'', br_output b), (''text'', br_contains b), (''destination'', destination)];
          message = (if holds then translate_with L ''flows.run.branch_contains'' arguments
            else translate_with L ''flows.run.branch_not_contains'' arguments) in
      Some ((log_event E EvVerified title message (Some step) r)\<lparr>fr_cursor := target\<rparr>))))"

definition enter_gate :: "run_env \<Rightarrow> nat \<Rightarrow> gate_step \<Rightarrow> flow_run \<Rightarrow> flow_run option" where
  "enter_gate E step g r =
     (let L = env_i18n E;
          note = (if gate_note g = [] then translate L ''flows.run.gate_default_note'' else gate_note g) in
      Option.bind (upd_step step (\<lambda>s. s\<lparr>sr_state := WaitingForYou\<rparr>) r) (\<lambda>r.
      Some (log_event E EvGate (step_title E step (translate L ''flows.step.gate'')) note (Some step)
        (r\<lparr>fr_state := RunWaiting (WaitGate step)\<rparr>))))"

lemma upd_step_frame:
  "upd_step i g r = Some r' \<Longrightarrow> fr_flow r' = fr_flow r \<and> length (fr_steps r') = length (fr_steps r)"
  by (auto simp: upd_step_def split: if_splits)

lemma set_states_frame:
  "set_states st is r = Some r' \<Longrightarrow> fr_flow r' = fr_flow r \<and> length (fr_steps r') = length (fr_steps r)"
  by (induction "is" arbitrary: r) (auto simp: bind_eq_Some_conv dest!: upd_step_frame)

lemma log_event_simps [simp]:
  "fr_flow (log_event E k t m s r) = fr_flow r"
  "fr_input (log_event E k t m s r) = fr_input r"
  "fr_steps (log_event E k t m s r) = fr_steps r"
  "fr_cursor (log_event E k t m s r) = fr_cursor r"
  "fr_state (log_event E k t m s r) = fr_state r"
  "fr_backs (log_event E k t m s r) = fr_backs r"
  "fr_retries (log_event E k t m s r) = fr_retries r"
  by (simp_all add: log_event_def)

lemma branch_target_later: "branch_target r step b > step"
  by (auto simp: branch_target_def split: option.splits)

lemma take_branch_progress:
  "take_branch E step b r = Some r' \<Longrightarrow> fr_flow r' = fr_flow r \<and> fr_cursor r' = branch_target r step b"
  by (auto simp: take_branch_def Let_def bind_eq_Some_conv dest!: upd_step_frame set_states_frame)

text \<open>A branch enters the step it jumps to, which may be a branch again. Branches only jump forward,
  so this ends.\<close>

function enter_cursor :: "run_env \<Rightarrow> flow_run \<Rightarrow> flow_run option" where
  "enter_cursor E r =
     (if fr_cursor r \<ge> length (flow_steps (fr_flow r)) then
        Some (log_event E EvFinished (translate (env_i18n E) ''flows.run.finished_title'')
          (translate (env_i18n E) ''flows.run.finished_message'') None (r\<lparr>fr_state := RunSucceeded\<rparr>))
      else case step_kind (flow_steps (fr_flow r) ! fr_cursor r) of
        StepBranch b \<Rightarrow> Option.bind (take_branch E (fr_cursor r) b r) (\<lambda>r'. enter_cursor E r')
      | StepGate g \<Rightarrow> enter_gate E (fr_cursor r) g r
      | _ \<Rightarrow> Some (r\<lparr>fr_state := RunRunning\<rparr>))"
  by pat_completeness auto
termination
proof (relation "measure (\<lambda>(E, r). length (flow_steps (fr_flow r)) - fr_cursor r)")
  fix E r b r'
  assume "\<not> length (flow_steps (fr_flow r)) \<le> fr_cursor r" "take_branch E (fr_cursor r) b r = Some r'"
  then show "((E, r'), E, r) \<in> measure (\<lambda>(E, r). length (flow_steps (fr_flow r)) - fr_cursor r)"
    using branch_target_later [of "fr_cursor r" r b] by (auto dest!: take_branch_progress)
qed simp

declare enter_cursor.simps [simp del]

definition run_new :: "run_env \<Rightarrow> flow \<Rightarrow> string \<Rightarrow> flow_run option" where
  "run_new E f input =
     (let r = \<lparr>fr_flow = f, fr_input = input, fr_steps = map (\<lambda>_. step_run_new) (flow_steps f),
            fr_cursor = 0, fr_state = RunRunning, fr_events = [], fr_backs = [], fr_retries = []\<rparr>;
          message = translate_with (env_i18n E) ''flows.run.started_message''
            [(''flow'', flow_name f), (''input'', input)] in
      enter_cursor E (log_event E EvYou (translate (env_i18n E) ''flows.run.you'') message None r))"

section \<open>Steps that start, pass and fail\<close>

definition next_action :: "flow_run \<Rightarrow> run_action option" where
  "next_action r = (case fr_state r of
     RunSucceeded \<Rightarrow> Some Done
   | RunCancelled \<Rightarrow> Some Done
   | RunWaiting _ \<Rightarrow> Some Wait
   | RunRunning \<Rightarrow>
       (let step = fr_cursor r in
        case map_option sr_state (nth_opt (fr_steps r) step) of
          Some st \<Rightarrow>
            if st = Queued \<or> st = Failed then
              map_option (\<lambda>k. case k of
                  StepAgent _ \<Rightarrow> StartAgent step
                | StepRun _ \<Rightarrow> RunCommand step
                | StepGitHub _ \<Rightarrow> RunGitHub step
                | StepParallel _ \<Rightarrow> StartParallel step
                | StepGate _ \<Rightarrow> Wait
                | StepBranch _ \<Rightarrow> Wait) (kind_at r step)
            else Some Wait
        | None \<Rightarrow> Some Wait))"

definition started :: "step_run \<Rightarrow> step_run" where
  "started s = s\<lparr>sr_state := Running, sr_attempts := sr_attempts s + 1, sr_submission := None,
     sr_criteria := [], sr_note := None\<rparr>"

definition step_started :: "nat \<Rightarrow> flow_run \<Rightarrow> flow_run" where
  "step_started step r = (case upd_step step started r of Some r' \<Rightarrow> r' | None \<Rightarrow> r)"

definition pass_step :: "run_env \<Rightarrow> nat \<Rightarrow> string option \<Rightarrow> flow_run \<Rightarrow> flow_run option" where
  "pass_step E step note r =
     Option.bind (upd_step step (\<lambda>s. s\<lparr>sr_state := Passed,
       sr_note := (if note \<noteq> None then note else sr_note s)\<rparr>) r) (\<lambda>r.
     enter_cursor E (r\<lparr>fr_retries := bt_remove step (fr_retries r), fr_cursor := step + 1\<rparr>))"

definition target_label :: "run_env \<Rightarrow> nat \<Rightarrow> flow_run \<Rightarrow> string option" where
  "target_label E step r = map_option (\<lambda>k. case k of
     StepAgent a \<Rightarrow> ''/'' @ as_agent a
   | StepGate _ \<Rightarrow> translate (env_i18n E) ''flows.step.gate''
   | StepRun c \<Rightarrow> rs_command c
   | StepGitHub g \<Rightarrow> github_action_label (env_i18n E) (gh_action g)
   | StepBranch _ \<Rightarrow> translate (env_i18n E) ''flows.step.branch''
   | StepParallel _ \<Rightarrow> translate (env_i18n E) ''flows.step.parallel'') (kind_at r step)"

definition exhaust :: "run_env \<Rightarrow> nat \<Rightarrow> string \<Rightarrow> string \<Rightarrow> flow_run \<Rightarrow> flow_run option" where
  "exhaust E step label reason r =
     Option.bind (upd_step step (\<lambda>s. s\<lparr>sr_state := WaitingForYou,
       sr_note := Some (translate (env_i18n E) ''flows.run.note_failed'')\<rparr>) r) (\<lambda>r.
     Some ((log_event E EvFailed (translate (env_i18n E) ''flows.run.waiting_title'')
         (translate_with (env_i18n E) ''flows.run.exhausted_message'' [(''label'', label), (''reason'', reason)])
         (Some step) r)\<lparr>fr_state := RunWaiting (WaitExhausted step reason)\<rparr>))"

text \<open>\<open>entry(step).or_default()\<close>: the counter, zero when the step has none yet.\<close>

definition counter :: "(nat, u8) btree \<Rightarrow> nat \<Rightarrow> u8" where
  "counter m step = (case bt_get m step of Some n \<Rightarrow> n | None \<Rightarrow> 0)"

definition u8_text :: "u8 \<Rightarrow> string" where
  "u8_text n = nat_to_string (unat n)"

definition retry_step :: "run_env \<Rightarrow> nat \<Rightarrow> string \<Rightarrow> string \<Rightarrow> u8 \<Rightarrow> flow_run \<Rightarrow> flow_run option" where
  "retry_step E step label reason m r =
     (let L = env_i18n E; taken = counter (fr_retries r) step;
          r = r\<lparr>fr_retries := bt_insert step taken (fr_retries r)\<rparr> in
      if taken \<ge> m then exhaust E step label reason r
      else
        let count = taken + 1 in
        Option.bind (upd_step step (\<lambda>s. s\<lparr>sr_state := Failed, sr_feedback := Some reason,
          sr_note := Some (translate_with L ''flows.run.note_retrying''
            [(''count'', u8_text count), (''max'', u8_text m)])\<rparr>)
          (r\<lparr>fr_retries := bt_insert step count (fr_retries r)\<rparr>)) (\<lambda>r.
        Some ((log_event E EvBack
            (translate_with L ''flows.run.retrying_title'' [(''label'', label)])
            (translate_with L ''flows.run.retrying_message''
              [(''count'', u8_text count), (''max'', u8_text m), (''reason'', reason)])
            (Some step) r)\<lparr>fr_cursor := step, fr_state := RunRunning\<rparr>)))"

text \<open>The arrow of the title is written with ASCII characters.\<close>

definition back_step ::
  "run_env \<Rightarrow> nat \<Rightarrow> string \<Rightarrow> string \<Rightarrow> string \<Rightarrow> u8 \<Rightarrow> flow_run \<Rightarrow> flow_run option" where
  "back_step E step label reason target m r =
     (let L = env_i18n E in
      case step_index (fr_flow r) target of
        None \<Rightarrow> exhaust E step label reason r
      | Some target_index \<Rightarrow>
          (let taken = counter (fr_backs r) step;
               r = r\<lparr>fr_backs := bt_insert step taken (fr_backs r)\<rparr> in
           if taken \<ge> m then exhaust E step label reason r
           else
             let count = taken + 1 in
             Option.bind (upd_step step (\<lambda>s. s\<lparr>sr_state := Failed,
               sr_note := Some (translate_with L ''flows.run.note_back''
                 [(''count'', u8_text count), (''max'', u8_text m)])\<rparr>)
               (r\<lparr>fr_backs := bt_insert step count (fr_backs r)\<rparr>)) (\<lambda>r.
             Option.bind (set_states Queued [target_index..<step] r) (\<lambda>r.
             Option.bind (upd_step target_index (\<lambda>s. s\<lparr>sr_feedback := Some reason\<rparr>) r) (\<lambda>r.
             Option.bind (target_label E target_index r) (\<lambda>to_label.
             Some ((log_event E EvBack (label @ '' -> '' @ to_label)
                 (translate_with L ''flows.run.back_message''
                   [(''count'', u8_text count), (''max'', u8_text m), (''reason'', reason)])
                 (Some step) r)\<lparr>fr_cursor := target_index, fr_state := RunRunning\<rparr>)))))))"

definition fail_step :: "run_env \<Rightarrow> nat \<Rightarrow> string \<Rightarrow> string \<Rightarrow> flow_run \<Rightarrow> flow_run option" where
  "fail_step E step label reason r =
     Option.bind (kind_at r step) (\<lambda>k. case on_fail_of k of
       Continue \<Rightarrow> pass_step E step (Some (translate (env_i18n E) ''flows.run.note_continued'')) r
     | Retry m \<Rightarrow> retry_step E step label reason m r
     | BackTo target m \<Rightarrow> back_step E step label reason target m r
     | AskYou \<Rightarrow> exhaust E step label reason r)"

section \<open>What the runner reports\<close>

definition delivered_message :: "run_env \<Rightarrow> submission \<Rightarrow> string" where
  "delivered_message E sub =
     (if sub_outputs sub = [] then sub_summary sub
      else translate_with (env_i18n E) ''flows.run.delivered''
        [(''outputs'', str_join '' + '' (bt_keys (sub_outputs sub)))])"

definition submission_default :: submission where
  "submission_default = \<lparr>sub_summary = [], sub_outputs = [], sub_self_checks = []\<rparr>"

definition merge_submission :: "string \<Rightarrow> submission \<Rightarrow> submission \<Rightarrow> submission" where
  "merge_submission branch sub merged = merged
     \<lparr>sub_summary :=
        (if sub_summary sub = [] then sub_summary merged
         else (if sub_summary merged = [] then [] else sub_summary merged @ [newline])
           @ branch @ '': '' @ sub_summary sub),
      sub_outputs := bt_extend (sub_outputs merged) (sub_outputs sub)\<rparr>"

fun merge_results ::
  "run_env \<Rightarrow> nat \<Rightarrow> (string \<times> (string + submission)) list \<Rightarrow> submission \<Rightarrow> string list \<Rightarrow> flow_run
     \<Rightarrow> submission \<times> string list \<times> flow_run" where
  "merge_results E step [] merged failures r = (merged, failures, r)"
| "merge_results E step ((branch, result) # results) merged failures r = (case result of
     Inr sub \<Rightarrow> merge_results E step results (merge_submission branch sub merged) failures
       (log_event E EvDelivered (step_title E step branch) (delivered_message E sub) (Some step) r)
   | Inl reason \<Rightarrow> merge_results E step results merged (failures @ [branch @ '': '' @ reason]) r)"

definition parallel_finished ::
  "run_env \<Rightarrow> nat \<Rightarrow> string \<Rightarrow> (string \<times> (string + submission)) list \<Rightarrow> flow_run \<Rightarrow> flow_run option" where
  "parallel_finished E step label results r =
     (let (merged, failures, r) = merge_results E step results submission_default [] r in
      Option.bind (upd_step step (\<lambda>s. s\<lparr>sr_submission := Some merged\<rparr>) r) (\<lambda>r.
      if failures = [] then pass_step E step None r
      else fail_step E step label (str_join ''; '' failures) r))"

text \<open>\<open>criterion\<close>: the outer option is the panic of the index, the inner one the result.\<close>

definition criterion_at :: "flow_run \<Rightarrow> nat \<Rightarrow> nat \<Rightarrow> criterion option option" where
  "criterion_at r step index = map_option (\<lambda>k. case k of
     StepAgent a \<Rightarrow> nth_opt (as_criteria a) index
   | _ \<Rightarrow> None) (kind_at r step)"

fun filter_map_p :: "('a \<Rightarrow> 'b option option) \<Rightarrow> 'a list \<Rightarrow> 'b list option" where
  "filter_map_p g [] = Some []"
| "filter_map_p g (x # xs) = Option.bind (g x) (\<lambda>m. Option.bind (filter_map_p g xs) (\<lambda>ys.
     Some (case m of Some y \<Rightarrow> y # ys | None \<Rightarrow> ys)))"

definition mark_last_criteria :: "flow_run \<Rightarrow> flow_run" where
  "mark_last_criteria r =
     (if fr_events r = [] then r
      else r\<lparr>fr_events := butlast (fr_events r) @ [(last (fr_events r))\<lparr>ev_criteria := True\<rparr>]\<rparr>)"

definition settle_criteria :: "run_env \<Rightarrow> nat \<Rightarrow> string \<Rightarrow> flow_run \<Rightarrow> flow_run option" where
  "settle_criteria E step label r =
     Option.bind (step_at r step) (\<lambda>run.
     let results = sr_criteria run;
         passed = length (filter (\<lambda>c. cr_outcome c = OutcomePassed) results) in
     Option.bind (filter_map_p (\<lambda>c. criterion_at r step (cr_index c))
       (filter (\<lambda>c. cr_outcome c = OutcomeFailed) results)) (\<lambda>failed.
     let failed_required = map crit_text (filter crit_required failed);
         with_you = map cr_index (filter (\<lambda>c. cr_outcome c = OutcomeWithYou) results);
         r = (if results = [] then r
              else mark_last_criteria (log_event E (if failed_required = [] then EvVerified else EvFailed)
                (translate_with (env_i18n E) ''flows.run.criteria_title'' [(''label'', label)])
                (translate_with (env_i18n E) ''flows.run.criteria_checked''
                  [(''passed'', nat_to_string passed), (''total'', nat_to_string (length results))])
                (Some step) r)) in
     if failed_required \<noteq> [] then fail_step E step label (str_join ''; '' failed_required) r
     else if with_you \<noteq> [] then
       Option.bind (upd_step step (\<lambda>s. s\<lparr>sr_state := WaitingForYou\<rparr>) r) (\<lambda>r.
       Some (r\<lparr>fr_state := RunWaiting (WaitCriteria step with_you)\<rparr>))
     else pass_step E step None r))"

text \<open>The first result of each criterion, and the criteria the runner verifies.\<close>

definition initial_result :: "run_env \<Rightarrow> submission \<Rightarrow> nat \<Rightarrow> criterion \<Rightarrow> criterion_result" where
  "initial_result E sub index c = (let L = env_i18n E in case crit_verify c of
     SelfCheck \<Rightarrow> (case bt_get (sub_self_checks sub) index of
         Some (passed, note) \<Rightarrow> \<lparr>cr_index = index,
           cr_outcome = (if passed then OutcomePassed else OutcomeFailed),
           cr_evidence = (if note = [] then translate L ''flows.run.evidence_self_check'' else note)\<rparr>
       | None \<Rightarrow> \<lparr>cr_index = index, cr_outcome = OutcomeFailed,
           cr_evidence = translate L ''flows.run.evidence_self_check_missing''\<rparr>)
   | You \<Rightarrow> \<lparr>cr_index = index, cr_outcome = OutcomeWithYou,
       cr_evidence = translate L ''flows.run.evidence_with_you''\<rparr>
   | _ \<Rightarrow> \<lparr>cr_index = index, cr_outcome = OutcomeWithYou,
       cr_evidence = translate L ''flows.run.evidence_verifying''\<rparr>)"

definition external_criteria :: "criterion list \<Rightarrow> (nat \<times> verifier) list" where
  "external_criteria cs = List.map_filter (\<lambda>(i, c). case crit_verify c of
     VerifyAgent _ \<Rightarrow> Some (i, crit_verify c)
   | VerifyCommand _ \<Rightarrow> Some (i, crit_verify c)
   | _ \<Rightarrow> None) (enumerate 0 cs)"

definition agent_submitted ::
  "run_env \<Rightarrow> nat \<Rightarrow> string \<Rightarrow> submission \<Rightarrow> flow_run \<Rightarrow> (flow_run \<times> (nat \<times> verifier) list) option" where
  "agent_submitted E step label sub r =
     Option.bind (kind_at r step) (\<lambda>k. case k of
       StepAgent a \<Rightarrow>
         (let external = external_criteria (as_criteria a) in
          Option.bind (upd_step step (\<lambda>s. s\<lparr>sr_state := Verifying, sr_feedback := None,
              sr_criteria := map (\<lambda>(i, c). initial_result E sub i c) (enumerate 0 (as_criteria a)),
              sr_submission := Some sub\<rparr>)
            (log_event E EvDelivered (step_title E step label) (delivered_message E sub) (Some step) r)) (\<lambda>r.
          if external = [] then map_option (\<lambda>r. (r, external)) (settle_criteria E step label r)
          else Some (r, external)))
     | _ \<Rightarrow> Some (r, []))"

text \<open>\<open>find\<close> on the mutable results, then the assignment through it.\<close>

fun replace_first :: "('a \<Rightarrow> bool) \<Rightarrow> ('a \<Rightarrow> 'a) \<Rightarrow> 'a list \<Rightarrow> 'a list" where
  "replace_first p g [] = []"
| "replace_first p g (x # xs) = (if p x then g x # xs else x # replace_first p g xs)"

definition put_result :: "criterion_result \<Rightarrow> criterion_result list \<Rightarrow> criterion_result list" where
  "put_result c cs = replace_first (\<lambda>x. cr_index x = cr_index c) (\<lambda>_. c) cs"

definition criteria_verified ::
  "run_env \<Rightarrow> nat \<Rightarrow> string \<Rightarrow> criterion_result list \<Rightarrow> flow_run \<Rightarrow> flow_run option" where
  "criteria_verified E step label results r =
     Option.bind (upd_step step (\<lambda>s. s\<lparr>sr_criteria := fold put_result results (sr_criteria s)\<rparr>) r)
       (settle_criteria E step label)"

definition step_errored :: "run_env \<Rightarrow> nat \<Rightarrow> string \<Rightarrow> string \<Rightarrow> flow_run \<Rightarrow> flow_run option" where
  "step_errored E step label error r = fail_step E step label error r"

definition command_finished :: "run_env \<Rightarrow> nat \<Rightarrow> bool \<Rightarrow> string \<Rightarrow> flow_run \<Rightarrow> flow_run option" where
  "command_finished E step passed evidence r =
     Option.bind (target_label E step r) (\<lambda>label.
     let title = step_title E step label in
     if passed then pass_step E step (Some evidence) (log_event E EvDelivered title evidence (Some step) r)
     else fail_step E step label evidence (log_event E EvFailed title evidence (Some step) r))"

definition github_finished ::
  "run_env \<Rightarrow> nat \<Rightarrow> bool \<Rightarrow> string \<Rightarrow> (string, string) btree \<Rightarrow> flow_run \<Rightarrow> flow_run option" where
  "github_finished E step passed evidence outputs r =
     command_finished E step passed evidence
       (case upd_step step (\<lambda>s. s\<lparr>sr_submission := Some
           \<lparr>sub_summary = evidence, sub_outputs = outputs, sub_self_checks = []\<rparr>\<rparr>) r of
          Some r' \<Rightarrow> r' | None \<Rightarrow> r)"

section \<open>What the user answers\<close>

definition cancel :: "run_env \<Rightarrow> string \<Rightarrow> flow_run \<Rightarrow> flow_run" where
  "cancel E reason r =
     (if is_finished r then r
      else log_event E EvStopped (translate (env_i18n E) ''flows.run.stopped_title'') reason None
        (r\<lparr>fr_state := RunCancelled\<rparr>))"

text \<open>The last agent step before the gate. The gate's own index was read just before, so the
  earlier ones are in range.\<close>

definition last_agent_before :: "flow_run \<Rightarrow> nat \<Rightarrow> nat option" where
  "last_agent_before r step =
     List.find (\<lambda>i. is_agent_kind (step_kind (flow_steps (fr_flow r) ! i))) (rev [0..<step])"

definition adjust_target :: "flow_run \<Rightarrow> nat \<Rightarrow> step_kind \<Rightarrow> nat option" where
  "adjust_target r step k =
     (case (case k of StepGate g \<Rightarrow> Option.bind (gate_adjust_to g) (step_index (fr_flow r)) | _ \<Rightarrow> None) of
        Some target \<Rightarrow> Some target
      | None \<Rightarrow> last_agent_before r step)"

definition adjust_default_note :: string where
  "adjust_default_note = ''Voc'' @ [CHR 0xEA] @ '' pediu um ajuste sem detalhar; revise o que entregou.''"

definition answer_gate :: "run_env \<Rightarrow> bool \<Rightarrow> string \<Rightarrow> flow_run \<Rightarrow> flow_run option" where
  "answer_gate E approve note r = (let L = env_i18n E in case fr_state r of
     RunWaiting (WaitGate step) \<Rightarrow>
       Option.bind (kind_at r step) (\<lambda>k.
       if approve then
         (let message = (case k of StepGate g \<Rightarrow> gate_note g | _ \<Rightarrow> []) in
          pass_step E step (Some (translate L ''flows.run.note_approved''))
            (log_event E EvYou (translate L ''flows.run.approved_title'') message (Some step) r))
       else (case adjust_target r step k of
         None \<Rightarrow> Some (cancel E (translate L ''flows.run.cancel_no_step_to_adjust'') r)
       | Some target \<Rightarrow>
           Option.bind (set_states Queued [target..<step + 1] r) (\<lambda>r.
           let note = trim note in
           Option.bind (upd_step target (\<lambda>s. s\<lparr>sr_feedback :=
             Some (if note = [] then adjust_default_note else note)\<rparr>) r) (\<lambda>r.
           Option.bind (target_label E target r) (\<lambda>label.
           Some ((log_event E EvBack (translate_with L ''flows.run.adjust_title'' [(''label'', label)])
               (if note = [] then translate L ''flows.run.adjust_no_text'' else note) (Some step) r)
             \<lparr>fr_cursor := target, fr_state := RunRunning\<rparr>))))))
   | _ \<Rightarrow> Some r)"

definition answer_result :: "run_env \<Rightarrow> bool \<Rightarrow> nat \<Rightarrow> criterion_result list \<Rightarrow> criterion_result list" where
  "answer_result E accept index cs = replace_first (\<lambda>c. cr_index c = index) (\<lambda>c. c
     \<lparr>cr_outcome := (if accept then OutcomePassed else OutcomeFailed),
      cr_evidence := (if accept then translate (env_i18n E) ''flows.run.evidence_accepted''
        else translate (env_i18n E) ''flows.run.evidence_refused'')\<rparr>) cs"

definition answer_criteria :: "run_env \<Rightarrow> nat \<Rightarrow> string \<Rightarrow> bool \<Rightarrow> flow_run \<Rightarrow> flow_run option" where
  "answer_criteria E step label accept r = (let L = env_i18n E in case fr_state r of
     RunWaiting (WaitCriteria waiting_step criteria) \<Rightarrow>
       if waiting_step \<noteq> step then Some r
       else
         Option.bind (if criteria = [] then Some r
           else upd_step step (\<lambda>s. s\<lparr>sr_criteria := fold (answer_result E accept) criteria (sr_criteria s)\<rparr>) r) (\<lambda>r.
         if accept then
           pass_step E step None
             ((log_event E EvYou (translate L ''flows.run.accepted_title'') label (Some step) r)
               \<lparr>fr_state := RunRunning\<rparr>)
         else
           Option.bind (filter_map_p (criterion_at r step) criteria) (\<lambda>refused.
           let texts = map crit_text refused;
               r = (log_event E EvBack (translate_with L ''flows.run.redo_requested_title'' [(''label'', label)])
                 (str_join ''; '' texts) (Some step) r)\<lparr>fr_state := RunRunning\<rparr> in
           if \<exists>c\<in>set refused. crit_required c then fail_step E step label (str_join ''; '' texts) r
           else
             Option.bind (upd_step step (\<lambda>s. s\<lparr>sr_state := Failed,
               sr_feedback := Some (str_join ''; '' texts)\<rparr>) r) (\<lambda>r.
             Some (r\<lparr>fr_cursor := step\<rparr>))))
   | _ \<Rightarrow> Some r)"

definition answer_exhausted :: "run_env \<Rightarrow> bool \<Rightarrow> flow_run \<Rightarrow> flow_run option" where
  "answer_exhausted E retry r = (case fr_state r of
     RunWaiting (WaitExhausted step reason) \<Rightarrow>
       if retry then
         Option.bind (upd_step step (\<lambda>s. s\<lparr>sr_state := Failed, sr_feedback := Some reason\<rparr>)
           (r\<lparr>fr_retries := bt_remove step (fr_retries r), fr_backs := bt_remove step (fr_backs r)\<rparr>)) (\<lambda>r.
         Some ((log_event E EvYou (translate (env_i18n E) ''flows.run.redo_ordered_title'') [] (Some step) r)
           \<lparr>fr_cursor := step, fr_state := RunRunning\<rparr>))
       else Some (cancel E (translate (env_i18n E) ''flows.run.cancel_after_failure'') r)
   | _ \<Rightarrow> Some r)"

section \<open>Rules for the building blocks\<close>

lemma wp_upd_step [wp_simps]:
  "wp (upd_step i g r) P \<longleftrightarrow>
     i < length (fr_steps r) \<and> P (r\<lparr>fr_steps := (fr_steps r)[i := g (fr_steps r ! i)]\<rparr>)"
  by (simp add: upd_step_def)

lemma wp_kind_at [wp_simps]:
  "wp (kind_at r i) P \<longleftrightarrow>
     i < length (flow_steps (fr_flow r)) \<and> P (step_kind (flow_steps (fr_flow r) ! i))"
  by (simp add: kind_at_def wp_nth_opt)

lemma wp_step_at [wp_simps]: "wp (step_at r i) P \<longleftrightarrow> i < length (fr_steps r) \<and> P (fr_steps r ! i)"
  by (simp add: step_at_def wp_nth_opt)

definition mark_states :: "step_state \<Rightarrow> nat set \<Rightarrow> step_run list \<Rightarrow> step_run list" where
  "mark_states st I steps = map (\<lambda>(i, s). if i \<in> I then s\<lparr>sr_state := st\<rparr> else s) (enumerate 0 steps)"

lemma length_mark_states [simp]: "length (mark_states st I steps) = length steps"
  by (simp add: mark_states_def)

lemma nth_mark_states [simp]:
  "i < length steps \<Longrightarrow>
     mark_states st I steps ! i = (if i \<in> I then (steps ! i)\<lparr>sr_state := st\<rparr> else steps ! i)"
  by (simp add: mark_states_def nth_enumerate_eq)

lemma set_states_eq:
  "(\<forall>i\<in>set is. i < length (fr_steps r)) \<Longrightarrow>
     set_states st is r = Some (r\<lparr>fr_steps := mark_states st (set is) (fr_steps r)\<rparr>)"
proof (induction "is" arbitrary: r)
  case Nil
  have "mark_states st {} (fr_steps r) = fr_steps r" by (rule nth_equalityI) simp_all
  then show ?case by simp
next
  case (Cons i "is")
  let ?r = "r\<lparr>fr_steps := (fr_steps r)[i := (fr_steps r ! i)\<lparr>sr_state := st\<rparr>]\<rparr>"
  have "mark_states st (set is) (fr_steps ?r) = mark_states st (set (i # is)) (fr_steps r)"
    using Cons.prems by (intro nth_equalityI) (auto simp: nth_list_update)
  with Cons show ?case by (simp add: upd_step_def)
qed

lemma wp_set_states [wp_simps]:
  "b \<le> length (fr_steps r) \<Longrightarrow>
     wp (set_states st [a..<b] r) P \<longleftrightarrow> P (r\<lparr>fr_steps := mark_states st {a..<b} (fr_steps r)\<rparr>)"
  by (simp add: set_states_eq)

lemma counter_insert [simp]: "counter (bt_insert k v m) j = (if j = k then v else counter m j)"
  by (simp add: counter_def)

lemma counter_remove [simp]: "counter (bt_remove k m) j = (if j = k then 0 else counter m j)"
  by (simp add: counter_def)

lemma counter_Nil [simp]: "counter [] j = 0"
  by (simp add: counter_def)

section \<open>The invariant of a run\<close>

definition done_state :: "step_state \<Rightarrow> bool" where
  "done_state st = (st = Passed \<or> st = Skipped)"

definition todo_state :: "step_state \<Rightarrow> bool" where
  "todo_state st = (st = Queued \<or> st = Failed)"

lemma done_todo_simps [simp]:
  "done_state Passed" "done_state Skipped" "\<not> done_state Queued" "\<not> done_state Failed"
  "\<not> done_state Running" "\<not> done_state Verifying" "\<not> done_state WaitingForYou"
  "todo_state Queued" "todo_state Failed" "\<not> todo_state Passed" "\<not> todo_state Skipped"
  "\<not> todo_state Running" "\<not> todo_state Verifying" "\<not> todo_state WaitingForYou"
  by (simp_all add: done_state_def todo_state_def)

definition work_kind :: "step_kind \<Rightarrow> bool" where
  "work_kind k = (case k of StepGate _ \<Rightarrow> False | StepBranch _ \<Rightarrow> False | _ \<Rightarrow> True)"

text \<open>What a flow that validates gives the run: whatever goes back goes to an earlier step, and a
  step that goes back on failure goes to an agent; and a step that continues on failure has no
  required criterion. A gate may name any earlier step to adjust;
  \<open>adjust_work\<close> says that it names one that does work.\<close>

definition flow_sound :: "flow \<Rightarrow> bool" where
  "flow_sound f = (\<forall>i<length (flow_steps f).
     (\<forall>t m. on_fail_of (step_kind (flow_steps f ! i)) = BackTo t m \<longrightarrow>
        (\<exists>j<i. step_index f t = Some j \<and> is_agent_kind (step_kind (flow_steps f ! j)))) \<and>
     (\<forall>g t. step_kind (flow_steps f ! i) = StepGate g \<longrightarrow> gate_adjust_to g = Some t \<longrightarrow>
        (\<exists>j<i. step_index f t = Some j)) \<and>
     (\<forall>a c. step_kind (flow_steps f ! i) = StepAgent a \<longrightarrow> as_on_fail a = Continue \<longrightarrow>
        c \<in> set (as_criteria a) \<longrightarrow> \<not> crit_required c))"

definition adjust_work :: "flow \<Rightarrow> bool" where
  "adjust_work f = list_all (\<lambda>s. case step_kind s of
     StepGate g \<Rightarrow> (case Option.bind (gate_adjust_to g) (step_index f) of
         Some j \<Rightarrow> work_kind (step_kind (flow_steps f ! j))
       | None \<Rightarrow> True)
   | _ \<Rightarrow> True) (flow_steps f)"

lemma flow_sound_back:
  "flow_sound f \<Longrightarrow> i < length (flow_steps f) \<Longrightarrow> on_fail_of (step_kind (flow_steps f ! i)) = BackTo t m \<Longrightarrow>
     \<exists>j<i. step_index f t = Some j \<and> is_agent_kind (step_kind (flow_steps f ! j))"
  unfolding flow_sound_def by blast

lemma flow_sound_adjust:
  "flow_sound f \<Longrightarrow> i < length (flow_steps f) \<Longrightarrow> step_kind (flow_steps f ! i) = StepGate g \<Longrightarrow>
     gate_adjust_to g = Some t \<Longrightarrow> \<exists>j<i. step_index f t = Some j"
  unfolding flow_sound_def by blast

lemma flow_sound_continue:
  "flow_sound f \<Longrightarrow> i < length (flow_steps f) \<Longrightarrow> step_kind (flow_steps f ! i) = StepAgent a \<Longrightarrow>
     as_on_fail a = Continue \<Longrightarrow> c \<in> set (as_criteria a) \<Longrightarrow> \<not> crit_required c"
  unfolding flow_sound_def by blast

lemma validate_flow_flow_sound: "validate_flow L f agents = [] \<Longrightarrow> flow_sound f"
  unfolding flow_sound_def using valid_back_to valid_adjust_to valid_continue by blast

text \<open>The results of the required criteria of an agent step that does not continue on failure.\<close>

definition required_passed :: "agent_step \<Rightarrow> criterion_result list \<Rightarrow> bool" where
  "required_passed a cs = (\<forall>i<length (as_criteria a). crit_required (as_criteria a ! i) \<longrightarrow>
     (\<exists>c\<in>set cs. cr_index c = i \<and> cr_outcome c = OutcomePassed))"

definition quality_ok :: "step_kind \<Rightarrow> criterion_result list \<Rightarrow> bool" where
  "quality_ok k cs = (\<forall>a. k = StepAgent a \<longrightarrow> as_on_fail a \<noteq> Continue \<longrightarrow> required_passed a cs)"

definition results_complete :: "step_kind \<Rightarrow> criterion_result list \<Rightarrow> bool" where
  "results_complete k cs = (\<exists>a. k = StepAgent a \<and> map cr_index cs = [0..<length (as_criteria a)])"

definition step_ok :: "step_kind \<Rightarrow> step_run \<Rightarrow> bool" where
  "step_ok k s = ((sr_state s = Passed \<longrightarrow> quality_ok k (sr_criteria s)) \<and>
     (sr_state s = Verifying \<longrightarrow> results_complete k (sr_criteria s)))"

text \<open>The shape of a run at step \<open>c\<close>: the steps before it are done, the ones after it are still to
  do, and every step is in order.\<close>

definition shape :: "flow \<Rightarrow> nat \<Rightarrow> step_run list \<Rightarrow> bool" where
  "shape f c steps = (length steps = length (flow_steps f) \<and>
     (\<forall>i<length steps. step_ok (step_kind (flow_steps f ! i)) (steps ! i) \<and>
        (i < c \<longrightarrow> done_state (sr_state (steps ! i))) \<and>
        (c < i \<longrightarrow> todo_state (sr_state (steps ! i)))))"

definition no_required_failed :: "step_kind \<Rightarrow> criterion_result list \<Rightarrow> bool" where
  "no_required_failed k cs = (\<forall>a. k = StepAgent a \<longrightarrow>
     (\<forall>c\<in>set cs. cr_outcome c = OutcomeFailed \<longrightarrow> \<not> crit_required (as_criteria a ! cr_index c)))"

definition with_you :: "criterion_result list \<Rightarrow> nat list" where
  "with_you cs = map cr_index (filter (\<lambda>c. cr_outcome c = OutcomeWithYou) cs)"

definition state_ok :: "flow \<Rightarrow> nat \<Rightarrow> step_run list \<Rightarrow> run_state \<Rightarrow> bool" where
  "state_ok f c steps st = (let k = step_kind (flow_steps f ! c); s = steps ! c in case st of
     RunRunning \<Rightarrow> c < length (flow_steps f) \<and> (adjust_work f \<longrightarrow> work_kind k) \<and>
       (todo_state (sr_state s) \<or> sr_state s = Running \<or> sr_state s = Verifying)
   | RunWaiting (WaitGate i) \<Rightarrow> i = c \<and> c < length (flow_steps f) \<and> \<not> work_kind k \<and> sr_state s = WaitingForYou
   | RunWaiting (WaitCriteria i cs) \<Rightarrow> i = c \<and> c < length (flow_steps f) \<and> sr_state s = WaitingForYou \<and>
       results_complete k (sr_criteria s) \<and> no_required_failed k (sr_criteria s) \<and>
       cs = with_you (sr_criteria s) \<and> cs \<noteq> []
   | RunWaiting (WaitExhausted i _) \<Rightarrow> i = c \<and> c < length (flow_steps f) \<and> work_kind k \<and> sr_state s = WaitingForYou
   | RunSucceeded \<Rightarrow> c = length (flow_steps f)
   | RunCancelled \<Rightarrow> c \<le> length (flow_steps f))"

definition counters_ok :: "flow_run \<Rightarrow> bool" where
  "counters_ok r = (\<forall>i<length (flow_steps (fr_flow r)).
     (\<forall>m. on_fail_of (step_kind (flow_steps (fr_flow r) ! i)) = Retry m \<longrightarrow> counter (fr_retries r) i \<le> m) \<and>
     (\<forall>t m. on_fail_of (step_kind (flow_steps (fr_flow r) ! i)) = BackTo t m \<longrightarrow> counter (fr_backs r) i \<le> m))"

definition run_inv :: "flow_run \<Rightarrow> bool" where
  "run_inv r = (flow_sound (fr_flow r) \<and> counters_ok r \<and>
     shape (fr_flow r) (fr_cursor r) (fr_steps r) \<and>
     state_ok (fr_flow r) (fr_cursor r) (fr_steps r) (fr_state r))"

lemma work_kind_agent: "is_agent_kind k \<Longrightarrow> work_kind k"
  by (auto simp: is_agent_kind_def work_kind_def split: step_kind.splits)

lemma step_ok_simps [simp]:
  "sr_state s \<noteq> Passed \<Longrightarrow> sr_state s \<noteq> Verifying \<Longrightarrow> step_ok k s"
  by (simp add: step_ok_def)

lemma shape_length: "shape f c steps \<Longrightarrow> length steps = length (flow_steps f)"
  by (simp add: shape_def)

lemma shape_update:
  "shape f c steps \<Longrightarrow> step_ok (step_kind (flow_steps f ! c)) s \<Longrightarrow> shape f c (steps[c := s])"
  by (auto simp: shape_def nth_update)

lemma shape_advance:
  assumes "shape f c steps" "done_state (sr_state s)" "step_ok (step_kind (flow_steps f ! c)) s"
  shows "shape f (Suc c) (steps[c := s])"
  using assms by (auto simp: shape_def nth_update less_Suc_eq)

lemma shape_next_todo:
  "shape f c steps \<Longrightarrow> Suc c < length (flow_steps f) \<Longrightarrow> todo_state (sr_state (steps[c := s] ! Suc c))"
  by (simp add: shape_def)

lemma shape_back:
  assumes "shape f c steps" "t \<le> c" "c \<le> b" "todo_state (sr_state (steps ! c)) \<or> c < b"
  shows "shape f t (mark_states Queued {t..<b} steps)"
  using assms by (auto simp: shape_def) (metis le_eq_less_or_eq not_less order.trans)

lemma shape_skip:
  assumes "shape f c steps" "c < t" "done_state (sr_state s)" "step_ok (step_kind (flow_steps f ! c)) s"
  shows "shape f t (mark_states Skipped {Suc c..<t} (steps[c := s]))"
  using assms by (auto simp: shape_def nth_update less_Suc_eq)

text \<open>A decision leaves a run that keeps the invariant, the flow and the input, and that is ready for
  the runner: while it is running, the step at the cursor waits to be started.\<close>

definition ready :: "flow_run \<Rightarrow> bool" where
  "ready r = (fr_state r = RunRunning \<longrightarrow> todo_state (sr_state (fr_steps r ! fr_cursor r)))"

definition keeps :: "flow_run \<Rightarrow> flow_run \<Rightarrow> bool" where
  "keeps r r' = (run_inv r' \<and> ready r' \<and> fr_flow r' = fr_flow r \<and> fr_input r' = fr_input r)"

lemma keeps_cong: "fr_flow r = fr_flow s \<Longrightarrow> fr_input r = fr_input s \<Longrightarrow> keeps r = keeps s"
  by (simp add: keeps_def fun_eq_iff)

lemma counters_ok_cong:
  "counters_ok r \<Longrightarrow> fr_flow r' = fr_flow r \<Longrightarrow> fr_backs r' = fr_backs r \<Longrightarrow> fr_retries r' = fr_retries r
    \<Longrightarrow> counters_ok r'"
  by (simp add: counters_ok_def)

lemma branch_target_bound:
  "step < length (flow_steps (fr_flow r)) \<Longrightarrow> branch_target r step b \<le> length (flow_steps (fr_flow r))"
  by (auto simp: branch_target_def bind_eq_Some_conv split: option.splits dest!: step_index_bound)

lemma quality_ok_other: "\<not> is_agent_kind k \<Longrightarrow> quality_ok k cs"
  by (auto simp: quality_ok_def is_agent_kind_def)

lemma wp_take_branch:
  assumes "step < length (flow_steps (fr_flow r))" "length (fr_steps r) = length (flow_steps (fr_flow r))"
  shows "wp (take_branch E step b r) (\<lambda>r'. \<exists>n.
    fr_steps r' = mark_states Skipped {Suc step..<branch_target r step b}
      ((fr_steps r)[step := (fr_steps r ! step)\<lparr>sr_state := Passed, sr_note := n\<rparr>]) \<and>
    fr_cursor r' = branch_target r step b \<and> fr_flow r' = fr_flow r \<and> fr_input r' = fr_input r \<and>
    fr_backs r' = fr_backs r \<and> fr_retries r' = fr_retries r)"
  using assms branch_target_bound [OF assms(1), of b]
  by (auto simp: take_branch_def Let_def wp_simps intro!: exI)

lemma enter_cursor_work:
  "work_kind (step_kind (flow_steps (fr_flow r) ! fr_cursor r)) \<Longrightarrow> fr_cursor r < length (flow_steps (fr_flow r)) \<Longrightarrow>
     enter_cursor E r = Some (r\<lparr>fr_state := RunRunning\<rparr>)"
  by (subst enter_cursor.simps) (auto simp: work_kind_def split: step_kind.splits)

lemma enter_cursor_inv:
  assumes "flow_sound (fr_flow r)" "counters_ok r" "shape (fr_flow r) (fr_cursor r) (fr_steps r)"
    and "fr_cursor r \<le> length (flow_steps (fr_flow r))"
    and "fr_cursor r < length (flow_steps (fr_flow r)) \<longrightarrow> todo_state (sr_state (fr_steps r ! fr_cursor r))"
  shows "wp (enter_cursor E r) (keeps r)"
  using assms
proof (induction E r rule: enter_cursor.induct)
  case (1 E r)
  note len = shape_length [OF 1(4)]
  show ?case
  proof (cases "fr_cursor r < length (flow_steps (fr_flow r))")
    case False
    with 1 show ?thesis
      by (subst enter_cursor.simps)
        (auto simp: keeps_def ready_def run_inv_def state_ok_def intro: counters_ok_cong)
  next
    case True
    show ?thesis
    proof (cases "step_kind (flow_steps (fr_flow r) ! fr_cursor r)")
      case (StepGate g)
      with True 1 len show ?thesis
        by (subst enter_cursor.simps)
          (auto simp: enter_gate_def Let_def wp_simps keeps_def ready_def run_inv_def state_ok_def work_kind_def
            intro: counters_ok_cong shape_update)
    next
      case (StepBranch b)
      let ?t = "branch_target r (fr_cursor r) b"
      obtain r' n where r'n: "take_branch E (fr_cursor r) b r = Some r'"
        "fr_steps r' = mark_states Skipped {Suc (fr_cursor r)..<?t} ((fr_steps r)[fr_cursor r :=
          (fr_steps r ! fr_cursor r)\<lparr>sr_state := Passed, sr_note := n\<rparr>])"
        "fr_cursor r' = ?t" "fr_flow r' = fr_flow r" "fr_input r' = fr_input r"
        "fr_backs r' = fr_backs r" "fr_retries r' = fr_retries r"
        using wp_take_branch [OF True len, of E b] by (auto simp: wp_iff)
      define s where "s = (fr_steps r ! fr_cursor r)\<lparr>sr_state := Passed, sr_note := n\<rparr>"
      note r' = r'n(1) arg_cong [OF s_def, of sr_state, simplified] r'n(2) [folded s_def] r'n(3-)
      have ok: "step_ok (step_kind (flow_steps (fr_flow r) ! fr_cursor r)) s"
        using r'(2) StepBranch by (simp add: step_ok_def quality_ok_other is_agent_kind_def)
      have later: "fr_cursor r < ?t" "?t \<le> length (flow_steps (fr_flow r))"
        using branch_target_later branch_target_bound [OF True] by auto
      have sh: "shape (fr_flow r') (fr_cursor r') (fr_steps r')"
        unfolding r' using shape_skip [OF 1(4) later(1) _ ok] r'(2) by simp
      moreover have "fr_cursor r' < length (flow_steps (fr_flow r')) \<longrightarrow>
          todo_state (sr_state (fr_steps r' ! fr_cursor r'))"
        using 1(4) later len by (auto simp: r' nth_update shape_def)
      ultimately have "wp (enter_cursor E r') (keeps r')"
        using 1 True StepBranch r' later counters_ok_cong [of r r'] by auto
      then show ?thesis
        using True StepBranch r'(1,5,6)
        by (subst enter_cursor.simps) (auto simp: keeps_def elim: wp_mono)
    qed (use True 1 in \<open>auto simp: enter_cursor_work work_kind_def keeps_def ready_def run_inv_def state_ok_def
          intro: counters_ok_cong\<close>)
  qed
qed

lemma wp_pass_step:
  assumes "flow_sound (fr_flow r)" "counters_ok r" "shape (fr_flow r) step (fr_steps r)"
    and "step < length (flow_steps (fr_flow r))"
    and "quality_ok (step_kind (flow_steps (fr_flow r) ! step)) (sr_criteria (fr_steps r ! step))"
  shows "wp (pass_step E step note r) (keeps r)"
proof -
  let ?s = "(fr_steps r ! step)\<lparr>sr_state := Passed,
       sr_note := (if note \<noteq> None then note else sr_note (fr_steps r ! step))\<rparr>"
  let ?r = "r\<lparr>fr_steps := (fr_steps r)[step := ?s],
      fr_retries := bt_remove step (fr_retries r), fr_cursor := step + 1\<rparr>"
  have "wp (enter_cursor E ?r) (keeps ?r)"
  proof (rule enter_cursor_inv)
    show "counters_ok ?r" using assms(2) by (auto simp: counters_ok_def)
    show "shape (fr_flow ?r) (fr_cursor ?r) (fr_steps ?r)"
      using shape_advance [OF assms(3), of ?s] assms(5) by (simp add: step_ok_def)
  qed (use assms shape_next_todo [OF assms(3)] in auto)
  moreover have "pass_step E step note r = enter_cursor E ?r"
    using assms(4) shape_length [OF assms(3)] by (simp add: pass_step_def upd_step_def)
  moreover have "keeps ?r = keeps r" by (rule keeps_cong) simp_all
  ultimately show ?thesis by (simp only:)
qed

text \<open>A run whose step \<open>step\<close> is being decided: in order around it, with the cursor on it.\<close>

definition deciding :: "nat \<Rightarrow> flow_run \<Rightarrow> bool" where
  "deciding step r = (flow_sound (fr_flow r) \<and> counters_ok r \<and> shape (fr_flow r) step (fr_steps r) \<and>
     step < length (flow_steps (fr_flow r)) \<and> fr_cursor r = step)"

lemma deciding_length: "deciding step r \<Longrightarrow> length (fr_steps r) = length (flow_steps (fr_flow r))"
  by (simp add: deciding_def shape_def)

lemma deciding_log [simp]: "deciding step (log_event E k t m s r) = deciding step r"
  by (simp add: deciding_def counters_ok_def)

lemma deciding_update:
  "deciding step r \<Longrightarrow> step_ok (step_kind (flow_steps (fr_flow r) ! step)) s \<Longrightarrow>
     deciding step (r\<lparr>fr_steps := (fr_steps r)[step := s]\<rparr>)"
  by (auto simp: deciding_def counters_ok_def intro: shape_update)

lemma run_inv_deciding:
  "run_inv r \<Longrightarrow> fr_cursor r < length (flow_steps (fr_flow r)) \<Longrightarrow> deciding (fr_cursor r) r"
  by (simp add: run_inv_def deciding_def)

lemma wp_exhaust:
  assumes "deciding step r" "work_kind (step_kind (flow_steps (fr_flow r) ! step))"
  shows "wp (exhaust E step label reason r) (keeps r)"
proof -
  have "step < length (fr_steps r)" using assms deciding_length by (simp add: deciding_def)
  with assms show ?thesis
    by (auto simp: exhaust_def wp_simps keeps_def ready_def run_inv_def state_ok_def deciding_def
        intro: counters_ok_cong shape_update)
qed

lemma wp_retry_step:
  assumes "deciding step r" "work_kind (step_kind (flow_steps (fr_flow r) ! step))"
    and "on_fail_of (step_kind (flow_steps (fr_flow r) ! step)) = Retry m"
  shows "wp (retry_step E step label reason m r) (keeps r)"
proof (cases "counter (fr_retries r) step \<ge> m")
  case True
  let ?r = "r\<lparr>fr_retries := bt_insert step (counter (fr_retries r) step) (fr_retries r)\<rparr>"
  have "deciding step ?r"
    using assms(1) by (auto simp: deciding_def counters_ok_def)
  then have "wp (exhaust E step label reason ?r) (keeps ?r)"
    using assms(2) by (intro wp_exhaust) simp_all
  moreover have "keeps ?r = keeps r" by (rule keeps_cong) simp_all
  ultimately show ?thesis using True by (simp add: retry_step_def Let_def)
next
  case False
  let ?taken = "counter (fr_retries r) step"
  have le: "?taken + 1 \<le> m" using False by (simp add: inc_le)
  have "counters_ok (r\<lparr>fr_retries := bt_insert step (?taken + 1) rt\<rparr>)"
    if "\<And>j. j \<noteq> step \<Longrightarrow> counter rt j = counter (fr_retries r) j" for rt
    using assms that le by (auto simp: deciding_def counters_ok_def)
  with False assms deciding_length [OF assms(1)] show ?thesis
    by (auto simp: retry_step_def Let_def wp_simps keeps_def ready_def run_inv_def state_ok_def deciding_def
        counters_ok_def intro!: shape_update)
qed

lemma wp_back_step:
  assumes "deciding step r" "work_kind (step_kind (flow_steps (fr_flow r) ! step))"
    and "on_fail_of (step_kind (flow_steps (fr_flow r) ! step)) = BackTo target m"
  shows "wp (back_step E step label reason target m r) (keeps r)"
proof -
  obtain j where j: "j < step" "step_index (fr_flow r) target = Some j"
    "is_agent_kind (step_kind (flow_steps (fr_flow r) ! j))"
    using assms flow_sound_back [of "fr_flow r" step target m] by (auto simp: deciding_def)
  show ?thesis
  proof (cases "counter (fr_backs r) step \<ge> m")
    case True
    let ?r = "r\<lparr>fr_backs := bt_insert step (counter (fr_backs r) step) (fr_backs r)\<rparr>"
    have "deciding step ?r"
      using assms(1) by (auto simp: deciding_def counters_ok_def)
    then have "wp (exhaust E step label reason ?r) (keeps ?r)"
      using assms(2) by (intro wp_exhaust) simp_all
    moreover have "keeps ?r = keeps r" by (rule keeps_cong) simp_all
    ultimately show ?thesis using True j by (simp add: back_step_def Let_def)
  next
    case False
    let ?taken = "counter (fr_backs r) step"
    have le: "?taken + 1 \<le> m" using False by (simp add: inc_le)
    have len: "length (fr_steps r) = length (flow_steps (fr_flow r))" using assms(1) by (rule deciding_length)
    have sent: "shape (fr_flow r) j ((mark_states Queued {j..<step} ((fr_steps r)[step := s]))[j := u])"
      if "sr_state s = Failed" "sr_state u = Queued" for s u
    proof (rule shape_update)
      show "shape (fr_flow r) j (mark_states Queued {j..<step} ((fr_steps r)[step := s]))"
        using j assms(1) len that by (intro shape_back [of _ step]) (auto simp: deciding_def intro: shape_update)
    qed (simp add: that)
    have "step = fr_cursor r" using assms(1) by (simp add: deciding_def)
    note sent = sent [unfolded this]
    from False assms j le len work_kind_agent [OF j(3)] show ?thesis
      by (auto simp: back_step_def Let_def wp_simps keeps_def ready_def run_inv_def state_ok_def deciding_def
          counters_ok_def target_label_def intro!: sent)
  qed
qed

lemma wp_fail_step:
  assumes "deciding step r" "work_kind (step_kind (flow_steps (fr_flow r) ! step))"
  shows "wp (fail_step E step label reason r) (keeps r)"
proof -
  let ?k = "step_kind (flow_steps (fr_flow r) ! step)"
  have "wp (pass_step E step n r) (keeps r)" if "on_fail_of ?k = Continue" for n
    using assms that
    by (intro wp_pass_step) (auto simp: deciding_def quality_ok_def on_fail_of_def)
  with assms wp_retry_step [OF assms] wp_back_step [OF assms] wp_exhaust [OF assms] show ?thesis
    by (auto simp: fail_step_def wp_simps deciding_def split: on_fail.split)
qed

subsection \<open>Criteria\<close>

lemma mark_last_criteria_simps [simp]:
  "fr_flow (mark_last_criteria r) = fr_flow r" "fr_input (mark_last_criteria r) = fr_input r"
  "fr_steps (mark_last_criteria r) = fr_steps r" "fr_cursor (mark_last_criteria r) = fr_cursor r"
  "fr_state (mark_last_criteria r) = fr_state r" "fr_backs (mark_last_criteria r) = fr_backs r"
  "fr_retries (mark_last_criteria r) = fr_retries r"
  by (simp_all add: mark_last_criteria_def)

lemma deciding_cong:
  "deciding step r \<Longrightarrow> fr_flow r' = fr_flow r \<Longrightarrow> fr_steps r' = fr_steps r \<Longrightarrow> fr_cursor r' = fr_cursor r \<Longrightarrow>
     fr_backs r' = fr_backs r \<Longrightarrow> fr_retries r' = fr_retries r \<Longrightarrow> deciding step r'"
  by (simp add: deciding_def counters_ok_def)

lemma filter_map_p_total: "(\<And>x. x \<in> set xs \<Longrightarrow> g x = Some (h x)) \<Longrightarrow> filter_map_p g xs = Some (List.map_filter h xs)"
  by (induction xs) (auto simp: List.map_filter_def split: option.split)

lemma criterion_at_agent:
  assumes "step < length (flow_steps (fr_flow r))" "step_kind (flow_steps (fr_flow r) ! step) = StepAgent a"
  shows "criterion_at r step i = Some (nth_opt (as_criteria a) i)"
  using assms by (simp add: criterion_at_def kind_at_def nth_opt_def)

lemma no_required_failed_iff:
  assumes "map cr_index cs = [0..<length (as_criteria a)]"
  shows "filter crit_required (List.map_filter (\<lambda>c. nth_opt (as_criteria a) (cr_index c))
      (filter (\<lambda>c. cr_outcome c = OutcomeFailed) cs)) = [] \<longleftrightarrow> no_required_failed (StepAgent a) cs"
proof -
  have "cr_index c < length (as_criteria a)" if "c \<in> set cs" for c
    using assms that by (metis atLeastLessThan_iff image_eqI list.set_map set_upt)
  then show ?thesis
    by (fastforce simp: filter_empty_conv set_map_filter no_required_failed_def)
qed

lemma required_passed_settled:
  assumes "map cr_index cs = [0..<length (as_criteria a)]" "no_required_failed (StepAgent a) cs" "with_you cs = []"
  shows "required_passed a cs"
  unfolding required_passed_def
proof (intro allI impI)
  fix i assume i: "i < length (as_criteria a)" "crit_required (as_criteria a ! i)"
  then have "i \<in> set (map cr_index cs)" by (simp only: assms(1)) simp
  then obtain c where c: "c \<in> set cs" "cr_index c = i" by auto
  then have "cr_outcome c \<noteq> OutcomeFailed" using assms(2) i by (auto simp: no_required_failed_def)
  moreover have "cr_outcome c \<noteq> OutcomeWithYou" using assms(3) c by (auto simp: with_you_def filter_empty_conv)
  ultimately show "\<exists>c\<in>set cs. cr_index c = i \<and> cr_outcome c = OutcomePassed"
    using c by (cases "cr_outcome c") auto
qed

lemma wp_settle_criteria:
  assumes "deciding step r" "step_kind (flow_steps (fr_flow r) ! step) = StepAgent a"
    and "map cr_index (sr_criteria (fr_steps r ! step)) = [0..<length (as_criteria a)]"
  shows "wp (settle_criteria E step label r) (keeps r)"
proof -
  let ?cs = "sr_criteria (fr_steps r ! step)"
  let ?failed = "List.map_filter (\<lambda>c. nth_opt (as_criteria a) (cr_index c))
      (filter (\<lambda>c. cr_outcome c = OutcomeFailed) ?cs)"
  have len: "step < length (flow_steps (fr_flow r))" "step < length (fr_steps r)"
    using assms(1) deciding_length by (auto simp: deciding_def)
  have failed: "filter_map_p (\<lambda>c. criterion_at r step (cr_index c))
      (filter (\<lambda>c. cr_outcome c = OutcomeFailed) ?cs) = Some ?failed"
    by (rule filter_map_p_total) (simp add: criterion_at_agent [OF len(1) assms(2)])
  have settled: "wp (if filter crit_required ?failed \<noteq> [] then fail_step E step label reason r'
      else if with_you ?cs \<noteq> [] then
        Option.bind (upd_step step (\<lambda>s. s\<lparr>sr_state := WaitingForYou\<rparr>) r') (\<lambda>r'.
          Some (r'\<lparr>fr_state := RunWaiting (WaitCriteria step (with_you ?cs))\<rparr>))
      else pass_step E step None r') (keeps r')"
    if r': "deciding step r'" "fr_flow r' = fr_flow r" "fr_steps r' = fr_steps r" for reason r'
  proof (cases "filter crit_required ?failed = []")
    case False
    with wp_fail_step [OF r'(1)] assms(2) r'(2) show ?thesis by (simp add: work_kind_def)
  next
    case True
    then have ok: "no_required_failed (StepAgent a) ?cs" using no_required_failed_iff [OF assms(3)] by blast
    then have pass: "wp (pass_step E step None r') (keeps r')" if "with_you ?cs = []"
      using r' assms(2) required_passed_settled [OF assms(3) ok that]
      by (intro wp_pass_step) (auto simp: deciding_def quality_ok_def)
    from ok have "keeps r' (r'\<lparr>fr_steps := (fr_steps r')[step := (fr_steps r' ! step)\<lparr>sr_state := WaitingForYou\<rparr>],
        fr_state := RunWaiting (WaitCriteria step (with_you ?cs))\<rparr>)" if "with_you ?cs \<noteq> []"
      using r' assms(2,3) len that
      by (auto simp: keeps_def ready_def run_inv_def state_ok_def deciding_def results_complete_def counters_ok_def
          intro!: shape_update)
    with True pass r'(3) len show ?thesis by (simp add: wp_simps)
  qed
  define r' where "r' = (if ?cs = [] then r
      else mark_last_criteria (log_event E (if map crit_text (filter crit_required ?failed) = [] then EvVerified else EvFailed)
        (translate_with (env_i18n E) ''flows.run.criteria_title'' [(''label'', label)])
        (translate_with (env_i18n E) ''flows.run.criteria_checked''
          [(''passed'', nat_to_string (length (filter (\<lambda>c. cr_outcome c = OutcomePassed) ?cs))),
           (''total'', nat_to_string (length ?cs))]) (Some step) r))"
  have same: "fr_flow r' = fr_flow r" "fr_steps r' = fr_steps r" "fr_cursor r' = fr_cursor r" "fr_input r' = fr_input r"
    "fr_backs r' = fr_backs r" "fr_retries r' = fr_retries r"
    by (simp_all add: r'_def)
  have "settle_criteria E step label r =
      (if filter crit_required ?failed \<noteq> []
       then fail_step E step label (str_join ''; '' (map crit_text (filter crit_required ?failed))) r'
      else if with_you ?cs \<noteq> [] then
        Option.bind (upd_step step (\<lambda>s. s\<lparr>sr_state := WaitingForYou\<rparr>) r') (\<lambda>r'.
          Some (r'\<lparr>fr_state := RunWaiting (WaitCriteria step (with_you ?cs))\<rparr>))
      else pass_step E step None r')"
    using len(2) failed
    by (simp only: settle_criteria_def step_at_def nth_opt_def if_True bind.bind_lunit Let_def r'_def with_you_def
        map_is_Nil_conv simp_thms)
  moreover have "deciding step r'" using assms(1) same by (auto intro: deciding_cong)
  moreover have "keeps r' = keeps r" using same by (intro keeps_cong)
  ultimately show ?thesis using settled [of r'] same by simp
qed

lemma enumerate_index: "map (\<lambda>(i, c). cr_index (initial_result E sub i c)) (enumerate n cs) = [n..<n + length cs]"
proof -
  have "cr_index (initial_result E sub i c) = i" for i c
    by (auto simp: initial_result_def Let_def split: verifier.split option.split)
  then show ?thesis
    by (simp add: map_fst_enumerate [symmetric] case_prod_beta del: map_fst_enumerate)
qed

lemma initial_results_index:
  "map cr_index (map (\<lambda>(i, c). initial_result E sub i c) (enumerate 0 cs)) = [0..<length cs]"
  using enumerate_index [of E sub 0 cs] by (simp add: case_prod_unfold comp_def)

text \<open>A step whose work is under way: the run is on it and it started.\<close>

definition working :: "step_state \<Rightarrow> nat \<Rightarrow> flow_run \<Rightarrow> bool" where
  "working st step r = (fr_state r = RunRunning \<and> fr_cursor r = step \<and>
     step < length (flow_steps (fr_flow r)) \<and> sr_state (fr_steps r ! step) = st)"

lemma working_deciding: "run_inv r \<Longrightarrow> working st step r \<Longrightarrow> deciding step r"
  using run_inv_deciding by (auto simp: working_def)

lemma wp_agent_submitted:
  assumes "run_inv r" "working Running step r" "step_kind (flow_steps (fr_flow r) ! step) = StepAgent a"
  shows "wp (agent_submitted E step label sub r) (\<lambda>(r', external). external = external_criteria (as_criteria a) \<and>
    (if external = [] then keeps r r'
     else run_inv r' \<and> fr_flow r' = fr_flow r \<and> fr_input r' = fr_input r \<and> working Verifying step r'))"
proof -
  have d: "deciding step r" using assms(1,2) by (rule working_deciding)
  then have len: "step < length (flow_steps (fr_flow r))" "step < length (fr_steps r)"
    using deciding_length by (auto simp: deciding_def)
  let ?cs = "map (\<lambda>(i, c). initial_result E sub i c) (enumerate 0 (as_criteria a))"
  let ?s = "(fr_steps r ! step)\<lparr>sr_state := Verifying, sr_feedback := None, sr_criteria := ?cs, sr_submission := Some sub\<rparr>"
  let ?r = "(log_event E EvDelivered (step_title E step label) (delivered_message E sub) (Some step) r)
    \<lparr>fr_steps := (fr_steps r)[step := ?s]\<rparr>"
  have complete: "results_complete (StepAgent a) ?cs"
    using initial_results_index by (auto simp: results_complete_def)
  have d': "deciding step ?r"
    using deciding_update [OF d, of ?s] complete assms(3) by (auto simp: step_ok_def intro: deciding_cong)
  have settle: "wp (settle_criteria E step label ?r) (keeps ?r)"
    using assms(3) len initial_results_index [of E sub "as_criteria a"] by (intro wp_settle_criteria [OF d']) simp_all
  have keep: "keeps ?r = keeps r" by (rule keeps_cong) simp_all
  have "run_inv ?r \<and> working Verifying step ?r"
    using d' assms len by (auto simp: run_inv_def deciding_def working_def state_ok_def work_kind_def Let_def)
  with settle keep len assms(3) show ?thesis
    by (auto simp: agent_submitted_def wp_simps Let_def elim!: wp_mono)
qed

lemma put_result_index [simp]: "map cr_index (put_result c cs) = map cr_index cs"
  by (induction cs) (auto simp: put_result_def)

lemma fold_put_result_index [simp]: "map cr_index (fold put_result results cs) = map cr_index cs"
  by (induction results arbitrary: cs) simp_all

lemma wp_criteria_verified:
  assumes "run_inv r" "working Verifying step r"
  shows "wp (criteria_verified E step label results r) (keeps r)"
proof -
  have d: "deciding step r" using assms by (rule working_deciding)
  then have len: "step < length (flow_steps (fr_flow r))" "step < length (fr_steps r)"
    using deciding_length by (auto simp: deciding_def)
  have "step_ok (step_kind (flow_steps (fr_flow r) ! step)) (fr_steps r ! step)"
    using d len by (auto simp: deciding_def shape_def)
  then obtain a where a: "step_kind (flow_steps (fr_flow r) ! step) = StepAgent a"
    "map cr_index (sr_criteria (fr_steps r ! step)) = [0..<length (as_criteria a)]"
    using assms(2) by (auto simp: step_ok_def results_complete_def working_def)
  let ?s = "(fr_steps r ! step)\<lparr>sr_criteria := fold put_result results (sr_criteria (fr_steps r ! step))\<rparr>"
  let ?r = "r\<lparr>fr_steps := (fr_steps r)[step := ?s]\<rparr>"
  have "deciding step ?r"
    using assms(2) a by (intro deciding_update [OF d]) (auto simp: step_ok_def results_complete_def working_def)
  then have "wp (settle_criteria E step label ?r) (keeps ?r)"
    using a len by (intro wp_settle_criteria) simp_all
  moreover have "keeps ?r = keeps r" by (rule keeps_cong) simp_all
  ultimately show ?thesis using len by (simp add: criteria_verified_def wp_simps)
qed

lemma wp_command_finished:
  assumes "deciding step r" "work_kind (step_kind (flow_steps (fr_flow r) ! step))"
    and "\<not> is_agent_kind (step_kind (flow_steps (fr_flow r) ! step))"
  shows "wp (command_finished E step passed evidence r) (keeps r)"
proof -
  have k: "keeps (log_event E kd t m s r) = keeps r" for kd t m s by (rule keeps_cong) simp_all
  have "wp (pass_step E step n (log_event E kd t m s r)) (keeps r)" for n kd t m s
    using assms wp_pass_step [of "log_event E kd t m s r" step E n]
    by (simp add: deciding_def quality_ok_other k counters_ok_def)
  moreover have "wp (fail_step E step l x (log_event E kd t m s r)) (keeps r)" for l x kd t m s
    using assms wp_fail_step [of step "log_event E kd t m s r" E l x] by (simp add: k)
  ultimately show ?thesis
    using assms(1) by (auto simp: command_finished_def target_label_def wp_simps deciding_def Let_def)
qed

lemma wp_github_finished:
  assumes "deciding step r" "step_kind (flow_steps (fr_flow r) ! step) = StepGitHub g"
    and "sr_state (fr_steps r ! step) = Running"
  shows "wp (github_finished E step passed evidence outputs r) (keeps r)"
proof -
  have len: "step < length (fr_steps r)" using assms(1) deciding_length by (auto simp: deciding_def)
  let ?s = "(fr_steps r ! step)\<lparr>sr_submission := Some
      \<lparr>sub_summary = evidence, sub_outputs = outputs, sub_self_checks = []\<rparr>\<rparr>"
  let ?r = "r\<lparr>fr_steps := (fr_steps r)[step := ?s]\<rparr>"
  have "deciding step ?r" using assms by (intro deciding_update) simp_all
  then have "wp (command_finished E step passed evidence ?r) (keeps ?r)"
    using assms(2) by (intro wp_command_finished) (simp_all add: work_kind_def is_agent_kind_def)
  moreover have "keeps ?r = keeps r" by (rule keeps_cong) simp_all
  ultimately show ?thesis using len by (simp add: github_finished_def upd_step_def)
qed

lemma merge_results_frame:
  "merge_results E step results merged failures r = (merged', failures', r') \<Longrightarrow>
     fr_flow r' = fr_flow r \<and> fr_steps r' = fr_steps r \<and> fr_cursor r' = fr_cursor r \<and> fr_input r' = fr_input r
     \<and> fr_backs r' = fr_backs r \<and> fr_retries r' = fr_retries r \<and> fr_state r' = fr_state r"
proof (induction E step results merged failures r rule: merge_results.induct)
  case (2 E step branch result results merged failures r)
  then show ?case by (cases result) auto
qed simp

lemma wp_parallel_finished:
  assumes "deciding step r" "step_kind (flow_steps (fr_flow r) ! step) = StepParallel p"
    and "sr_state (fr_steps r ! step) = Running"
  shows "wp (parallel_finished E step label results r) (keeps r)"
proof -
  obtain merged failures r1 where m: "merge_results E step results submission_default [] r = (merged, failures, r1)"
    by (cases "merge_results E step results submission_default [] r")
  note same = merge_results_frame [OF m]
  let ?s = "(fr_steps r1 ! step)\<lparr>sr_submission := Some merged\<rparr>"
  let ?r = "r1\<lparr>fr_steps := (fr_steps r1)[step := ?s]\<rparr>"
  have d1: "deciding step r1" using assms(1) same by (auto intro: deciding_cong)
  then have len: "step < length (fr_steps r1)" using deciding_length by (auto simp: deciding_def)
  have d: "deciding step ?r" using assms(3) same by (intro deciding_update [OF d1]) simp_all
  have k: "keeps ?r = keeps r" using same by (intro keeps_cong) simp_all
  have "wp (pass_step E step None ?r) (keeps ?r)"
    using d assms(2) same by (intro wp_pass_step) (auto simp: deciding_def quality_ok_def)
  moreover have "wp (fail_step E step label x ?r) (keeps ?r)" for x
    using assms(2) same by (intro wp_fail_step [OF d]) (simp add: work_kind_def)
  ultimately show ?thesis using len unfolding k by (simp add: parallel_finished_def m wp_simps)
qed

subsection \<open>Answers, cancelling, starting\<close>

lemma run_inv_cursor: "run_inv r \<Longrightarrow> fr_cursor r \<le> length (flow_steps (fr_flow r))"
  by (auto simp: run_inv_def state_ok_def Let_def split: run_state.splits waiting.splits)

lemma keeps_running:
  assumes "fr_flow r' = fr_flow r" "fr_input r' = fr_input r" "flow_sound (fr_flow r)" "counters_ok r'"
    and "shape (fr_flow r) (fr_cursor r') (fr_steps r')" "fr_state r' = RunRunning"
    and "fr_cursor r' < length (flow_steps (fr_flow r))" "todo_state (sr_state (fr_steps r' ! fr_cursor r'))"
    and "adjust_work (fr_flow r) \<longrightarrow> work_kind (step_kind (flow_steps (fr_flow r) ! fr_cursor r'))"
  shows "keeps r r'"
  using assms by (simp add: keeps_def ready_def run_inv_def state_ok_def Let_def)

lemma keeps_cancel: "run_inv r \<Longrightarrow> keeps r (cancel E reason r)"
  using run_inv_cursor [of r]
  by (auto simp: cancel_def keeps_def ready_def is_finished_def run_inv_def state_ok_def Let_def counters_ok_def)

lemma cancel_finished: "is_finished (cancel E reason r)"
  by (auto simp: cancel_def is_finished_def)

lemma last_agent_before_Some:
  "last_agent_before r step = Some t \<Longrightarrow> t < step \<and> is_agent_kind (step_kind (flow_steps (fr_flow r) ! t))"
  by (auto simp: last_agent_before_def find_Some_iff rev_nth)

lemma adjust_workD:
  "adjust_work f \<Longrightarrow> i < length (flow_steps f) \<Longrightarrow> step_kind (flow_steps f ! i) = StepGate g \<Longrightarrow>
     gate_adjust_to g = Some t \<Longrightarrow> step_index f t = Some j \<Longrightarrow> work_kind (step_kind (flow_steps f ! j))"
  by (force simp: adjust_work_def list_all_length)

lemma adjust_target_Some:
  assumes "flow_sound (fr_flow r)" "step < length (flow_steps (fr_flow r))"
    and "adjust_target r step (step_kind (flow_steps (fr_flow r) ! step)) = Some t"
  shows "t < step \<and> (adjust_work (fr_flow r) \<longrightarrow> work_kind (step_kind (flow_steps (fr_flow r) ! t)))"
  using assms flow_sound_adjust [OF assms(1,2)] adjust_workD [of "fr_flow r" step]
  by (auto simp: adjust_target_def bind_eq_Some_conv split: step_kind.splits option.splits
      dest!: last_agent_before_Some intro: work_kind_agent) (metis option.inject)+

lemma wp_answer_gate:
  assumes "run_inv r"
  shows "wp (answer_gate E approve n r) (\<lambda>r'. keeps r r' \<or> r' = r)"
proof (cases "\<exists>step. fr_state r = RunWaiting (WaitGate step)")
  case True
  then obtain step where st: "fr_state r = RunWaiting (WaitGate step)" by blast
  with assms have c: "fr_cursor r = step" "step < length (flow_steps (fr_flow r))"
    "\<not> work_kind (step_kind (flow_steps (fr_flow r) ! step))"
    by (auto simp: run_inv_def state_ok_def Let_def)
  then have d: "deciding step r" using run_inv_deciding [OF assms] by simp
  have len: "step < length (fr_steps r)" using c deciding_length [OF d] by simp
  have k: "keeps (log_event E kd t m s r) = keeps r" for kd t m s by (rule keeps_cong) simp_all
  have pass: "wp (pass_step E step x (log_event E kd t m s r)) (keeps r)" for x kd t m s
    using d c(3) wp_pass_step [of "log_event E kd t m s r" step E x] work_kind_agent
    by (auto simp: deciding_def k counters_ok_def intro!: quality_ok_other)
  have sent: "shape (fr_flow r) t ((mark_states Queued {t..<Suc step} (fr_steps r))[t := u])"
    if "t < step" "sr_state u = Queued" for t u
    using d that by (intro shape_update shape_back [of _ step]) (auto simp: deciding_def)
  have adjust: "wp (Option.bind (set_states Queued [t..<step + 1] r) (\<lambda>r.
      Option.bind (upd_step t (\<lambda>s. s\<lparr>sr_feedback := fb\<rparr>) r) (\<lambda>r.
      Option.bind (target_label E t r) (\<lambda>label.
      Some ((log_event E EvBack (ti label) m (Some step) r)\<lparr>fr_cursor := t, fr_state := RunRunning\<rparr>))))) (keeps r)"
    if t: "adjust_target r step (step_kind (flow_steps (fr_flow r) ! step)) = Some t" for t fb ti m
    using adjust_target_Some [OF _ c(2) t] d c(2) len sent
    by (auto simp: deciding_def wp_simps target_label_def counters_ok_def simp del: upt_Suc intro!: keeps_running)
  have "kind_at r step = Some (step_kind (flow_steps (fr_flow r) ! step))"
    using c(2) by (simp add: kind_at_def nth_opt_def)
  with st have "wp (answer_gate E approve n r) (keeps r)"
    using pass adjust keeps_cancel [OF assms]
    by (auto simp: answer_gate_def Let_def simp del: upt_Suc wp_bind split: option.split)
  then show ?thesis by (rule wp_mono) blast
next
  case False
  then show ?thesis
    by (auto simp: answer_gate_def Let_def split: run_state.split waiting.split)
qed

lemma wp_answer_exhausted:
  assumes "run_inv r"
  shows "wp (answer_exhausted E retry r) (\<lambda>r'. keeps r r' \<or> r' = r)"
proof (cases "\<exists>step reason. fr_state r = RunWaiting (WaitExhausted step reason)")
  case True
  then obtain step reason where st: "fr_state r = RunWaiting (WaitExhausted step reason)" by blast
  with assms have c: "fr_cursor r = step" "step < length (flow_steps (fr_flow r))"
    "work_kind (step_kind (flow_steps (fr_flow r) ! step))"
    by (auto simp: run_inv_def state_ok_def Let_def)
  then have d: "deciding step r" using run_inv_deciding [OF assms] by simp
  have len: "step < length (fr_steps r)" using c deciding_length [OF d] by simp
  have "shape (fr_flow r) step ((fr_steps r)[step := u])" if "sr_state u = Failed" for u
    using d that by (intro shape_update) (auto simp: deciding_def)
  with st c d len keeps_cancel [OF assms] have "wp (answer_exhausted E retry r) (keeps r)"
    by (auto simp: answer_exhausted_def wp_simps deciding_def counters_ok_def intro!: keeps_running)
  then show ?thesis by (rule wp_mono) blast
next
  case False
  then show ?thesis
    by (auto simp: answer_exhausted_def split: run_state.split waiting.split)
qed

lemma replace_first_distinct:
  "distinct (map key cs) \<Longrightarrow>
     replace_first (\<lambda>c. key c = i) g cs = map (\<lambda>c. if key c = i then g c else c) cs"
proof (induction cs)
  case (Cons c cs)
  have "x \<in> set cs \<Longrightarrow> key x \<noteq> key c" for x
    using Cons.prems by (metis distinct.simps(2) image_eqI list.set_map list.simps(9))
  then have "key c = i \<Longrightarrow> map (\<lambda>c. if key c = i then g c else c) cs = cs" by (intro map_idI) auto
  with Cons show ?case by simp
qed simp

lemma fold_answer_result:
  assumes "distinct (map cr_index cs)" "distinct is"
  shows "fold (answer_result E accept) is cs = map (\<lambda>c. if cr_index c \<in> set is then c
     \<lparr>cr_outcome := (if accept then OutcomePassed else OutcomeFailed),
      cr_evidence := (if accept then translate (env_i18n E) ''flows.run.evidence_accepted''
        else translate (env_i18n E) ''flows.run.evidence_refused'')\<rparr> else c) cs"
  using assms
proof (induction "is" arbitrary: cs)
  case (Cons i "is")
  let ?cs = "answer_result E accept i cs"
  have one: "?cs = map (\<lambda>c. if cr_index c = i then c
     \<lparr>cr_outcome := (if accept then OutcomePassed else OutcomeFailed),
      cr_evidence := (if accept then translate (env_i18n E) ''flows.run.evidence_accepted''
        else translate (env_i18n E) ''flows.run.evidence_refused'')\<rparr> else c) cs"
    unfolding answer_result_def using Cons.prems(1) by (rule replace_first_distinct)
  then have "map cr_index ?cs = map cr_index cs" by (simp add: comp_def)
  with Cons have "fold (answer_result E accept) is ?cs = map (\<lambda>c. if cr_index c \<in> set is then c
     \<lparr>cr_outcome := (if accept then OutcomePassed else OutcomeFailed),
      cr_evidence := (if accept then translate (env_i18n E) ''flows.run.evidence_accepted''
        else translate (env_i18n E) ''flows.run.evidence_refused'')\<rparr> else c) ?cs" by simp
  with Cons.prems(2) show ?case by (auto simp: one)
qed simp

lemma accepted_required_passed:
  assumes "map cr_index cs = [0..<length (as_criteria a)]" "no_required_failed (StepAgent a) cs"
  shows "required_passed a (fold (answer_result E True) (with_you cs) cs)"
proof -
  have d: "distinct (map cr_index cs)" by (simp add: assms(1))
  then have "distinct (with_you cs)" by (simp add: with_you_def distinct_map_filter)
  note f = fold_answer_result [OF d this, of E True]
  show ?thesis
    unfolding required_passed_def
  proof (intro allI impI)
    fix i assume i: "i < length (as_criteria a)" "crit_required (as_criteria a ! i)"
    then have "i \<in> set (map cr_index cs)" by (simp only: assms(1)) simp
    then obtain c where c: "c \<in> set cs" "cr_index c = i" by auto
    then have "cr_outcome c \<noteq> OutcomeFailed" using assms(2) i by (auto simp: no_required_failed_def)
    with c have "i \<in> set (with_you cs) \<or> cr_outcome c = OutcomePassed"
      by (cases "cr_outcome c") (auto simp: with_you_def)
    with c show "\<exists>c\<in>set (fold (answer_result E True) (with_you cs) cs). cr_index c = i \<and> cr_outcome c = OutcomePassed"
      unfolding f set_map by (intro bexI [OF _ imageI [OF c(1)]]) auto
  qed
qed

lemma wp_answer_criteria:
  assumes "run_inv r"
  shows "wp (answer_criteria E step label accept r) (\<lambda>r'. keeps r r' \<or> r' = r)"
proof (cases "\<exists>cs. fr_state r = RunWaiting (WaitCriteria step cs)")
  case True
  then obtain cs where st: "fr_state r = RunWaiting (WaitCriteria step cs)" by blast
  let ?k = "step_kind (flow_steps (fr_flow r) ! step)"
  let ?s = "fr_steps r ! step"
  from st assms obtain a where c: "fr_cursor r = step" "step < length (flow_steps (fr_flow r))" "?k = StepAgent a"
    and s: "sr_state ?s = WaitingForYou" "map cr_index (sr_criteria ?s) = [0..<length (as_criteria a)]"
      "no_required_failed ?k (sr_criteria ?s)" "cs = with_you (sr_criteria ?s)" "cs \<noteq> []"
    by (auto simp: run_inv_def state_ok_def Let_def results_complete_def)
  have d: "deciding step r" using run_inv_deciding [OF assms] c by simp
  have len: "step < length (fr_steps r)" using c deciding_length [OF d] by simp
  let ?u = "?s\<lparr>sr_criteria := fold (answer_result E accept) cs (sr_criteria ?s)\<rparr>"
  let ?r = "r\<lparr>fr_steps := (fr_steps r)[step := ?u]\<rparr>"
  have dr: "deciding step ?r" using s(1) by (intro deciding_update [OF d]) simp
  have failed: "shape (fr_flow r) (fr_cursor r) ((fr_steps r)[fr_cursor r := u])" if "sr_state u = Failed" for u
    using d that by (intro shape_update) (auto simp: deciding_def)
  let ?q = "\<lambda>kd t m. (log_event E kd t m (Some step) ?r)\<lparr>fr_state := RunRunning\<rparr>"
  have dq: "deciding step (?q kd t m)" and kq: "keeps (?q kd t m) = keeps r" for kd t m
    using dr by (auto intro: deciding_cong keeps_cong)
  have "wp (pass_step E step None (?q kd t m)) (keeps (?q kd t m))" if accept for kd t m
    using dq [of kd t m] c(3) s len that accepted_required_passed [OF s(2)]
    by (intro wp_pass_step) (auto simp: deciding_def quality_ok_def)
  moreover have "wp (fail_step E step label x (?q kd t m)) (keeps (?q kd t m))" for x kd t m
    using c(3) by (intro wp_fail_step [OF dq]) (simp add: work_kind_def)
  moreover have "keeps r (?q kd t m\<lparr>fr_steps := (fr_steps ?r)[step := (fr_steps ?r ! step)\<lparr>sr_state := Failed, sr_feedback := x\<rparr>],
      fr_cursor := step\<rparr>)" for x kd t m
    using d failed c len by (intro keeps_running) (auto simp: deciding_def work_kind_def counters_ok_def)
  moreover have "filter_map_p (criterion_at ?r step) cs = Some (List.map_filter (nth_opt (as_criteria a)) cs)"
    using c by (intro filter_map_p_total criterion_at_agent) simp_all
  ultimately have "wp (answer_criteria E step label accept r) (keeps r)"
    using st s(5) len unfolding kq
    by (auto simp: answer_criteria_def wp_simps Let_def)
  then show ?thesis by (rule wp_mono) blast
next
  case False
  then show ?thesis
    by (auto simp: answer_criteria_def Let_def split: run_state.split waiting.split)
qed

lemma wp_run_new:
  assumes "flow_sound f"
  shows "wp (run_new E f input) (\<lambda>r. run_inv r \<and> ready r \<and> fr_flow r = f \<and> fr_input r = input)"
proof -
  let ?r = "log_event E EvYou (translate (env_i18n E) ''flows.run.you'')
    (translate_with (env_i18n E) ''flows.run.started_message'' [(''flow'', flow_name f), (''input'', input)]) None
    \<lparr>fr_flow = f, fr_input = input, fr_steps = map (\<lambda>_. step_run_new) (flow_steps f),
     fr_cursor = 0, fr_state = RunRunning, fr_events = [], fr_backs = [], fr_retries = []\<rparr>"
  have "wp (enter_cursor E ?r) (keeps ?r)"
    using assms by (intro enter_cursor_inv) (auto simp: shape_def step_run_new_def counters_ok_def)
  then show ?thesis by (auto simp: run_new_def keeps_def elim: wp_mono)
qed

lemma requeue_simps [simp]:
  "step_ok k (requeue s) = (sr_state s = Passed \<longrightarrow> quality_ok k (sr_criteria s))"
  "done_state (sr_state (requeue s)) = done_state (sr_state s)"
  "sr_state s \<notin> {Running, Verifying} \<Longrightarrow> requeue s = s"
  "todo_state (sr_state s) \<Longrightarrow> todo_state (sr_state (requeue s))"
  by (auto simp: requeue_def step_ok_def)

lemma restore_snapshot_inv:
  assumes "run_inv r"
  shows "wp (restore (fr_flow r) (snapshot r)) (\<lambda>r'. keeps r r' \<and> r' = r\<lparr>fr_steps := map requeue (fr_steps r)\<rparr>)"
proof -
  have len: "length (fr_steps r) = length (flow_steps (fr_flow r))" using assms by (simp add: run_inv_def shape_def)
  have sh: "shape (fr_flow r) (fr_cursor r) (map requeue (fr_steps r))"
    using assms by (auto simp: run_inv_def shape_def step_ok_def requeue_def)
  have "state_ok (fr_flow r) (fr_cursor r) (map requeue (fr_steps r)) (fr_state r)"
    using assms len
    by (auto simp: run_inv_def state_ok_def Let_def requeue_def split: run_state.splits waiting.splits)
  moreover have "ready (r\<lparr>fr_steps := map requeue (fr_steps r)\<rparr>)"
    using assms len by (auto simp: run_inv_def ready_def state_ok_def Let_def requeue_def)
  ultimately show ?thesis
    using len sh assms by (auto simp: restore_def snapshot_def keeps_def ready_def run_inv_def counters_ok_def)
qed

lemma keeps_resume: "run_inv r \<Longrightarrow> ready r \<Longrightarrow> keeps r (resume E r)"
  by (auto simp: resume_def keeps_def ready_def run_inv_def counters_ok_def)

lemma step_started_inv:
  assumes "run_inv r" "fr_state r = RunRunning"
    and "work_kind (step_kind (flow_steps (fr_flow r) ! fr_cursor r))"
  shows "run_inv (step_started (fr_cursor r) r) \<and> working Running (fr_cursor r) (step_started (fr_cursor r) r)"
proof -
  have c: "fr_cursor r < length (flow_steps (fr_flow r))" "length (fr_steps r) = length (flow_steps (fr_flow r))"
    using assms by (auto simp: run_inv_def state_ok_def Let_def shape_def)
  moreover have "shape (fr_flow r) (fr_cursor r) ((fr_steps r)[fr_cursor r := started (fr_steps r ! fr_cursor r)])"
    using assms(1) by (intro shape_update) (simp_all add: run_inv_def started_def)
  ultimately show ?thesis
    using assms
    by (simp add: step_started_def upd_step_def run_inv_def state_ok_def Let_def counters_ok_def working_def started_def)
qed

text \<open>What \<open>next_action\<close> gives: nothing while the run is finished or waiting, and otherwise the start
  of the step at the cursor.\<close>

lemma next_action_running:
  assumes "run_inv r" "fr_state r = RunRunning" "todo_state (sr_state (fr_steps r ! fr_cursor r))"
  shows "next_action r = Some (case step_kind (flow_steps (fr_flow r) ! fr_cursor r) of
      StepAgent _ \<Rightarrow> StartAgent (fr_cursor r) | StepRun _ \<Rightarrow> RunCommand (fr_cursor r)
    | StepGitHub _ \<Rightarrow> RunGitHub (fr_cursor r) | StepParallel _ \<Rightarrow> StartParallel (fr_cursor r)
    | StepGate _ \<Rightarrow> Wait | StepBranch _ \<Rightarrow> Wait)"
proof -
  have "fr_cursor r < length (flow_steps (fr_flow r))" "length (fr_steps r) = length (flow_steps (fr_flow r))"
    using assms by (auto simp: run_inv_def state_ok_def Let_def shape_def)
  with assms show ?thesis
    by (auto simp: next_action_def nth_opt_def kind_at_def todo_state_def Let_def)
qed

section \<open>Decisions\<close>

text \<open>C6. Going back. A step that fails with returns left sends the run to its target: the target gets
  the reason, every step from the target up to the failed one is queued again, the failed one is
  marked, all others are untouched, and the return is counted. With none left the run stops on the
  step and asks the user.\<close>

theorem fail_step_back:
  assumes "run_inv r" "working st step r"
    and "on_fail_of (step_kind (flow_steps (fr_flow r) ! step)) = BackTo target m"
  shows "\<exists>r' j. fail_step E step label reason r = Some r' \<and> step_index (fr_flow r) target = Some j \<and> j < step \<and>
    (if m \<le> counter (fr_backs r) step
     then fr_state r' = RunWaiting (WaitExhausted step reason) \<and> fr_cursor r' = step
     else fr_state r' = RunRunning \<and> fr_cursor r' = j \<and>
       counter (fr_backs r') step = counter (fr_backs r) step + 1 \<and>
       sr_feedback (fr_steps r' ! j) = Some reason \<and> sr_state (fr_steps r' ! step) = Failed \<and>
       (\<forall>i\<in>{j..<step}. sr_state (fr_steps r' ! i) = Queued) \<and>
       (\<forall>i<length (fr_steps r). i < j \<or> step < i \<longrightarrow> fr_steps r' ! i = fr_steps r ! i))"
proof -
  have d: "deciding step r" using assms(1,2) by (rule working_deciding)
  obtain j where j: "j < step" "step_index (fr_flow r) target = Some j"
    using d assms(3) flow_sound_back [of "fr_flow r" step target m] by (auto simp: deciding_def)
  have len: "step < length (flow_steps (fr_flow r))" "step < length (fr_steps r)"
    using d deciding_length by (auto simp: deciding_def)
  have k: "fail_step E step label reason r = back_step E step label reason target m r"
    using len assms(3) by (simp add: fail_step_def kind_at_def nth_opt_def)
  have c: "fr_cursor r = step" using d by (simp add: deciding_def)
  show ?thesis
  proof (cases "m \<le> counter (fr_backs r) step")
    case True
    with j len c show ?thesis
      by (simp add: k back_step_def Let_def exhaust_def upd_step_def)
  next
    case False
    with j len show ?thesis
      by (auto simp: k back_step_def Let_def upd_step_def set_states_eq target_label_def kind_at_def nth_opt_def nth_update)
  qed
qed

text \<open>What a step delivered under a name.\<close>

definition output_of :: "step_run \<Rightarrow> string \<Rightarrow> string option" where
  "output_of s name = Option.bind (sr_submission s) (\<lambda>sub. bt_get (sub_outputs sub) name)"

lemma find_map_snoc:
  "find_map (\<lambda>sub. bt_get (sub_outputs sub) name) (List.map_filter sr_submission (rev (xs @ [x]))) =
     (case output_of x name of Some v \<Rightarrow> Some v
      | None \<Rightarrow> find_map (\<lambda>sub. bt_get (sub_outputs sub) name) (List.map_filter sr_submission (rev xs)))"
  by (auto simp: output_of_def List.map_filter_def split: option.splits)

lemma find_map_latest:
  "find_map (\<lambda>sub. bt_get (sub_outputs sub) name) (List.map_filter sr_submission (rev xs)) = Some v \<longleftrightarrow>
     (\<exists>i<length xs. output_of (xs ! i) name = Some v \<and> (\<forall>j<length xs. i < j \<longrightarrow> output_of (xs ! j) name = None))"
proof (induction xs rule: rev_induct)
  case (snoc x xs)
  then show ?case unfolding find_map_snoc
    by (cases "output_of x name") (auto simp: nth_append less_Suc_eq)
qed (simp add: List.map_filter_def)


definition example_env :: run_env where
  "example_env = \<lparr>env_i18n = example_i18n, env_now = (\<lambda>_. 0)\<rparr>"

definition example_branch :: branch_step where
  "example_branch = \<lparr>br_output = ''pedido'', br_contains = ''x'', br_then_to = None, br_else_to = Some ''comando''\<rparr>"

definition branch_flow :: flow where
  "branch_flow = example_flow\<lparr>flow_steps :=
     [example_dev, \<lparr>step_id = ''se'', step_kind = StepBranch example_branch\<rparr>,
      \<lparr>step_id = ''dev-2'', step_kind = StepAgent (agent_step_new ''dev'')\<rparr>, example_tests]\<rparr>"

definition branch_run :: flow_run where
  "branch_run = \<lparr>fr_flow = branch_flow, fr_input = [], fr_steps = replicate 4 step_run_new, fr_cursor = 1,
     fr_state = RunRunning, fr_events = [], fr_backs = [], fr_retries = []\<rparr>"


end
