(* ===== verification/FlowRunner.thy ===== *)
theory FlowRunner
  imports FlowRun
begin

text \<open>
  The runner of a flow (\<open>crates/agent_ui/src/flows_view/runner.rs\<close> and the run operations of
  \<open>crates/agent_ui/src/flows_view.rs\<close>): what each step is started with, the loop that starts what the
  run needs next, the results that come back, and the user's answers.

  A view keeps at most one piece of work under way. The task that waits for it is owned by the view
  and dropped with it, so a result can only come back for the work the view holds; \<open>pending\<close> is that
  work with what it was started with. Threads, shell commands, the GitHub client and the YAML and
  JSON libraries are outside: their results are the payload of the events.

  Fixed texts hold characters above U+00FF in a few places (typographic quotes, an arrow); they are
  written with ASCII characters here.
\<close>

section \<open>What a step is started with\<close>

definition submit_step_name :: string where
  "submit_step_name = ''submit_step''"

definition with_submit_step :: "task_agent \<Rightarrow> task_agent" where
  "with_submit_step a = a\<lparr>ta_tools := bt_insert submit_step_name True (ta_tools a)\<rparr>"

definition design_tool_label :: "i18n \<Rightarrow> design_tool \<Rightarrow> string" where
  "design_tool_label L t = (case t of
     Pencil \<Rightarrow> ''Pencil'' | Penpot \<Rightarrow> ''Penpot'' | Figma \<Rightarrow> ''Figma''
   | Code \<Rightarrow> translate L ''flows.design_tool.code'')"

definition verifier_label :: "i18n \<Rightarrow> verifier \<Rightarrow> string" where
  "verifier_label L v = translate L (case v of
     You \<Rightarrow> ''flows.verifier.you''
   | SelfCheck \<Rightarrow> ''flows.verifier.self_check''
   | VerifyAgent _ \<Rightarrow> ''flows.verifier.agent''
   | VerifyCommand _ \<Rightarrow> ''flows.verifier.command'')"

definition design_server :: "design_tool \<Rightarrow> string list \<Rightarrow> string option" where
  "design_server t servers =
     (let by_name = (\<lambda>keyword. List.find (\<lambda>s. str_contains (to_lowercase s) keyword) servers) in
      case t of
        Pencil \<Rightarrow> by_name ''pencil'' | Penpot \<Rightarrow> by_name ''penpot'' | Figma \<Rightarrow> by_name ''figma''
      | Code \<Rightarrow> None)"

definition missing_agent_message :: "string \<Rightarrow> string" where
  "missing_agent_message agent =
     ''o agente /'' @ agent @ '' n'' @ [CHR 0xE3] @ ''o existe mais; edite a esteira''"

definition missing_server_message :: "i18n \<Rightarrow> design_tool \<Rightarrow> string" where
  "missing_server_message L t =
     ''o passo acontece no '' @ design_tool_label L t @ '', mas nenhum MCP do '' @ design_tool_label L t
     @ '' est'' @ [CHR 0xE1] @ '' configurado (Configura'' @ [CHR 0xE7, CHR 0xF5] @ ''es -> MCP)''"

definition where_server :: "i18n \<Rightarrow> string list \<Rightarrow> design_target option \<Rightarrow> string + string option" where
  "where_server L servers w = (case w of
     Some t \<Rightarrow>
       if dt_tool t \<noteq> Code then
         (case design_server (dt_tool t) servers of
            Some s \<Rightarrow> Inr (Some s)
          | None \<Rightarrow> Inl (missing_server_message L (dt_tool t)))
       else Inr None
   | None \<Rightarrow> Inr None)"

definition configure_agent :: "agent_step \<Rightarrow> string option \<Rightarrow> task_agent \<Rightarrow> task_agent" where
  "configure_agent a server t =
     (let t = (case as_model a of Some m \<Rightarrow> t\<lparr>ta_model := Some m\<rparr> | None \<Rightarrow> t);
          t = (case server of
             Some s \<Rightarrow> if s \<in> set (ta_context_servers t) then t
                      else t\<lparr>ta_context_servers := ta_context_servers t @ [s]\<rparr>
           | None \<Rightarrow> t);
          t = (if trim (as_instructions a) \<noteq> [] then
             t\<lparr>ta_instructions := trim_end (ta_instructions t) @ [newline, newline] @ ''## Nesta esteira''
               @ [newline] @ trim (as_instructions a)\<rparr>
           else t) in
      with_submit_step t)"

definition step_agent ::
  "i18n \<Rightarrow> task_agent list \<Rightarrow> string list \<Rightarrow> step_kind \<Rightarrow> string + task_agent" where
  "step_agent L agents servers k = (case k of
     StepAgent a \<Rightarrow> (case find_agent agents (as_agent a) of
         None \<Rightarrow> Inl (missing_agent_message (as_agent a))
       | Some t \<Rightarrow> (case where_server L servers (as_where a) of
             Inl e \<Rightarrow> Inl e
           | Inr server \<Rightarrow> Inr (configure_agent a server t)))
   | _ \<Rightarrow> Inl (''o passo n'' @ [CHR 0xE3] @ ''o '' @ [CHR 0xE9] @ '' de agente''))"

section \<open>What the earlier steps delivered\<close>

type_synonym input = "string \<times> string \<times> nat"

definition push_input :: "nat \<Rightarrow> string \<times> string \<Rightarrow> input list \<Rightarrow> input list" where
  "push_input index = (\<lambda>(name, value) inputs.
     filter (\<lambda>(existing, _, _). existing \<noteq> name) inputs @ [(name, value, index)])"

definition delivered_inputs :: "flow_run \<Rightarrow> nat \<Rightarrow> input list" where
  "delivered_inputs r step = fold (\<lambda>(index, s) inputs. case sr_submission s of
       None \<Rightarrow> inputs
     | Some sub \<Rightarrow> fold (push_input index) (sub_outputs sub) inputs)
     (take step (enumerate 0 (fr_steps r))) []"

definition delivery_summary :: "flow_run \<Rightarrow> nat \<Rightarrow> string" where
  "delivery_summary r step = (case Option.bind (nth_opt (fr_steps r) step) sr_submission of
     None \<Rightarrow> []
   | Some sub \<Rightarrow> sub_summary sub @
       concat (map (\<lambda>(name, value). [newline] @ ''- '' @ name @ '': '' @ value) (sub_outputs sub)))"

definition heading :: "string \<Rightarrow> string" where
  "heading t = [newline] @ ''## '' @ t @ [newline]"

definition gives_section :: "task_agent list \<Rightarrow> string \<Rightarrow> string" where
  "gives_section agents command =
     (let gives = (case find_agent agents command of Some t \<Rightarrow> ta_gives t | None \<Rightarrow> []) in
      if gives = [] then []
      else heading ''Entregue'' @ concat (map (\<lambda>name. ''- `'' @ name @ ''`'' @ [newline]) gives))"

definition inputs_section :: "i18n \<Rightarrow> task_agent list \<Rightarrow> flow_run \<Rightarrow> nat \<Rightarrow> string" where
  "inputs_section L agents r step =
     (let inputs = delivered_inputs r step in
      if inputs = [] then []
      else heading ''O que os passos anteriores entregaram'' @
        concat (map (\<lambda>(name, value, from).
          ''- `'' @ name @ ''` (de '' @ step_label L agents (flow_steps (fr_flow r) ! from) @ ''): '' @ value
          @ [newline]) inputs))"

definition criterion_line :: "i18n \<Rightarrow> nat \<times> criterion \<Rightarrow> string" where
  "criterion_line L = (\<lambda>(index, c).
     nat_to_string (index + 1) @ ''. '' @ crit_text c @ '' (''
     @ (if crit_required c then ''obrigat'' @ [CHR 0xF3] @ ''rio'' else ''opcional'') @ '' '' @ [CHR 0xB7] @ '' ''
     @ (case crit_verify c of
          SelfCheck \<Rightarrow> ''voc'' @ [CHR 0xEA] @ '' confere e informa no submit_step''
        | other \<Rightarrow> ''confere: '' @ verifier_label L other)
     @ '')'' @ [newline])"

definition where_section :: "i18n \<Rightarrow> design_target option \<Rightarrow> string" where
  "where_section L w = (case w of
     None \<Rightarrow> []
   | Some t \<Rightarrow> heading ''Onde'' @ design_tool_label L (dt_tool t)
       @ (case dt_file t of Some f \<Rightarrow> '' '' @ [CHR 0xB7] @ '' '' @ f | None \<Rightarrow> []) @ [newline])"

definition parallel_section :: "parallel_step \<Rightarrow> string \<Rightarrow> string" where
  "parallel_section p branch =
     heading ''Em paralelo'' @ ''Voc'' @ [CHR 0xEA] @ '' roda ao mesmo tempo que ''
     @ str_join '', '' (map (\<lambda>c. ''/'' @ c) (filter (\<lambda>c. c \<noteq> branch) (pl_agents p))) @ ''. ''
     @ (if pl_read_only p
        then ''S'' @ [CHR 0xF3] @ '' leitura: n'' @ [CHR 0xE3] @ ''o altere arquivos do projeto.''
        else ''N'' @ [CHR 0xE3] @ ''o edite os mesmos arquivos que os outros.'') @ [newline]"

definition parallel_ending :: string where
  "parallel_ending = heading ''Como entregar'' @ ''Quando terminar, chame `submit_step` uma ''
     @ [CHR 0xFA] @ ''nica vez com `summary` e `outputs` pelo nome exato acima. Depois encerre o turno.''"

definition agent_ending :: string where
  "agent_ending = heading ''Como entregar'' @ ''Quando terminar, chame `submit_step` uma '' @ [CHR 0xFA]
     @ ''nica vez: `summary` com o que voc'' @ [CHR 0xEA] @ '' fez, `outputs` com cada entrega pelo nome exato acima ''
     @ ''(caminho, link ou texto curto) e, em `criteria`, o n'' @ [CHR 0xFA] @ ''mero, o resultado e a evid''
     @ [CHR 0xEA] @ ''ncia de cada crit'' @ [CHR 0xE9] @ ''rio que voc'' @ [CHR 0xEA]
     @ '' confere. Depois encerre o turno.''"

definition redo_heading :: string where
  "redo_heading = heading (''Refa'' @ [CHR 0xE7] @ ''a considerando'')"

text \<open>\<open>flow.steps[step]\<close> and \<open>run.steps[step]\<close> are indexed, so the prompt of a step out of range is a
  panic; every input names a step before it.\<close>

definition step_prompt ::
  "i18n \<Rightarrow> task_agent list \<Rightarrow> flow_run \<Rightarrow> nat \<Rightarrow> string option \<Rightarrow> string option" where
  "step_prompt L agents r step branch =
     (let f = fr_flow r;
          opening = ''Voc'' @ [CHR 0xEA] @ '' '' @ [CHR 0xE9] @ '' o passo '' @ nat_to_string (step + 1) @ '' de ''
            @ nat_to_string (length (flow_steps f)) @ '' da esteira '' @ [CHR 0x22] @ flow_name f @ [CHR 0x22] @ ''.''
            @ [newline] @ heading ''Pedido'' @ trim (fr_input r) @ [newline];
          prompt = opening @ inputs_section L agents r step in
      Option.bind (kind_at r step) (\<lambda>k. case (k, branch) of
        (StepParallel p, Some b) \<Rightarrow> map_option (\<lambda>s.
          prompt @ parallel_section p b @ gives_section agents b
          @ (case sr_feedback s of Some fb \<Rightarrow> redo_heading @ fb @ [newline] | None \<Rightarrow> []) @ parallel_ending)
          (step_at r step)
      | (StepAgent a, _) \<Rightarrow> map_option (\<lambda>s.
          prompt @ gives_section agents (as_agent a) @ where_section L (as_where a)
          @ (if as_criteria a = [] then []
             else heading (''Crit'' @ [CHR 0xE9] @ ''rios de aceite'')
               @ concat (map (criterion_line L) (enumerate 0 (as_criteria a))))
          @ (case sr_feedback s of
               Some fb \<Rightarrow> redo_heading @ fb @ [newline]
                 @ ''As entregas anteriores deste passo est'' @ [CHR 0xE3]
                 @ ''o no projeto; corrija o que foi apontado.'' @ [newline]
             | None \<Rightarrow> []) @ agent_ending) (step_at r step)
      | _ \<Rightarrow> Some prompt))"

definition verifier_prompt :: "string \<Rightarrow> string \<Rightarrow> string \<Rightarrow> string \<Rightarrow> string" where
  "verifier_prompt name label criterion delivery =
     ''Voc'' @ [CHR 0xEA] @ '' confere um crit'' @ [CHR 0xE9] @ ''rio de aceite da esteira '' @ [CHR 0x22]
     @ name @ [CHR 0x22] @ ''.'' @ [newline] @ heading (''Crit'' @ [CHR 0xE9] @ ''rio'') @ criterion
     @ [newline] @ heading (''O que '' @ label @ '' entregou'') @ delivery @ [newline]
     @ heading ''Como responder'' @ ''Verifique no projeto, sem alterar nada, e chame `submit_step` com `summary` ''
     @ ''curto e `criteria: [{'' @ [CHR 0x22] @ ''number'' @ [CHR 0x22] @ '': 1, '' @ [CHR 0x22] @ ''passed'' @ [CHR 0x22]
     @ '': true|false, '' @ [CHR 0x22] @ ''evidence'' @ [CHR 0x22] @ '': '' @ [CHR 0x22] @ ''...'' @ [CHR 0x22]
     @ ''}]`. Depois encerre o turno.''"

section \<open>Work under way and its results\<close>

record self_check =
  sc_number :: nat
  sc_passed :: bool
  sc_evidence :: string

record submit_input =
  si_summary :: string
  si_outputs :: "(string, string) btree"
  si_criteria :: "self_check list"

definition submission_from_tool :: "submit_input \<Rightarrow> submission" where
  "submission_from_tool i = \<lparr>sub_summary = si_summary i, sub_outputs = si_outputs i,
     sub_self_checks = fold (\<lambda>c. bt_insert (sc_number c - 1) (sc_passed c, sc_evidence c))
       (filter (\<lambda>c. sc_number c > 0) (si_criteria i)) []\<rparr>"

datatype stop_reason = EndTurn | MaxTokens | Refusal | StopCancelled | StopOther

type_synonym thread_outcome = "submit_input option \<times> stop_reason"

text \<open>A turn that ended normally without \<open>submit_step\<close> gets one reminder, and then the second turn
  counts.\<close>

definition step_thread_outcome :: "thread_outcome \<Rightarrow> thread_outcome \<Rightarrow> thread_outcome" where
  "step_thread_outcome first second =
     (if fst first \<noteq> None \<or> snd first \<noteq> EndTurn then first else second)"

text \<open>The check of a turn's limits, once a second; \<open>elapsed\<close> in nanoseconds.\<close>

definition limit_exceeded :: "step_limits \<Rightarrow> nat \<Rightarrow> nat \<Rightarrow> string option" where
  "limit_exceeded l elapsed turns =
     (let minutes = unat (lim_minutes l) in
      if minutes > 0 \<and> elapsed > minutes * 60 * 1000000000
      then Some (''passou do limite de '' @ nat_to_string minutes @ '' min'')
      else if lim_turns l > 0 \<and> turns > unat (lim_turns l)
      then Some (''passou do limite de '' @ nat_to_string (unat (lim_turns l)) @ '' turnos'')
      else None)"

definition stop_reason_message :: "stop_reason \<Rightarrow> string" where
  "stop_reason_message s = (case s of
     StopCancelled \<Rightarrow> ''a thread do passo foi cancelada''
   | MaxTokens \<Rightarrow> ''o modelo chegou ao limite de tokens antes de entregar''
   | Refusal \<Rightarrow> ''o modelo recusou o pedido''
   | _ \<Rightarrow> ''o agente terminou sem chamar submit_step'')"

text \<open>\<open>str::lines\<close>, and the evidence of a command: its exit and the last lines it printed that are not
  blank.\<close>

definition line_text :: "string \<Rightarrow> string" where
  "line_text l = (case strip_suffix [newline] l of
     None \<Rightarrow> l
   | Some l' \<Rightarrow> unwrap_or l' (strip_suffix [CHR 0x0D] l'))"

definition str_lines :: "string \<Rightarrow> string list" where
  "str_lines s = map line_text (split_inclusive s)"

definition int_to_string :: "int \<Rightarrow> string" where
  "int_to_string n = (if n < 0 then ''-'' @ nat_to_string (nat (- n)) else nat_to_string (nat n))"

definition evidence_lines :: nat where
  "evidence_lines = 12"

definition command_evidence :: "int option \<Rightarrow> string \<Rightarrow> string" where
  "command_evidence status printed =
     (let code = (case status of Some c \<Rightarrow> ''saiu '' @ int_to_string c | None \<Rightarrow> ''interrompido'');
          lines = filter (\<lambda>l. trim l \<noteq> []) (str_lines printed);
          tail = str_join [newline] (drop (length lines - evidence_lines) lines) in
      if tail = [] then code else code @ [newline] @ tail)"

definition command_result :: "int option \<Rightarrow> string \<Rightarrow> bool \<times> string" where
  "command_result status printed = (status = Some 0, command_evidence status printed)"

record github_request =
  gr_action :: string
  gr_draft :: bool
  gr_timeout :: u32
  gr_status :: string
  gr_comment :: string
  gr_request :: string
  gr_summary :: string

record github_outcome =
  go_passed :: bool
  go_evidence :: string
  go_outputs :: "(string, string) btree"

definition github_request_of :: "flow_run \<Rightarrow> nat \<Rightarrow> github_action \<Rightarrow> github_request" where
  "github_request_of r step a =
     (let base = \<lparr>gr_action = github_action_key a, gr_draft = False, gr_timeout = 0, gr_status = [],
            gr_comment = [], gr_request = fr_input r, gr_summary = []\<rparr>;
          req = (case a of
             OpenPullRequest draft \<Rightarrow> base\<lparr>gr_draft := draft\<rparr>
           | WaitChecks t \<Rightarrow> base\<lparr>gr_timeout := t\<rparr>
           | MoveItem status \<Rightarrow> base\<lparr>gr_status := status\<rparr>
           | CommentItem text \<Rightarrow> base\<lparr>gr_comment := text\<rparr>
           | StartItem \<Rightarrow> base) in
      req\<lparr>gr_summary := str_join [newline, newline]
        (filter (\<lambda>s. trim s \<noteq> []) (map (delivery_summary r) [0..<step]))\<rparr>)"

datatype pending =
    PAgent nat string task_agent string "step_limits option" string
  | PParallel nat string "(string \<times> (task_agent \<times> string \<times> string) option) list"
  | PCommand nat string
  | PGitHub nat github_request
  | PVerify nat string "(nat \<times> verifier) list" "string list" string string "task_agent list"

text \<open>The view: the flow being edited, the loaded agents and the configured MCP servers, the run and
  the work under way.\<close>

record flow_view =
  fv_flow :: flow
  fv_agents :: "task_agent list"
  fv_servers :: "string list"
  fv_run :: "flow_run option"
  fv_running :: "pending option"

section \<open>Starting what the run needs next\<close>

definition titled :: "string \<Rightarrow> string \<Rightarrow> string" where
  "titled name label = name @ '' '' @ [CHR 0xB7] @ '' '' @ label"

text \<open>\<open>Inl\<close>: the step failed before any work started, and \<open>drive\<close> is called again.\<close>

definition start_agent_step ::
  "run_env \<Rightarrow> nat \<Rightarrow> flow_view \<Rightarrow> flow_run \<Rightarrow> (flow_view + flow_view) option" where
  "start_agent_step E step v r = (let L = env_i18n E in
     Option.bind (nth_opt (flow_steps (fr_flow r)) step) (\<lambda>s.
     let label = step_label L (fv_agents v) s in
     case step_agent L (fv_agents v) (fv_servers v) (step_kind s) of
       Inl e \<Rightarrow> map_option (\<lambda>r'. Inl (v\<lparr>fv_run := Some r'\<rparr>)) (step_errored E step label e (step_started step r))
     | Inr agent \<Rightarrow>
         (let r = step_started step r in
          map_option (\<lambda>prompt. Inr (v\<lparr>fv_run := Some r,
            fv_running := Some (PAgent step label agent prompt
              (case step_kind s of StepAgent a \<Rightarrow> Some (as_limits a) | _ \<Rightarrow> None)
              (titled (flow_name (fr_flow r)) label))\<rparr>))
          (step_prompt L (fv_agents v) r step None))))"

definition ask_profile :: string where
  "ask_profile = ''ask''"

fun parallel_branches ::
  "i18n \<Rightarrow> task_agent list \<Rightarrow> flow_run \<Rightarrow> nat \<Rightarrow> parallel_step \<Rightarrow> string list
     \<Rightarrow> (string \<times> (task_agent \<times> string \<times> string) option) list option" where
  "parallel_branches L agents r step p [] = Some []"
| "parallel_branches L agents r step p (c # cs) =
     Option.bind (case find_agent agents c of
         None \<Rightarrow> Some (''/'' @ c, None)
       | Some t \<Rightarrow>
           (let t = with_submit_step t;
                t = (if pl_read_only p then t\<lparr>ta_profile := Some ask_profile\<rparr> else t) in
            map_option (\<lambda>prompt. (ta_name t, Some (t, prompt, titled (flow_name (fr_flow r)) (ta_name t))))
              (step_prompt L agents r step (Some c)))) (\<lambda>b.
     map_option (\<lambda>bs. b # bs) (parallel_branches L agents r step p cs))"

definition start_parallel_step :: "run_env \<Rightarrow> nat \<Rightarrow> flow_view \<Rightarrow> flow_run \<Rightarrow> flow_view option" where
  "start_parallel_step E step v r = (let L = env_i18n E in
     Option.bind (nth_opt (flow_steps (fr_flow r)) step) (\<lambda>s. case step_kind s of
       StepParallel p \<Rightarrow>
         (let r = step_started step r in
          map_option (\<lambda>branches. v\<lparr>fv_run := Some r,
            fv_running := Some (PParallel step (step_label L (fv_agents v) s) branches)\<rparr>)
          (parallel_branches L (fv_agents v) r step p (pl_agents p)))
     | _ \<Rightarrow> Some v))"

definition start_command_step :: "nat \<Rightarrow> flow_view \<Rightarrow> flow_run \<Rightarrow> flow_view option" where
  "start_command_step step v r = map_option (\<lambda>k. case k of
     StepRun c \<Rightarrow> v\<lparr>fv_run := Some (step_started step r), fv_running := Some (PCommand step (rs_command c))\<rparr>
   | _ \<Rightarrow> v) (kind_at r step)"

definition start_github_step :: "nat \<Rightarrow> flow_view \<Rightarrow> flow_run \<Rightarrow> flow_view option" where
  "start_github_step step v r = map_option (\<lambda>k. case k of
     StepGitHub g \<Rightarrow> v\<lparr>fv_run := Some (step_started step r),
       fv_running := Some (PGitHub step (github_request_of r step (gh_action g)))\<rparr>
   | _ \<Rightarrow> v) (kind_at r step)"

definition start_verification ::
  "nat \<Rightarrow> string \<Rightarrow> (nat \<times> verifier) list \<Rightarrow> flow_run \<Rightarrow> flow_view \<Rightarrow> flow_view option" where
  "start_verification step label criteria r v = map_option (\<lambda>k. v\<lparr>fv_run := Some r,
     fv_running := Some (PVerify step label criteria
       (case k of StepAgent a \<Rightarrow> map crit_text (as_criteria a) | _ \<Rightarrow> [])
       (delivery_summary r step) (flow_name (fr_flow r)) (fv_agents v))\<rparr>) (kind_at r step)"

subsection \<open>The loop ends\<close>

text \<open>\<open>drive\<close> calls itself when an agent step fails before it starts. Each such failure uses up a
  return, moves past the step, uses up a retry or stops the run; returns are only given back by the
  user, so this ends.\<close>

definition backs_left :: "flow_run \<Rightarrow> nat" where
  "backs_left r = (\<Sum>i<length (flow_steps (fr_flow r)). 255 - unat (counter (fr_backs r) i))"

definition retries_left :: "flow_run \<Rightarrow> nat" where
  "retries_left r = 255 - unat (counter (fr_retries r) (fr_cursor r))"

definition drive_order :: "(flow_run \<times> flow_run) set" where
  "drive_order = measures [\<lambda>r. if fr_state r = RunRunning then 1 else 0, backs_left,
     \<lambda>r. length (flow_steps (fr_flow r)) - fr_cursor r, retries_left]"

lemma wf_drive_order: "wf drive_order"
  by (simp add: drive_order_def)

lemma u8_max: "unat (n :: u8) \<le> 255"
  using unsigned_less [of n, where ?'a = nat] by simp

lemma upd_step_keeps:
  "upd_step i g r = Some r' \<Longrightarrow> fr_flow r' = fr_flow r \<and> fr_backs r' = fr_backs r
     \<and> fr_retries r' = fr_retries r \<and> fr_cursor r' = fr_cursor r"
  by (auto simp: upd_step_def split: if_splits)

lemma set_states_keeps:
  "set_states st is r = Some r' \<Longrightarrow> fr_flow r' = fr_flow r \<and> fr_backs r' = fr_backs r
     \<and> fr_retries r' = fr_retries r \<and> fr_cursor r' = fr_cursor r"
  by (induction "is" arbitrary: r) (fastforce simp: bind_eq_Some_conv upd_step_def split: if_splits)+

lemma take_branch_backs: "take_branch E step b r = Some r' \<Longrightarrow> fr_backs r' = fr_backs r"
  by (auto simp: take_branch_def Let_def bind_eq_Some_conv dest!: upd_step_keeps set_states_keeps)

lemma enter_cursor_frame:
  "enter_cursor E r = Some r' \<Longrightarrow>
     fr_flow r' = fr_flow r \<and> fr_backs r' = fr_backs r \<and> fr_cursor r \<le> fr_cursor r'"
proof (induction E r rule: enter_cursor.induct)
  case (1 E r)
  show ?case
  proof (cases "fr_cursor r < length (flow_steps (fr_flow r)) \<and>
      (\<exists>b. step_kind (flow_steps (fr_flow r) ! fr_cursor r) = StepBranch b)")
    case True
    then obtain b r1 where b: "step_kind (flow_steps (fr_flow r) ! fr_cursor r) = StepBranch b"
      "take_branch E (fr_cursor r) b r = Some r1" "enter_cursor E r1 = Some r'"
      using 1(2) by (subst (asm) enter_cursor.simps) (auto simp: bind_eq_Some_conv)
    from take_branch_backs [OF b(2)] 1(1) [OF _ b] True take_branch_progress [OF b(2)] branch_target_later [of "fr_cursor r" r b]
    show ?thesis by auto
  next
    case False
    with 1(2) show ?thesis
      by (subst (asm) enter_cursor.simps)
        (auto simp: enter_gate_def Let_def bind_eq_Some_conv upd_step_def split: if_splits step_kind.splits)
  qed
qed

lemma exhaust_stops: "exhaust E step label reason r = Some r' \<Longrightarrow> fr_state r' \<noteq> RunRunning"
  by (auto simp: exhaust_def bind_eq_Some_conv)

lemma drive_orderI:
  assumes "fr_state r = RunRunning"
    and "fr_state r' \<noteq> RunRunning \<or> backs_left r' < backs_left r \<or>
      backs_left r' = backs_left r \<and> (length (flow_steps (fr_flow r')) - fr_cursor r' < length (flow_steps (fr_flow r)) - fr_cursor r
        \<or> length (flow_steps (fr_flow r')) - fr_cursor r' = length (flow_steps (fr_flow r)) - fr_cursor r
          \<and> retries_left r' < retries_left r)"
  shows "(r', r) \<in> drive_order"
  using assms by (auto simp: drive_order_def)

lemma counter_step_less:
  assumes "\<not> m \<le> (n :: u8)"
  shows "255 - unat (n + 1) < 255 - unat n"
proof -
  have "unat n < unat m" using assms by (simp add: not_le word_less_nat_alt)
  then have "unat n + 1 \<le> 255" using u8_max [of m] by linarith
  then have "unat (n + 1) = unat n + 1" by (simp add: unat_word_ariths)
  with u8_max [of "n + 1"] show ?thesis by linarith
qed

lemma backs_left_less:
  assumes "step < length (flow_steps (fr_flow r))" "fr_flow r' = fr_flow r"
    and "\<And>i. i \<noteq> step \<Longrightarrow> counter (fr_backs r') i = counter (fr_backs r) i"
    and "counter (fr_backs r') step = counter (fr_backs r) step + 1" "\<not> m \<le> counter (fr_backs r) step"
  shows "backs_left r' < backs_left r"
  unfolding backs_left_def assms(2)
proof (rule sum_strict_mono_ex1)
  have "255 - unat (counter (fr_backs r') step) < 255 - unat (counter (fr_backs r) step)"
    unfolding assms(4) using assms(5) by (rule counter_step_less)
  then show "\<exists>i\<in>{..<length (flow_steps (fr_flow r))}.
      255 - unat (counter (fr_backs r') i) < 255 - unat (counter (fr_backs r) i)"
    and "\<forall>i\<in>{..<length (flow_steps (fr_flow r))}.
      255 - unat (counter (fr_backs r') i) \<le> 255 - unat (counter (fr_backs r) i)"
    using assms(1,3) by (auto, metis less_imp_le order_refl)
qed simp

lemma back_step_order:
  assumes "back_step E step label reason target m r = Some r'" "fr_state r = RunRunning"
    and "fr_cursor r = step" "step < length (flow_steps (fr_flow r))"
  shows "(r', r) \<in> drive_order"
proof (cases "fr_state r' = RunRunning")
  case True
  then obtain j where j: "step_index (fr_flow r) target = Some j" "\<not> m \<le> counter (fr_backs r) step"
    using assms(1)
    by (auto simp: back_step_def Let_def split: option.splits if_splits dest!: exhaust_stops)
  have "fr_flow r' = fr_flow r \<and> counter (fr_backs r') = (counter (fr_backs r)) (step := counter (fr_backs r) step + 1)"
    using assms(1) j
    by (auto simp: back_step_def Let_def bind_eq_Some_conv fun_eq_iff
        dest!: upd_step_keeps set_states_keeps)
  then show ?thesis
    using backs_left_less [OF assms(4), of r' m] j(2) assms(2) by (intro drive_orderI) auto
qed (use assms(2) in \<open>auto intro: drive_orderI\<close>)

lemma retry_step_order:
  assumes "retry_step E step label reason m r = Some r'" "fr_state r = RunRunning" "fr_cursor r = step"
  shows "(r', r) \<in> drive_order"
proof (cases "fr_state r' = RunRunning")
  case True
  then have m: "\<not> m \<le> counter (fr_retries r) step"
    using assms(1) by (auto simp: retry_step_def Let_def split: if_splits dest!: exhaust_stops)
  then have "fr_flow r' = fr_flow r \<and> fr_backs r' = fr_backs r \<and> fr_cursor r' = step
      \<and> counter (fr_retries r') step = counter (fr_retries r) step + 1"
    using assms(1)
    by (auto simp: retry_step_def Let_def bind_eq_Some_conv dest!: upd_step_keeps)
  then show ?thesis
    using assms(2,3) counter_step_less [OF m]
    by (intro drive_orderI) (auto simp: backs_left_def retries_left_def)
qed (use assms(2) in \<open>auto intro: drive_orderI\<close>)

lemma pass_step_order:
  assumes "pass_step E step n r = Some r'" "fr_state r = RunRunning"
    and "fr_cursor r = step" "step < length (flow_steps (fr_flow r))"
  shows "(r', r) \<in> drive_order"
proof -
  have "fr_flow r' = fr_flow r \<and> fr_backs r' = fr_backs r \<and> step < fr_cursor r'"
    using assms(1)
    by (auto simp: pass_step_def bind_eq_Some_conv Suc_le_eq
        dest!: enter_cursor_frame upd_step_keeps)
  with assms show ?thesis by (intro drive_orderI) (auto simp: backs_left_def)
qed

lemma fail_step_order:
  assumes "fail_step E step label reason r = Some r'" "fr_state r = RunRunning" "fr_cursor r = step"
  shows "(r', r) \<in> drive_order"
proof -
  obtain k where k: "kind_at r step = Some k" using assms(1) by (auto simp: fail_step_def bind_eq_Some_conv)
  then have n: "step < length (flow_steps (fr_flow r))" by (auto simp: kind_at_def)
  show ?thesis
    using assms k n pass_step_order retry_step_order back_step_order
      drive_orderI [OF assms(2), of r'] exhaust_stops [of E step label reason r r']
    by (auto simp: fail_step_def split: on_fail.splits)
qed

lemma step_started_frame [simp]:
  "fr_flow (step_started step r) = fr_flow r" "fr_input (step_started step r) = fr_input r"
  "fr_state (step_started step r) = fr_state r" "fr_cursor (step_started step r) = fr_cursor r"
  "fr_backs (step_started step r) = fr_backs r" "fr_retries (step_started step r) = fr_retries r"
  by (auto simp: step_started_def upd_step_def split: option.splits if_splits)

lemma drive_order_started: "(r', step_started step r) \<in> drive_order \<longleftrightarrow> (r', r) \<in> drive_order"
  by (simp add: drive_order_def backs_left_def retries_left_def)

lemma next_action_start:
  "next_action r = Some (StartAgent step) \<Longrightarrow> fr_state r = RunRunning \<and> step = fr_cursor r"
  by (auto simp: next_action_def Let_def split: run_state.splits option.splits if_splits step_kind.splits)
    (metis step_kind.exhaust)+

lemma start_agent_step_again:
  assumes "next_action r = Some (StartAgent step)" "start_agent_step E step v r = Some (Inl v')"
  shows "\<exists>r'. fv_run v' = Some r' \<and> (r', r) \<in> drive_order"
proof -
  from assms(2) obtain label e r' where "fv_run v' = Some r'" "fail_step E step label e (step_started step r) = Some r'"
    by (auto simp: start_agent_step_def Let_def bind_eq_Some_conv step_errored_def split: sum.splits)
  with next_action_start [OF assms(1)] fail_step_order drive_order_started show ?thesis by fastforce
qed

function drive :: "run_env \<Rightarrow> flow_view \<Rightarrow> flow_view option" where
  "drive E v =
     (if fv_running v \<noteq> None then Some v
      else case fv_run v of
        None \<Rightarrow> Some v
      | Some r \<Rightarrow> (case next_action r of
          None \<Rightarrow> None
        | Some (StartAgent step) \<Rightarrow> (case start_agent_step E step v r of
              None \<Rightarrow> None
            | Some (Inl v') \<Rightarrow> drive E v'
            | Some (Inr v') \<Rightarrow> Some v')
        | Some (RunCommand step) \<Rightarrow> start_command_step step v r
        | Some (RunGitHub step) \<Rightarrow> start_github_step step v r
        | Some (StartParallel step) \<Rightarrow> start_parallel_step E step v r
        | Some Wait \<Rightarrow> Some v
        | Some Done \<Rightarrow> Some v))"
  by pat_completeness auto
termination
  by (relation "inv_image drive_order (\<lambda>(E, v). the (fv_run v))")
    (auto simp: wf_drive_order dest: start_agent_step_again)

declare drive.simps [simp del]

section \<open>Results\<close>

text \<open>Each result first ends the work of the view; it then counts only while the run is not finished.
  The payload of a thread is its error or what it ended with.\<close>

definition agent_finished ::
  "run_env \<Rightarrow> nat \<Rightarrow> string \<Rightarrow> string + thread_outcome \<Rightarrow> flow_view \<Rightarrow> flow_view option" where
  "agent_finished E step label outcome v =
     (let v = v\<lparr>fv_running := None\<rparr> in
      case fv_run v of
        None \<Rightarrow> drive E v
      | Some r \<Rightarrow>
          if is_finished r then Some v
          else (case outcome of
            Inr (Some sub, _) \<Rightarrow>
              Option.bind (agent_submitted E step label (submission_from_tool sub) r) (\<lambda>(r, external).
              if external \<noteq> [] then start_verification step label external r v
              else drive E (v\<lparr>fv_run := Some r\<rparr>))
          | Inr (None, reason) \<Rightarrow>
              Option.bind (step_errored E step label (stop_reason_message reason) r) (\<lambda>r.
              drive E (v\<lparr>fv_run := Some r\<rparr>))
          | Inl e \<Rightarrow> Option.bind (step_errored E step label e r) (\<lambda>r. drive E (v\<lparr>fv_run := Some r\<rparr>))))"

definition branch_result ::
  "string \<times> (task_agent \<times> string \<times> string) option \<Rightarrow> string + thread_outcome \<Rightarrow> string \<times> (string + submission)" where
  "branch_result b outcome = (fst b, case snd b of
     None \<Rightarrow> Inl (''o agente n'' @ [CHR 0xE3] @ ''o existe mais; edite a esteira'')
   | Some _ \<Rightarrow> (case outcome of
         Inr (Some sub, _) \<Rightarrow> Inr (submission_from_tool sub)
       | Inr (None, _) \<Rightarrow> Inl ''terminou sem chamar submit_step''
       | Inl e \<Rightarrow> Inl e))"

text \<open>Applies a result to a run that is not finished, then drives the view.\<close>

definition with_run :: "run_env \<Rightarrow> (flow_run \<Rightarrow> flow_run option) \<Rightarrow> flow_view \<Rightarrow> flow_view option" where
  "with_run E g v =
     (let v = v\<lparr>fv_running := None\<rparr> in
      case fv_run v of
        Some r \<Rightarrow> if is_finished r then drive E v else Option.bind (g r) (\<lambda>r. drive E (v\<lparr>fv_run := Some r\<rparr>))
      | None \<Rightarrow> drive E v)"

definition parallel_done ::
  "run_env \<Rightarrow> nat \<Rightarrow> string \<Rightarrow> (string \<times> (task_agent \<times> string \<times> string) option) list
     \<Rightarrow> (string + thread_outcome) list \<Rightarrow> flow_view \<Rightarrow> flow_view option" where
  "parallel_done E step label branches outcomes =
     with_run E (parallel_finished E step label (map2 branch_result branches outcomes))"

definition command_done :: "run_env \<Rightarrow> nat \<Rightarrow> string + bool \<times> string \<Rightarrow> flow_view \<Rightarrow> flow_view option" where
  "command_done E step result = with_run E (case result of
     Inr (passed, evidence) \<Rightarrow> command_finished E step passed evidence
   | Inl e \<Rightarrow> command_finished E step False e)"

definition github_done :: "run_env \<Rightarrow> nat \<Rightarrow> string + github_outcome \<Rightarrow> flow_view \<Rightarrow> flow_view option" where
  "github_done E step result = with_run E (case result of
     Inr g \<Rightarrow> github_finished E step (go_passed g) (go_evidence g) (go_outputs g)
   | Inl e \<Rightarrow> command_finished E step False e)"

text \<open>What came back for one criterion: of its command, or of the thread of its agent.\<close>

record verify_reply =
  vr_command :: "string + bool \<times> string"
  vr_thread :: "string + submit_input option"

definition outcome_of :: "bool \<Rightarrow> criterion_outcome" where
  "outcome_of passed = (if passed then OutcomePassed else OutcomeFailed)"

definition agent_verdict :: "task_agent list \<Rightarrow> string \<Rightarrow> string + submit_input option \<Rightarrow> string + bool \<times> string" where
  "agent_verdict agents command reply =
     (if find_agent agents command = None
      then Inl (''o agente /'' @ command @ '' n'' @ [CHR 0xE3] @ ''o existe'')
      else case reply of
        Inl e \<Rightarrow> Inl e
      | Inr None \<Rightarrow> Inl ''o verificador terminou sem chamar submit_step''
      | Inr (Some sub) \<Rightarrow>
          (let check = (case si_criteria sub of c # _ \<Rightarrow> c
             | [] \<Rightarrow> \<lparr>sc_number = 0, sc_passed = False, sc_evidence = []\<rparr>) in
           Inr (sc_passed check, titled (''/'' @ command)
             (if sc_evidence check = [] then si_summary sub else sc_evidence check))))"

definition verify_result ::
  "task_agent list \<Rightarrow> nat \<times> verifier \<Rightarrow> verify_reply \<Rightarrow> criterion_result option" where
  "verify_result agents = (\<lambda>(index, v) reply. case v of
     VerifyCommand command \<Rightarrow> Some (case vr_command reply of
         Inr (passed, evidence) \<Rightarrow> \<lparr>cr_index = index, cr_outcome = outcome_of passed, cr_evidence = titled command evidence\<rparr>
       | Inl e \<Rightarrow> \<lparr>cr_index = index, cr_outcome = OutcomeFailed, cr_evidence = titled command e\<rparr>)
   | VerifyAgent command \<Rightarrow> Some (case agent_verdict agents command (vr_thread reply) of
         Inr (passed, evidence) \<Rightarrow> \<lparr>cr_index = index, cr_outcome = outcome_of passed, cr_evidence = evidence\<rparr>
       | Inl e \<Rightarrow> \<lparr>cr_index = index, cr_outcome = OutcomeFailed, cr_evidence = titled (''/'' @ command) e\<rparr>)
   | _ \<Rightarrow> None)"

definition verification_done ::
  "run_env \<Rightarrow> nat \<Rightarrow> string \<Rightarrow> (nat \<times> verifier) list \<Rightarrow> task_agent list \<Rightarrow> verify_reply list \<Rightarrow> flow_view
     \<Rightarrow> flow_view option" where
  "verification_done E step label criteria agents replies =
     with_run E (criteria_verified E step label
       (List.map_filter (\<lambda>(c, reply). verify_result agents c reply) (zip criteria replies)))"

section \<open>The user\<close>

text \<open>\<open>stop\<close> drops the work under way and, with a reason, cancels the run. \<open>begin_run\<close> replaces the run.\<close>

definition stop :: "run_env \<Rightarrow> string option \<Rightarrow> flow_view \<Rightarrow> flow_view" where
  "stop E reason v =
     (let v = v\<lparr>fv_running := None\<rparr> in
      case (reason, fv_run v) of
        (Some why, Some r) \<Rightarrow> v\<lparr>fv_run := Some (cancel E why r)\<rparr>
      | _ \<Rightarrow> v)"

definition begin_run :: "run_env \<Rightarrow> string \<Rightarrow> flow_view \<Rightarrow> flow_view option" where
  "begin_run E input v =
     (let v = stop E None v in
      Option.bind (run_new E (fv_flow v) input) (\<lambda>r. drive E (v\<lparr>fv_run := Some r\<rparr>)))"

definition after_answer :: "run_env \<Rightarrow> (flow_run \<Rightarrow> flow_run option) \<Rightarrow> flow_view \<Rightarrow> flow_view option" where
  "after_answer E g v = (case fv_run v of
     Some r \<Rightarrow> Option.bind (g r) (\<lambda>r. drive E (v\<lparr>fv_run := Some r\<rparr>))
   | None \<Rightarrow> drive E v)"

text \<open>Closing the app and resuming the run in a new view: the work under way is gone, the run comes
  back from its snapshot and continues. The flow text kept with the snapshot is taken to read back
  as the flow of the run.\<close>

definition reopen_run :: "run_env \<Rightarrow> flow_view \<Rightarrow> flow_view option" where
  "reopen_run E v = (case fv_run v of
     None \<Rightarrow> Some (v\<lparr>fv_running := None\<rparr>)
   | Some r \<Rightarrow> (case restore (fr_flow r) (snapshot r) of
       None \<Rightarrow> Some (v\<lparr>fv_running := None, fv_run := None\<rparr>)
     | Some r' \<Rightarrow> drive E (v\<lparr>fv_running := None, fv_run := Some (resume E r'),
         fv_flow := fr_flow r'\<rparr>)))"

section \<open>What a prompt carries\<close>

lemma fold_push_input:
  assumes "distinct (map fst kvs)"
  shows "(name, value, i) \<in> set (fold (push_input index) kvs inputs) \<longleftrightarrow>
    (if name \<in> fst ` set kvs then map_of kvs name = Some value \<and> i = index else (name, value, i) \<in> set inputs)"
  using assms
proof (induction kvs arbitrary: inputs)
  case (Cons kv kvs)
  then show ?case by (cases kv) (auto simp: push_input_def image_iff)
qed simp

lemma fold_push_input_distinct:
  "distinct (map fst inputs) \<Longrightarrow> distinct (map fst (fold (push_input index) kvs inputs))"
proof (induction kvs arbitrary: inputs)
  case (Cons kv kvs)
  have "distinct (map fst (push_input index kv inputs))"
    using Cons.prems by (cases kv) (auto simp: push_input_def distinct_map inj_on_def)
  with Cons.IH show ?case by simp
qed simp

text \<open>Outputs come from \<open>BTreeMap\<close>s.\<close>

definition outputs_wf :: "flow_run \<Rightarrow> bool" where
  "outputs_wf r = list_all (\<lambda>s. case sr_submission s of Some sub \<Rightarrow> bt_wf (sub_outputs sub) | None \<Rightarrow> True) (fr_steps r)"

lemma bt_wf_distinct: "bt_wf m \<Longrightarrow> distinct (map fst m)"
  by (auto simp: bt_wf_def strict_sorted_iff)

lemma delivered_inputs_Suc:
  "step < length (fr_steps r) \<Longrightarrow> delivered_inputs r (Suc step) = (case sr_submission (fr_steps r ! step) of
       None \<Rightarrow> delivered_inputs r step
     | Some sub \<Rightarrow> fold (push_input step) (sub_outputs sub) (delivered_inputs r step))"
  by (simp add: delivered_inputs_def take_Suc_conv_app_nth nth_enumerate_eq split: option.split)

text \<open>What a step is told the earlier steps delivered: one entry per name, and it is the value and
  the step of the latest delivery among the steps before it.\<close>

lemma delivered_inputs_latest:
  assumes "outputs_wf r" "step \<le> length (fr_steps r)"
  shows "distinct (map fst (delivered_inputs r step)) \<and>
    ((name, value, i) \<in> set (delivered_inputs r step) \<longleftrightarrow>
      i < step \<and> output_of (fr_steps r ! i) name = Some value \<and>
      (\<forall>j < step. i < j \<longrightarrow> output_of (fr_steps r ! j) name = None))"
  using assms(2)
proof (induction step)
  case 0
  then show ?case by (simp add: delivered_inputs_def)
next
  case (Suc step)
  then have IH: "distinct (map fst (delivered_inputs r step)) \<and>
    ((name, value, i) \<in> set (delivered_inputs r step) \<longleftrightarrow>
      i < step \<and> output_of (fr_steps r ! i) name = Some value \<and>
      (\<forall>j < step. i < j \<longrightarrow> output_of (fr_steps r ! j) name = None))"
    and s: "step < length (fr_steps r)" by simp_all
  show ?case
  proof (cases "sr_submission (fr_steps r ! step)")
    case None
    with IH s show ?thesis
      by (auto simp: delivered_inputs_Suc output_of_def less_Suc_eq)
  next
    case (Some sub)
    then have "distinct (map fst (sub_outputs sub))"
      using assms(1) s by (intro bt_wf_distinct) (auto simp: outputs_wf_def list_all_length)
    note push = fold_push_input [OF this] fold_push_input_distinct
    have o: "output_of (fr_steps r ! step) name = map_of (sub_outputs sub) name"
      by (simp add: output_of_def Some bt_get_def)
    have "name \<in> fst ` set (sub_outputs sub) \<longleftrightarrow> map_of (sub_outputs sub) name \<noteq> None"
      by (metis map_of_eq_None_iff)
    with IH s Some o push show ?thesis
      by (auto simp: delivered_inputs_Suc less_Suc_eq)
  qed
qed

definition delivery_run :: flow_run where
  "delivery_run = branch_run\<lparr>fr_steps := map (\<lambda>value. step_run_new\<lparr>sr_submission :=
     Some \<lparr>sub_summary = [], sub_outputs = [(''diff'', value)], sub_self_checks = []\<rparr>\<rparr>) [''a'', ''b'']
     @ replicate 2 step_run_new\<rparr>"

lemma delivered_inputs_latest_witness: "(''diff'', ''b'', 1) \<in> set (delivered_inputs delivery_run 3)"
proof -
  have "outputs_wf delivery_run" "3 \<le> length (fr_steps delivery_run)"
    "output_of (fr_steps delivery_run ! 1) ''diff'' = Some ''b''"
    "output_of (fr_steps delivery_run ! 2) ''diff'' = None"
    by code_simp+
  then show ?thesis
    using delivered_inputs_latest [of delivery_run 3 "''diff''" "''b''" 1]
    by (auto simp: numeral_3_eq_3 less_Suc_eq numeral_2_eq_2)
qed

end
