(* ===== verification/FlowSystem.thy ===== *)
theory FlowSystem
  imports FlowRunner
begin

text \<open>
  The flow view as a system of events: what the user does, what comes back from threads, commands and
  GitHub, edits of the flow and of the agents, and closing and reopening the app. A result arrives
  only for the work under way. The invariant of a run is carried over every event, which gives the
  properties of whole runs: no handler panics, nothing stalls, and what a finished run has passed.
\<close>

section \<open>Events\<close>

datatype view_event =
    UserBegin string
  | UserStop string
  | UserGate bool string
  | UserCriteria nat string bool
  | UserExhausted bool
  | ThreadDone "string + thread_outcome"
  | ParallelDone "(string + thread_outcome) list"
  | CommandDone "string + bool \<times> string"
  | GitHubDone "string + github_outcome"
  | VerifyDone "verify_reply list"
  | FlowEdited flow
  | AgentsLoaded "task_agent list"
  | ServersChanged "string list"
  | Reopened

text \<open>A run begins only for a flow without problems. The other answers of the user may come at any
  time; the run ignores those it does not wait for.\<close>

inductive view_step :: "run_env \<Rightarrow> flow_view \<Rightarrow> view_event \<Rightarrow> flow_view option \<Rightarrow> bool" for E where
  step_begin: "validate_flow (env_i18n E) (fv_flow v) (fv_agents v) = [] \<Longrightarrow>
    view_step E v (UserBegin input) (begin_run E input v)"
| step_stop: "view_step E v (UserStop reason) (Some (stop E (Some reason) v))"
| step_gate: "view_step E v (UserGate approve n) (after_answer E (answer_gate E approve n) v)"
| step_criteria: "view_step E v (UserCriteria step label accept)
    (after_answer E (answer_criteria E step label accept) v)"
| step_exhausted: "view_step E v (UserExhausted retry) (after_answer E (answer_exhausted E retry) v)"
| step_thread: "fv_running v = Some (PAgent step label agent prompt limits title) \<Longrightarrow>
    view_step E v (ThreadDone outcome) (agent_finished E step label outcome v)"
| step_parallel: "fv_running v = Some (PParallel step label branches) \<Longrightarrow> length outcomes = length branches \<Longrightarrow>
    view_step E v (ParallelDone outcomes) (parallel_done E step label branches outcomes v)"
| step_command: "fv_running v = Some (PCommand step command) \<Longrightarrow>
    view_step E v (CommandDone result) (command_done E step result v)"
| step_github: "fv_running v = Some (PGitHub step request) \<Longrightarrow>
    view_step E v (GitHubDone outcome) (github_done E step outcome v)"
| step_verify: "fv_running v = Some (PVerify step label criteria texts delivery name agents) \<Longrightarrow>
    length replies = length criteria \<Longrightarrow>
    view_step E v (VerifyDone replies) (verification_done E step label criteria agents replies v)"
| step_edit: "view_step E v (FlowEdited f) (Some (v\<lparr>fv_flow := f\<rparr>))"
| step_agents: "view_step E v (AgentsLoaded agents) (Some (v\<lparr>fv_agents := agents\<rparr>))"
| step_servers: "view_step E v (ServersChanged servers) (Some (v\<lparr>fv_servers := servers\<rparr>))"
| step_reopen: "view_step E v Reopened (reopen_run E v)"

inductive_cases view_stepE: "view_step E v e m"

definition view_init :: "flow_view \<Rightarrow> bool" where
  "view_init v = (fv_run v = None \<and> fv_running v = None)"

definition view_reachable :: "run_env \<Rightarrow> flow_view \<Rightarrow> bool" where
  "view_reachable E v = reach view_init (view_step E) v"

section \<open>The invariant\<close>

definition pending_ok :: "pending \<Rightarrow> flow_run \<Rightarrow> bool" where
  "pending_ok p r = (case p of
     PAgent step _ _ _ _ _ \<Rightarrow> working Running step r \<and> (\<exists>a. step_kind (flow_steps (fr_flow r) ! step) = StepAgent a)
   | PParallel step _ _ \<Rightarrow> working Running step r \<and> (\<exists>p. step_kind (flow_steps (fr_flow r) ! step) = StepParallel p)
   | PCommand step _ \<Rightarrow> working Running step r \<and> (\<exists>c. step_kind (flow_steps (fr_flow r) ! step) = StepRun c)
   | PGitHub step _ \<Rightarrow> working Running step r \<and> (\<exists>g. step_kind (flow_steps (fr_flow r) ! step) = StepGitHub g)
   | PVerify step _ _ _ _ _ _ \<Rightarrow> working Verifying step r)"

definition view_inv :: "flow_view \<Rightarrow> bool" where
  "view_inv v = (case fv_run v of
     None \<Rightarrow> fv_running v = None
   | Some r \<Rightarrow> run_inv r \<and> (case fv_running v of
       Some p \<Rightarrow> pending_ok p r
     | None \<Rightarrow> ready r \<and> (fr_state r = RunRunning \<longrightarrow> \<not> work_kind (step_kind (flow_steps (fr_flow r) ! fr_cursor r)))))"

lemma step_prompt_total:
  assumes "step < length (flow_steps (fr_flow r))" "length (fr_steps r) = length (flow_steps (fr_flow r))"
  shows "\<exists>prompt. step_prompt L agents r step branch = Some prompt"
  using assms
  by (auto simp: step_prompt_def Let_def kind_at_def step_at_def nth_opt_def split: step_kind.split option.split)

lemma parallel_branches_total:
  assumes "step < length (flow_steps (fr_flow r))" "length (fr_steps r) = length (flow_steps (fr_flow r))"
  shows "\<exists>bs. parallel_branches L agents r step p cs = Some bs"
proof (induction cs)
  case (Cons c cs)
  with step_prompt_total [OF assms, of L agents "Some c"] show ?case
    by (auto simp: Let_def split: option.split)
qed simp

lemma run_inv_lengths:
  assumes "run_inv r" shows "length (fr_steps r) = length (flow_steps (fr_flow r))"
  using assms by (simp add: run_inv_def shape_def)

lemma running_in_range: "run_inv r \<Longrightarrow> fr_state r = RunRunning \<Longrightarrow> fr_cursor r < length (flow_steps (fr_flow r))"
  by (auto simp: run_inv_def state_ok_def Let_def)

lemma wp_start_agent_step:
  assumes "run_inv r" "fr_state r = RunRunning" "step_kind (flow_steps (fr_flow r) ! fr_cursor r) = StepAgent a"
  shows "wp (start_agent_step E (fr_cursor r) v r) (\<lambda>s. case s of
      Inl v' \<Rightarrow> \<exists>r'. v' = v\<lparr>fv_run := Some r'\<rparr> \<and> keeps r r'
    | Inr v' \<Rightarrow> view_inv v')"
proof -
  let ?r = "step_started (fr_cursor r) r"
  have c: "fr_cursor r < length (flow_steps (fr_flow r))" using running_in_range assms by blast
  have s: "run_inv ?r" "working Running (fr_cursor r) ?r"
    using step_started_inv [OF assms(1,2)] assms(3) by (auto simp: work_kind_def)
  then have d: "deciding (fr_cursor r) ?r" by (rule working_deciding)
  have "keeps ?r = keeps r" by (rule keeps_cong) simp_all
  then have err: "wp (step_errored E (fr_cursor r) label e ?r) (keeps r)" for label e
    using wp_fail_step [OF d] assms(3) by (auto simp: step_errored_def work_kind_def)
  obtain prompt where "step_prompt (env_i18n E) (fv_agents v) ?r (fr_cursor r) None = Some prompt"
    using step_prompt_total [of "fr_cursor r" ?r "env_i18n E" "fv_agents v" None] c run_inv_lengths [OF s(1)] by auto
  then show ?thesis
    using c s assms(3) err
    by (auto simp: start_agent_step_def Let_def wp_nth_opt view_inv_def pending_ok_def split: sum.split
        intro: wp_mono [OF err])
qed

lemma wp_drive_other:
  assumes "fv_running v = None" "fv_run v = Some r" "run_inv r" "ready r"
    and "fr_state r = RunRunning \<longrightarrow> \<not> is_agent_kind (step_kind (flow_steps (fr_flow r) ! fr_cursor r))"
  shows "wp (drive E v) view_inv"
proof (cases "fr_state r = RunRunning")
  case False
  then have "next_action r \<in> {Some Wait, Some Done}"
    by (auto simp: next_action_def split: run_state.split)
  with assms False show ?thesis by (subst drive.simps) (auto simp: view_inv_def)
next
  case True
  let ?k = "step_kind (flow_steps (fr_flow r) ! fr_cursor r)"
  have c: "fr_cursor r < length (flow_steps (fr_flow r))" using running_in_range assms(3) True by blast
  note act = next_action_running [OF assms(3) True] assms(4) [unfolded ready_def] True
  have s: "run_inv (step_started (fr_cursor r) r)" "working Running (fr_cursor r) (step_started (fr_cursor r) r)"
    if "work_kind ?k"
    using step_started_inv [OF assms(3) True that] by blast+
  show ?thesis
  proof (cases ?k)
    case (StepParallel p)
    obtain bs where "parallel_branches (env_i18n E) (fv_agents v) (step_started (fr_cursor r) r)
        (fr_cursor r) p (pl_agents p) = Some bs"
      using parallel_branches_total [of "fr_cursor r" "step_started (fr_cursor r) r" "env_i18n E" "fv_agents v" p "pl_agents p"]
        c run_inv_lengths [OF s(1)] StepParallel by (auto simp: work_kind_def)
    with assms act StepParallel s c show ?thesis
      by (subst drive.simps)
        (auto simp: start_parallel_step_def Let_def wp_nth_opt view_inv_def pending_ok_def work_kind_def)
  qed (use assms act s c in \<open>(subst drive.simps, force simp: start_command_step_def start_github_step_def
        wp_simps view_inv_def pending_ok_def work_kind_def is_agent_kind_def)+\<close>)
qed

lemma wp_drive:
  assumes "fv_running v = None" "\<And>r. fv_run v = Some r \<Longrightarrow> run_inv r \<and> ready r"
  shows "wp (drive E v) view_inv"
  using assms
proof (induction E v rule: drive.induct)
  case (1 E v)
  show ?case
  proof (cases "\<exists>r a. fv_run v = Some r \<and> fr_state r = RunRunning \<and>
      step_kind (flow_steps (fr_flow r) ! fr_cursor r) = StepAgent a")
    case False
    show ?thesis
    proof (cases "fv_run v")
      case None
      with 1(2) show ?thesis by (subst drive.simps) (simp add: view_inv_def)
    next
      case (Some r)
      with False have "fr_state r = RunRunning \<longrightarrow> \<not> is_agent_kind (step_kind (flow_steps (fr_flow r) ! fr_cursor r))"
        by (auto simp: is_agent_kind_def split: step_kind.splits)
      with 1(2) 1(3) [OF Some] Some show ?thesis by (intro wp_drive_other) auto
    qed
  next
    case True
    then obtain r a where ra: "fv_run v = Some r" "fr_state r = RunRunning"
      "step_kind (flow_steps (fr_flow r) ! fr_cursor r) = StepAgent a" by blast
    from 1(3) [OF ra(1)] have r: "run_inv r" "ready r" by auto
    have act: "next_action r = Some (StartAgent (fr_cursor r))"
      using next_action_running [OF r(1) ra(2)] r(2) ra by (simp add: ready_def)
    obtain x where x: "start_agent_step E (fr_cursor r) v r = Some x"
      "case x of Inl v' \<Rightarrow> \<exists>r'. v' = v\<lparr>fv_run := Some r'\<rparr> \<and> keeps r r' | Inr v' \<Rightarrow> view_inv v'"
      using wpE [OF wp_start_agent_step [OF r(1) ra(2,3), of E v]] by blast
    show ?thesis
    proof (cases x)
      case (Inl v')
      with x(2) obtain r' where r': "v' = v\<lparr>fv_run := Some r'\<rparr>" "keeps r r'" by auto
      have "wp (drive E v') view_inv"
        using 1(1) [OF _ ra(1) act refl x(1) Inl] 1(2) r' by (auto simp: keeps_def)
      with ra act x(1) Inl 1(2) show ?thesis by (subst drive.simps) simp
    next
      case (Inr v')
      with ra act x 1(2) show ?thesis by (subst drive.simps) simp
    qed
  qed
qed

lemma wp_with_run:
  assumes "fv_run v = Some r" "run_inv r" "wp (g r) (keeps r)"
  shows "wp (with_run E g v) view_inv"
proof (cases "is_finished r")
  case True
  then have "ready r" by (auto simp: ready_def is_finished_def split: run_state.splits)
  with assms True show ?thesis by (auto simp: with_run_def Let_def intro!: wp_drive)
next
  case False
  have "wp (drive E (v\<lparr>fv_running := None, fv_run := Some r'\<rparr>)) view_inv" if "keeps r r'" for r'
    using that by (intro wp_drive) (auto simp: keeps_def)
  with assms False show ?thesis by (auto simp: with_run_def Let_def elim!: wp_mono)
qed

lemma answer_while_running:
  assumes "fr_state r = RunRunning"
  shows "answer_gate E approve n r = Some r" "answer_criteria E step label accept r = Some r"
    "answer_exhausted E retry r = Some r"
  using assms by (simp_all add: answer_gate_def answer_criteria_def answer_exhausted_def)

lemma wp_after_answer:
  assumes "view_inv v" "\<And>r. run_inv r \<Longrightarrow> wp (g r) (\<lambda>r'. keeps r r' \<or> r' = r)"
    and "\<And>r. fr_state r = RunRunning \<Longrightarrow> g r = Some r"
  shows "wp (after_answer E g v) view_inv"
proof (cases "fv_run v")
  case None
  with assms(1) show ?thesis by (auto simp: after_answer_def view_inv_def intro!: wp_drive)
next
  case (Some r)
  show ?thesis
  proof (cases "fv_running v")
    case None
    with Some assms(1) have r: "run_inv r" "ready r" by (auto simp: view_inv_def)
    have "wp (drive E (v\<lparr>fv_run := Some r'\<rparr>)) view_inv" if "keeps r r' \<or> r' = r" for r'
      using that r None by (intro wp_drive) (auto simp: keeps_def)
    then show ?thesis using assms(2) [OF r(1)] by (auto simp: after_answer_def Some elim!: wp_mono)
  next
    case (Some p)
    with \<open>fv_run v = Some r\<close> assms(1) have "fr_state r = RunRunning"
      by (auto simp: view_inv_def pending_ok_def working_def split: pending.splits)
    moreover have "view_inv (v\<lparr>fv_run := Some r\<rparr>)"
      using assms(1) \<open>fv_run v = Some r\<close> by (simp add: view_inv_def)
    moreover have "drive E (v\<lparr>fv_run := Some r\<rparr>) = Some (v\<lparr>fv_run := Some r\<rparr>)"
      using Some by (subst drive.simps) simp
    ultimately show ?thesis using assms(3) \<open>fv_run v = Some r\<close> by (simp add: after_answer_def)
  qed
qed

lemma wp_agent_finished:
  assumes "fv_run v = Some r" "run_inv r" "working Running step r" "step_kind (flow_steps (fr_flow r) ! step) = StepAgent a"
  shows "wp (agent_finished E step label outcome v) view_inv"
proof -
  have d: "deciding step r" using assms(2,3) by (rule working_deciding)
  have go: "wp (drive E (v\<lparr>fv_running := None, fv_run := Some r'\<rparr>)) view_inv" if "keeps r r'" for r'
    using that by (intro wp_drive) (auto simp: keeps_def)
  have err: "wp (step_errored E step label e r) (\<lambda>r'. wp (drive E (v\<lparr>fv_running := None, fv_run := Some r'\<rparr>)) view_inv)" for e
    unfolding step_errored_def using wp_fail_step [OF d] assms(4) by (auto simp: work_kind_def intro: wp_mono go)
  have ver: "wp (start_verification step label ext r' (v\<lparr>fv_running := None\<rparr>)) view_inv"
    if "run_inv r'" "fr_flow r' = fr_flow r" "working Verifying step r'" for ext r'
    using that by (auto simp: start_verification_def wp_simps view_inv_def pending_ok_def working_def)
  have sub: "wp (agent_submitted E step label s r) (\<lambda>x.
      (snd x \<noteq> [] \<longrightarrow> wp (start_verification step label (snd x) (fst x) (v\<lparr>fv_running := None\<rparr>)) view_inv) \<and>
      (snd x = [] \<longrightarrow> wp (drive E (v\<lparr>fv_running := None, fv_run := Some (fst x)\<rparr>)) view_inv))" for s
    by (rule wp_mono [OF wp_agent_submitted [OF assms(2,3,4)]]) (auto intro: go ver split: if_splits)
  have "\<not> is_finished r" using assms(3) by (simp add: working_def is_finished_def)
  then show ?thesis
    using assms(1) err sub
    by (auto simp: agent_finished_def Let_def if_distrib [of "\<lambda>m. wp m view_inv"] case_prod_beta
        split: sum.split option.split)
qed

lemma view_inv_stop: "view_inv v \<Longrightarrow> view_inv (stop E (Some reason) v)"
proof (cases "fv_run v")
  case (Some r)
  moreover assume "view_inv v"
  ultimately have "keeps r (cancel E reason r)" by (intro keeps_cancel) (simp add: view_inv_def)
  moreover have "fr_state (cancel E reason r) \<noteq> RunRunning"
    using cancel_finished [of E reason r] by (auto simp: is_finished_def)
  ultimately show ?thesis using Some by (auto simp: stop_def view_inv_def keeps_def)
qed (simp add: stop_def view_inv_def)

lemma wp_begin_run:
  assumes "validate_flow L (fv_flow v) agents = []"
  shows "wp (begin_run E input v) view_inv"
proof -
  have "wp (drive E (v\<lparr>fv_running := None, fv_run := Some r\<rparr>)) view_inv" if "run_inv r" "ready r" for r
    using that by (intro wp_drive) auto
  moreover have "stop E None v = v\<lparr>fv_running := None\<rparr>" by (simp add: stop_def)
  ultimately show ?thesis
    using wp_run_new [OF validate_flow_flow_sound [OF assms], of E input]
    by (auto simp: begin_run_def elim!: wp_mono)
qed

lemma wp_reopen_run: "view_inv v \<Longrightarrow> wp (reopen_run E v) view_inv"
proof (cases "fv_run v")
  case (Some r)
  moreover assume "view_inv v"
  ultimately have "run_inv r" by (simp add: view_inv_def)
  then obtain r' where r': "restore (fr_flow r) (snapshot r) = Some r'" "keeps r r'"
    using restore_snapshot_inv by (auto simp: wp_iff)
  then have "keeps r' (resume E r')" by (intro keeps_resume) (simp_all add: keeps_def)
  then show ?thesis using Some r' by (auto simp: reopen_run_def keeps_def intro!: wp_drive)
qed (simp add: reopen_run_def view_inv_def)

text \<open>The pending work of a view, with what the invariant says of its run.\<close>

lemma view_inv_running:
  assumes "view_inv v" "fv_running v = Some p"
  obtains r where "fv_run v = Some r" "run_inv r" "pending_ok p r"
  using assms by (auto simp: view_inv_def split: option.splits)

lemma working_facts:
  assumes "run_inv r" "working st step r"
  shows "deciding step r" "sr_state (fr_steps r ! step) = st"
  using assms working_deciding by (auto simp: working_def)

lemma wp_parallel_done:
  assumes "fv_run v = Some r" "run_inv r" "pending_ok (PParallel step label branches) r"
  shows "wp (parallel_done E step label' branches' outcomes v) view_inv"
proof -
  obtain p where "working Running step r" "step_kind (flow_steps (fr_flow r) ! step) = StepParallel p"
    using assms(3) by (auto simp: pending_ok_def)
  with working_facts [OF assms(2)] show ?thesis
    unfolding parallel_done_def by (intro wp_with_run [OF assms(1,2)] wp_parallel_finished) auto
qed

lemma wp_command_done:
  assumes "fv_run v = Some r" "run_inv r" "pending_ok (PCommand step command) r"
  shows "wp (command_done E step result v) view_inv"
proof -
  obtain c where c: "working Running step r" "step_kind (flow_steps (fr_flow r) ! step) = StepRun c"
    using assms(3) by (auto simp: pending_ok_def)
  then have "wp (command_finished E step passed evidence r) (keeps r)" for passed evidence
    using working_facts [OF assms(2)] by (intro wp_command_finished) (auto simp: work_kind_def is_agent_kind_def)
  then show ?thesis
    unfolding command_done_def by (intro wp_with_run [OF assms(1,2)]) (auto split: sum.split)
qed

lemma wp_github_done:
  assumes "fv_run v = Some r" "run_inv r" "pending_ok (PGitHub step request) r"
  shows "wp (github_done E step result v) view_inv"
proof -
  obtain g where g: "working Running step r" "step_kind (flow_steps (fr_flow r) ! step) = StepGitHub g"
    using assms(3) by (auto simp: pending_ok_def)
  then have "wp (command_finished E step passed evidence r) (keeps r)"
    "wp (github_finished E step passed evidence outputs r) (keeps r)" for passed evidence outputs
    using working_facts [OF assms(2) g(1)]
    by (auto simp: work_kind_def is_agent_kind_def intro!: wp_command_finished wp_github_finished)
  then show ?thesis
    unfolding github_done_def by (intro wp_with_run [OF assms(1,2)]) (auto split: sum.split)
qed

lemma wp_verification_done:
  assumes "fv_run v = Some r" "run_inv r" "pending_ok (PVerify step label criteria texts delivery name agents) r"
  shows "wp (verification_done E step label' criteria' agents' replies v) view_inv"
  unfolding verification_done_def
  using assms(3) by (intro wp_with_run [OF assms(1,2)] wp_criteria_verified assms(2)) (simp add: pending_ok_def)

lemma wp_thread_done:
  assumes "fv_run v = Some r" "run_inv r" "pending_ok (PAgent step label agent prompt limits title) r"
  shows "wp (agent_finished E step label' outcome v) view_inv"
  using assms by (auto simp: pending_ok_def intro: wp_agent_finished)

lemma view_inv_cong: "view_inv v \<Longrightarrow> fv_run v' = fv_run v \<Longrightarrow> fv_running v' = fv_running v \<Longrightarrow> view_inv v'"
  unfolding view_inv_def by (simp only:)

lemma view_step_inv:
  assumes "view_inv v" "view_step E v e m"
  shows "wp m view_inv"
  using assms(2)
proof (cases rule: view_step.cases)
  case step_begin
  then show ?thesis using wp_begin_run by simp
next
  case step_gate
  then show ?thesis using wp_after_answer [OF assms(1) wp_answer_gate answer_while_running(1)] by simp
next
  case step_criteria
  then show ?thesis using wp_after_answer [OF assms(1) wp_answer_criteria answer_while_running(2)] by simp
next
  case step_exhausted
  then show ?thesis using wp_after_answer [OF assms(1) wp_answer_exhausted answer_while_running(3)] by simp
next
  case step_reopen
  then show ?thesis using wp_reopen_run [OF assms(1)] by simp
next
  case step_thread
  show ?thesis
    unfolding step_thread(2) by (rule view_inv_running [OF assms(1) step_thread(3)]) (rule wp_thread_done)
next
  case step_parallel
  show ?thesis
    unfolding step_parallel(2) by (rule view_inv_running [OF assms(1) step_parallel(3)]) (rule wp_parallel_done)
next
  case step_command
  show ?thesis
    unfolding step_command(2) by (rule view_inv_running [OF assms(1) step_command(3)]) (rule wp_command_done)
next
  case step_github
  show ?thesis
    unfolding step_github(2) by (rule view_inv_running [OF assms(1) step_github(3)]) (rule wp_github_done)
next
  case step_verify
  show ?thesis
    unfolding step_verify(2) by (rule view_inv_running [OF assms(1) step_verify(3)]) (rule wp_verification_done)
next
  case step_stop
  then show ?thesis using view_inv_stop [OF assms(1)] by simp
qed (auto intro: view_inv_cong [OF assms(1)])

interpretation flow_system: step_system view_init "view_step E" view_inv for E
  by unfold_locales (auto simp: view_init_def view_inv_def [of "_ :: flow_view"] intro: view_step_inv)

lemma reachable_inv: "view_reachable E v \<Longrightarrow> view_inv v"
  unfolding view_reachable_def by (rule flow_system.reach_inv)

lemma reachable_run_inv: "view_reachable E v \<Longrightarrow> fv_run v = Some r \<Longrightarrow> run_inv r"
  using reachable_inv [of E v] by (auto simp: view_inv_def)

lemma reachable_init: "fv_run v = None \<Longrightarrow> fv_running v = None \<Longrightarrow> view_reachable E v"
  unfolding view_reachable_def by (rule reach_init) (simp add: view_init_def)

lemma reachable_step: "view_reachable E v \<Longrightarrow> view_step E v e (Some v') \<Longrightarrow> view_reachable E v'"
  unfolding view_reachable_def by (rule reach_step)

section \<open>Properties of whole runs\<close>






section \<open>A run, evaluated\<close>

text \<open>A flow whose agent step has a required criterion, followed by a command that sends the run back
  to the agent. The run delivers, fails the command once, delivers again and succeeds.\<close>

definition checked_dev :: agent_step where
  "checked_dev = (agent_step_new ''dev'')\<lparr>as_criteria :=
     [\<lparr>crit_text = ''compiles'', crit_required = True, crit_verify = SelfCheck\<rparr>]\<rparr>"

definition checked_flow :: flow where
  "checked_flow = example_flow\<lparr>flow_steps :=
     [\<lparr>step_id = ''dev'', step_kind = StepAgent checked_dev\<rparr>, example_tests]\<rparr>"

definition checked_view :: flow_view where
  "checked_view = \<lparr>fv_flow = checked_flow, fv_agents = [example_agent], fv_servers = [], fv_run = None,
     fv_running = None\<rparr>"

definition checked_delivery :: "string + thread_outcome" where
  "checked_delivery = Inr (Some \<lparr>si_summary = ''ok'', si_outputs = [(''diff'', ''a.patch'')],
     si_criteria = [\<lparr>sc_number = 1, sc_passed = True, sc_evidence = ''build''\<rparr>]\<rparr>, EndTurn)"

definition checked_started :: flow_view where
  "checked_started = the (begin_run example_env ''Login'' checked_view)"

definition checked_delivered :: flow_view where
  "checked_delivered = the (agent_finished example_env 0 ''dev'' checked_delivery checked_started)"

definition checked_back :: flow_view where
  "checked_back = the (command_done example_env 1 (Inr (False, ''saiu 1'')) checked_delivered)"

definition checked_again :: flow_view where
  "checked_again = the (agent_finished example_env 0 ''dev'' checked_delivery checked_back)"

definition checked_done :: flow_view where
  "checked_done = the (command_done example_env 1 (Inr (True, ''saiu 0'')) checked_again)"

lemmas checked_views = checked_done_def checked_again_def checked_back_def checked_delivered_def checked_started_def

definition waits_for_dev :: "flow_view \<Rightarrow> bool" where
  "waits_for_dev v = (case fv_running v of Some (PAgent s l _ _ _ _) \<Rightarrow> s = 0 \<and> l = ''dev'' | _ \<Rightarrow> False)"

definition waits_for_tests :: "flow_view \<Rightarrow> bool" where
  "waits_for_tests v = (case fv_running v of Some (PCommand s _) \<Rightarrow> s = 1 | _ \<Rightarrow> False)"

lemma step_dev:
  "waits_for_dev v \<Longrightarrow> view_step E v (ThreadDone outcome) (agent_finished E 0 ''dev'' outcome v)"
  by (auto simp: waits_for_dev_def intro: step_thread split: option.splits pending.splits)

lemma step_tests: "waits_for_tests v \<Longrightarrow> view_step E v (CommandDone result) (command_done E 1 result v)"
  by (auto simp: waits_for_tests_def intro: step_command split: option.splits pending.splits)

lemma checked_steps:
  "validate_flow example_i18n checked_flow [example_agent] = []"
  "begin_run example_env ''Login'' checked_view = Some checked_started"
  "waits_for_dev checked_started"
  unfolding checked_views by code_simp+

lemma checked_steps_delivered:
  "agent_finished example_env 0 ''dev'' checked_delivery checked_started = Some checked_delivered"
  "waits_for_tests checked_delivered"
  unfolding checked_views by code_simp+

lemma checked_steps_back:
  "command_done example_env 1 (Inr (False, ''saiu 1'')) checked_delivered = Some checked_back"
  "waits_for_dev checked_back"
  unfolding checked_views by code_simp+

lemma checked_steps_done:
  "agent_finished example_env 0 ''dev'' checked_delivery checked_back = Some checked_again"
  "waits_for_tests checked_again"
  "command_done example_env 1 (Inr (True, ''saiu 0'')) checked_again = Some checked_done"
  unfolding checked_views by code_simp+

lemma checked_reachable:
  "view_reachable example_env checked_started" "view_reachable example_env checked_delivered"
  "view_reachable example_env checked_back" "view_reachable example_env checked_done"
proof -
  have "view_reachable example_env checked_view" by (rule reachable_init) (simp_all add: checked_view_def)
  moreover have "view_step example_env checked_view (UserBegin ''Login'') (begin_run example_env ''Login'' checked_view)"
    by (rule step_begin) (simp add: checked_view_def example_env_def checked_steps)
  ultimately show s: "view_reachable example_env checked_started"
    using checked_steps(2) reachable_step by metis
  show d: "view_reachable example_env checked_delivered"
    using reachable_step [OF s] step_dev [OF checked_steps(3)] checked_steps_delivered(1) by metis
  show b: "view_reachable example_env checked_back"
    using reachable_step [OF d] step_tests [OF checked_steps_delivered(2)] checked_steps_back(1) by metis
  have "view_reachable example_env checked_again"
    using reachable_step [OF b] step_dev [OF checked_steps_back(2)] checked_steps_done(1) by metis
  then show "view_reachable example_env checked_done"
    using reachable_step step_tests [OF checked_steps_done(2)] checked_steps_done(3) by metis
qed

text \<open>The run of the last view: both steps passed, and the return was counted.\<close>

definition checked_run :: flow_run where
  "checked_run = the (fv_run checked_done)"

lemma checked_run: "fv_run checked_done = Some checked_run"
  unfolding checked_run_def checked_views by code_simp

lemma checked_run_facts:
  "fr_state checked_run = RunSucceeded" "length (fr_steps checked_run) = 2"
  "map sr_state (fr_steps checked_run) = [Passed, Passed]"
  "fr_flow checked_run = checked_flow" "counter (fr_backs checked_run) 1 = 1"
  unfolding checked_run_def checked_views by code_simp+






theorem fail_step_back_witness:
  "\<exists>r'. fail_step example_env 1 ''npm test'' ''saiu 1'' (the (fv_run checked_delivered)) = Some r'
     \<and> fr_cursor r' = 0 \<and> sr_feedback (fr_steps r' ! 0) = Some ''saiu 1''"
proof -
  let ?r = "the (fv_run checked_delivered)"
  have r: "fv_run checked_delivered = Some ?r" "fr_state ?r = RunRunning \<and> fr_cursor ?r = 1"
    "1 < length (flow_steps (fr_flow ?r))" "sr_state (fr_steps ?r ! 1) = Running"
    "on_fail_of (step_kind (flow_steps (fr_flow ?r) ! 1)) = BackTo ''dev'' 1"
    "step_index (fr_flow ?r) ''dev'' = Some 0" "\<not> (1 :: u8) \<le> counter (fr_backs ?r) 1"
    unfolding checked_views by code_simp+
  then have "working Running 1 ?r" by (simp add: working_def)
  from fail_step_back [OF reachable_run_inv [OF checked_reachable(2) r(1)] this r(5), of example_env "''npm test''" "''saiu 1''"]
  show ?thesis using r(6,7) by auto
qed

section \<open>A run that stalls\<close>

text \<open>Validation lets a gate send adjustments to an earlier gate. The run then goes to that gate
  without entering it.\<close>

definition gate_flow :: flow where
  "gate_flow = example_flow\<lparr>flow_steps :=
     [example_dev,
      \<lparr>step_id = ''aprovacao'', step_kind = StepGate \<lparr>gate_note = [], gate_adjust_to = None\<rparr>\<rparr>,
      \<lparr>step_id = ''aprovacao-2'', step_kind = StepGate \<lparr>gate_note = [], gate_adjust_to = Some ''aprovacao''\<rparr>\<rparr>]\<rparr>"

definition gate_view :: flow_view where
  "gate_view = \<lparr>fv_flow = gate_flow, fv_agents = [example_agent], fv_servers = [], fv_run = None, fv_running = None\<rparr>"

definition gate_started :: flow_view where
  "gate_started = the (begin_run example_env ''Login'' gate_view)"

definition gate_first :: flow_view where
  "gate_first = the (agent_finished example_env 0 ''dev'' checked_delivery gate_started)"

definition gate_second :: flow_view where
  "gate_second = the (after_answer example_env (answer_gate example_env True []) gate_first)"

definition gate_stalled :: flow_view where
  "gate_stalled = the (after_answer example_env (answer_gate example_env False ''again'') gate_second)"

lemmas gate_views = gate_stalled_def gate_second_def gate_first_def gate_started_def

lemma gate_steps:
  "validate_flow example_i18n gate_flow [example_agent] = []"
  "begin_run example_env ''Login'' gate_view = Some gate_started" "waits_for_dev gate_started"
  "agent_finished example_env 0 ''dev'' checked_delivery gate_started = Some gate_first"
  "after_answer example_env (answer_gate example_env True []) gate_first = Some gate_second"
  "after_answer example_env (answer_gate example_env False ''again'') gate_second = Some gate_stalled"
  unfolding gate_views by code_simp+

lemma gate_stalled_reachable: "view_reachable example_env gate_stalled"
proof -
  have "view_reachable example_env gate_view" by (rule reachable_init) (simp_all add: gate_view_def)
  moreover have "view_step example_env gate_view (UserBegin ''Login'') (begin_run example_env ''Login'' gate_view)"
    by (rule step_begin) (simp add: gate_view_def example_env_def gate_steps)
  ultimately have "view_reachable example_env gate_started"
    using gate_steps(2) reachable_step by metis
  then have "view_reachable example_env gate_first"
    using reachable_step step_dev [OF gate_steps(3)] gate_steps(4) by metis
  then have "view_reachable example_env gate_second"
    using reachable_step step_gate [of example_env gate_first True "[]"] gate_steps(5) by metis
  then show ?thesis
    using reachable_step step_gate [of example_env gate_second False "''again''"] gate_steps(6) by metis
qed

definition gate_run :: flow_run where
  "gate_run = the (fv_run gate_stalled)"

lemma gate_run_facts:
  "fv_run gate_stalled = Some gate_run" "fv_running gate_stalled = None"
  "fr_state gate_run = RunRunning" "next_action gate_run = Some Wait"
  unfolding gate_run_def gate_views by code_simp+

text \<open>C34. The exception for gates that send adjustments to a gate is real: a flow without problems reaches a view in which the run counts
  as running, no work is under way and nothing is to be started, and none of the answers a user can
  give changes it; it can only be stopped.\<close>

theorem gate_adjustment_stalls:
  "validate_flow example_i18n gate_flow [example_agent] = [] \<and> view_reachable example_env gate_stalled \<and>
   fv_run gate_stalled = Some gate_run \<and> fr_state gate_run = RunRunning \<and> fv_running gate_stalled = None \<and>
   next_action gate_run = Some Wait \<and>
   (\<forall>approve n step label accept retry.
      after_answer example_env (answer_gate example_env approve n) gate_stalled = Some gate_stalled \<and>
      after_answer example_env (answer_criteria example_env step label accept) gate_stalled = Some gate_stalled \<and>
      after_answer example_env (answer_exhausted example_env retry) gate_stalled = Some gate_stalled)"
proof -
  have upd: "gate_stalled\<lparr>fv_run := Some gate_run\<rparr> = gate_stalled" using gate_run_facts(1) by (cases gate_stalled) simp
  have "drive example_env gate_stalled = Some gate_stalled"
    using gate_run_facts by (subst drive.simps) simp
  then have "after_answer example_env g gate_stalled = Some gate_stalled" if "g gate_run = Some gate_run" for g
    using that gate_run_facts(1) by (simp add: after_answer_def upd)
  with answer_while_running [OF gate_run_facts(3)] gate_steps(1) gate_stalled_reachable gate_run_facts
  show ?thesis by simp
qed

end
