(* ===== verification/Clock.thy ===== *)
theory Clock
  imports Prelude
begin

text \<open>
  Logical clocks (\<open>crates/clock/src/clock.rs\<close>): Lamport timestamps with the replica as tie breaker,
  and version vectors. A version vector is the list of the sequence numbers of the replicas; what it
  means is the function \<open>get\<close>, and the vectors the operations produce are kept without trailing
  zeros, so that the derived equality compares what they mean.
\<close>

unbundle bit_operations_syntax

section \<open>Lamport timestamps\<close>

type_synonym replica_id = u16

definition LOCAL :: replica_id where "LOCAL = 0"
definition REMOTE_SERVER :: replica_id where "REMOTE_SERVER = 1"
definition AGENT :: replica_id where "AGENT = 2"
definition LOCAL_BRANCH :: replica_id where "LOCAL_BRANCH = 3"
definition FIRST_COLLAB_ID :: replica_id where "FIRST_COLLAB_ID = 8"

definition is_remote :: "replica_id \<Rightarrow> bool" where
  "is_remote r = (r = REMOTE_SERVER \<or> r \<ge> FIRST_COLLAB_ID)"

datatype lamport = Lamport (lam_value: u32) (lam_replica: replica_id)

text \<open>The order of events: the value, then the replica.\<close>

definition lamport_le :: "lamport \<Rightarrow> lamport \<Rightarrow> bool" where
  "lamport_le a b = (lam_value a < lam_value b \<or>
     lam_value a = lam_value b \<and> lam_replica a \<le> lam_replica b)"

instantiation lamport :: linorder
begin

definition less_eq_lamport :: "lamport \<Rightarrow> lamport \<Rightarrow> bool" where
  "less_eq_lamport = lamport_le"

definition less_lamport :: "lamport \<Rightarrow> lamport \<Rightarrow> bool" where
  "less_lamport a b = (\<not> lamport_le b a)"

instance
  by standard (auto simp: less_eq_lamport_def less_lamport_def lamport_le_def lamport.expand)

end

lemma lamport_less: "a < b \<longleftrightarrow> lam_value a < lam_value b \<or>
    lam_value a = lam_value b \<and> lam_replica a < lam_replica b"
  by (auto simp: less_lamport_def lamport_le_def)

definition lamport_MIN :: lamport where "lamport_MIN = Lamport 0 0"

definition lamport_MAX :: lamport where "lamport_MAX = Lamport (- 1) (- 1)"

definition lamport_new :: "replica_id \<Rightarrow> lamport" where
  "lamport_new r = Lamport 1 r"

definition as_u64 :: "lamport \<Rightarrow> u64" where
  "as_u64 t = push_bit 32 (ucast (lam_value t)) OR ucast (lam_replica t)"

text \<open>\<open>tick\<close> returns the timestamp and advances the clock; additions wrap in a release build.\<close>

definition tick :: "lamport \<Rightarrow> lamport \<times> lamport" where
  "tick t = (t, Lamport (lam_value t + 1) (lam_replica t))"

definition lamport_observe :: "lamport \<Rightarrow> lamport \<Rightarrow> lamport" where
  "lamport_observe t s = Lamport (max (lam_value t) (lam_value s) + 1) (lam_replica t)"

section \<open>Version vectors\<close>

type_synonym global = "u32 list"

definition replica_ix :: "replica_id \<Rightarrow> nat" where
  "replica_ix r = unat r"

definition global_new :: global where
  "global_new = []"

definition get :: "global \<Rightarrow> replica_id \<Rightarrow> u32" where
  "get g r = (if replica_ix r < length g then g ! replica_ix r else 0)"

text \<open>\<open>SmallVec::resize\<close> to at least a length.\<close>

definition grow :: "nat \<Rightarrow> global \<Rightarrow> global" where
  "grow n g = g @ replicate (n - length g) 0"

definition observe :: "lamport \<Rightarrow> global \<Rightarrow> global" where
  "observe t g =
     (if lam_value t > 0 then
        let g = grow (replica_ix (lam_replica t) + 1) g; i = replica_ix (lam_replica t) in
        g[i := max (g ! i) (lam_value t)]
      else g)"

text \<open>The loop over the zipped vectors, writing into the left one; its tail stays.\<close>

fun zip_into :: "('a \<Rightarrow> 'a \<Rightarrow> 'a) \<Rightarrow> 'a list \<Rightarrow> 'a list \<Rightarrow> 'a list" where
  "zip_into f (a # as) (b # bs) = f a b # zip_into f as bs"
| "zip_into f as bs = as"

definition global_join :: "global \<Rightarrow> global \<Rightarrow> global" where
  "global_join g h = zip_into max (grow (length h) g) h"

definition meet_entry :: "u32 \<Rightarrow> u32 \<Rightarrow> u32" where
  "meet_entry l r = (if l = 0 then r else if r = 0 then l else min l r)"

text \<open>\<open>new_len\<close> of the loop: one past the last entry that is not zero.\<close>

fun used_len :: "global \<Rightarrow> nat" where
  "used_len [] = 0"
| "used_len (x # xs) = (let n = used_len xs in if n > 0 then n + 1 else if x \<noteq> 0 then 1 else 0)"

definition global_meet :: "global \<Rightarrow> global \<Rightarrow> global" where
  "global_meet g h =
     (let g = grow (length h) g;
          m = zip_into meet_entry g h;
          new_len = used_len (take (length h) m) in
      if length h = length g then take new_len m else m)"

definition observed :: "global \<Rightarrow> lamport \<Rightarrow> bool" where
  "observed g t = (get g (lam_replica t) \<ge> lam_value t)"

text \<open>The replica number of an entry is its index as a \<open>u16\<close>.\<close>

definition global_iter :: "global \<Rightarrow> lamport list" where
  "global_iter g = map (\<lambda>(i, seq). Lamport seq (of_nat i)) (enumerate 0 g)"

definition observed_any :: "global \<Rightarrow> global \<Rightarrow> bool" where
  "observed_any g h = list_ex (\<lambda>(l, r). lam_value r > 0 \<and> lam_value l \<ge> lam_value r)
     (zip (global_iter g) (global_iter h))"

definition observed_all :: "global \<Rightarrow> global \<Rightarrow> bool" where
  "observed_all g h =
     (if length g < length h then False
      else list_all (\<lambda>(l, r). lam_value l \<ge> lam_value r) (zip (global_iter g) (global_iter h)))"

definition changed_since :: "global \<Rightarrow> global \<Rightarrow> bool" where
  "changed_since g h = (length g > length h \<or> list_ex (\<lambda>(l, r). l > r) (zip g h))"

text \<open>\<open>max_by_key\<close>: the last of the greatest.\<close>

fun max_by_value :: "lamport list \<Rightarrow> lamport option" where
  "max_by_value [] = None"
| "max_by_value (t # ts) = (case max_by_value ts of
     None \<Rightarrow> Some t
   | Some m \<Rightarrow> if lam_value t > lam_value m then Some t else Some m)"

definition most_recent :: "global \<Rightarrow> lamport option" where
  "most_recent g = max_by_value (global_iter g)"

definition global_from_iter :: "lamport list \<Rightarrow> global" where
  "global_from_iter ts = fold observe ts global_new"

section \<open>Timestamps\<close>

lemma as_u64_value: "unat (as_u64 t) = unat (lam_value t) * 2 ^ 32 + unat (lam_replica t)"
proof -
  have v: "unat (lam_value t) < 2 ^ 32" "unat (lam_replica t) < 2 ^ 16"
    using unsigned_less [of "lam_value t", where ?'a = nat] unsigned_less [of "lam_replica t", where ?'a = nat] by simp_all
  have "push_bit 32 (ucast (lam_value t) :: u64) AND ucast (lam_replica t) = 0"
    by (rule bit_word_eqI) (auto simp: bit_simps dest: bit_imp_le_length)
  then have e: "as_u64 t = push_bit 32 (ucast (lam_value t)) + ucast (lam_replica t)"
    by (simp add: as_u64_def disjunctive_add_eq_or)
  have "unat (push_bit 32 (ucast (lam_value t) :: u64)) = unat (lam_value t) * 2 ^ 32"
    unfolding unsigned_push_bit_eq unsigned_ucast_eq
    using v by (simp add: take_bit_nat_eq_self push_bit_eq_mult)
  moreover have "unat (ucast (lam_replica t) :: u64) = unat (lam_replica t)"
    using v by (simp add: unsigned_ucast_eq take_bit_nat_eq_self)
  ultimately show ?thesis
    using v unfolding e by (subst unat_add_lem [THEN iffD1]) auto
qed

text \<open>The packed form of a timestamp orders as the timestamps do, and tells them apart.\<close>

lemma as_u64_order:
  "(a \<le> b \<longleftrightarrow> as_u64 a \<le> as_u64 b) \<and> (as_u64 a = as_u64 b \<longleftrightarrow> a = b)"
proof -
  have le: "a \<le> b \<longleftrightarrow> as_u64 a \<le> as_u64 b" for a b
  proof -
    have "unat (lam_replica a) < 2 ^ 32" "unat (lam_replica b) < 2 ^ 32"
      using unsigned_less [of "lam_replica a", where ?'a = nat] unsigned_less [of "lam_replica b", where ?'a = nat]
      by simp_all
    then show ?thesis
      unfolding word_le_nat_alt as_u64_value less_eq_lamport_def lamport_le_def word_less_nat_alt
      by (auto simp: word_unat_eq_iff word_le_nat_alt)
  qed
  from le [of a b] le [of b a] show ?thesis by auto
qed

section \<open>What a version vector means\<close>

definition canonical :: "global \<Rightarrow> bool" where
  "canonical g = ((g = [] \<or> last g \<noteq> 0) \<and> length g \<le> 2 ^ 16)"

lemma length_grow [simp]: "length (grow n g) = max n (length g)"
  by (simp add: grow_def)

lemma nth_grow: "i < max n (length g) \<Longrightarrow> grow n g ! i = (if i < length g then g ! i else 0)"
  by (auto simp: grow_def nth_append)

lemma get_grow [simp]: "get (grow n g) r = get g r"
  by (auto simp: get_def nth_grow)

lemma length_zip_into [simp]: "length (zip_into f as bs) = length as"
  by (induction f as bs rule: zip_into.induct) simp_all

lemma nth_zip_into:
  "i < length as \<Longrightarrow> zip_into f as bs ! i = (if i < length bs then f (as ! i) (bs ! i) else as ! i)"
  by (induction f as bs arbitrary: i rule: zip_into.induct) (auto simp: nth_Cons split: nat.splits)

lemma replica_ix_bound: "replica_ix r < 2 ^ 16"
  using unsigned_less [of r, where ?'a = nat] by (simp add: replica_ix_def)

lemma replica_ix_inj [simp]: "replica_ix r = replica_ix s \<longleftrightarrow> r = s"
  by (simp add: replica_ix_def word_unat_eq_iff)

lemma replica_ix_of_nat: "i < 2 ^ 16 \<Longrightarrow> replica_ix (of_nat i) = i"
  by (simp add: replica_ix_def unat_of_nat take_bit_nat_eq_self)

lemma get_of_nat: "i < length g \<Longrightarrow> length g \<le> 2 ^ 16 \<Longrightarrow> get g (of_nat i) = g ! i"
  by (simp add: get_def replica_ix_of_nat)

lemma get_observe: "get (observe t g) r = (if r = lam_replica t then max (get g r) (lam_value t) else get g r)"
proof (cases "lam_value t > 0")
  case True
  then show ?thesis
    by (auto simp: observe_def Let_def get_def nth_update nth_grow max_def)
next
  case False
  then have "lam_value t = 0" by (simp add: word_neq_0_conv [symmetric])
  then show ?thesis by (simp add: observe_def)
qed

lemma get_join: "get (global_join g h) r = max (get g r) (get h r)"
  by (auto simp: global_join_def get_def nth_zip_into nth_grow)

lemma used_len_le: "used_len g \<le> length g"
  by (induction g) (auto simp: Let_def)

lemma used_len_zero: "used_len g \<le> i \<Longrightarrow> i < length g \<Longrightarrow> g ! i = 0"
  by (induction g arbitrary: i) (auto simp: Let_def nth_Cons split: nat.splits if_splits)

lemma used_len_last: "used_len g > 0 \<Longrightarrow> g ! (used_len g - 1) \<noteq> 0"
  by (induction g) (auto simp: Let_def nth_Cons split: nat.splits if_splits)

lemma get_meet: "get (global_meet g h) r = meet_entry (get g r) (get h r)"
proof -
  let ?m = "zip_into meet_entry (grow (length h) g) h"
  have m: "get ?m r = meet_entry (get g r) (get h r)"
    by (auto simp: get_def nth_zip_into nth_grow meet_entry_def)
  show ?thesis
  proof (cases "length h = length (grow (length h) g)")
    case True
    then have "length ?m = length h" by simp
    moreover have "get (take (used_len ?m) ?m) r = get ?m r"
      using used_len_zero [of ?m "replica_ix r"] by (auto simp: get_def)
    ultimately show ?thesis using m True by (simp add: global_meet_def Let_def)
  next
    case False
    with m show ?thesis by (simp only: global_meet_def Let_def if_False)
  qed
qed

lemma canonicalI:
  assumes "length g \<le> 2 ^ 16" "g \<noteq> [] \<Longrightarrow> g ! (length g - 1) \<noteq> 0"
  shows "canonical g"
  using assms by (auto simp: canonical_def last_conv_nth)

lemma canonical_last: "canonical g \<Longrightarrow> g \<noteq> [] \<Longrightarrow> g ! (length g - 1) \<noteq> 0"
  by (auto simp: canonical_def last_conv_nth)

lemma canonical_length: "canonical g \<Longrightarrow> length g \<le> 2 ^ 16"
  by (simp add: canonical_def)

lemma word_max_nonzero: "(a :: u32) \<noteq> 0 \<or> b \<noteq> 0 \<Longrightarrow> max a b \<noteq> 0"
  by (auto simp: max_def word_le_nat_alt unat_eq_0 split: if_splits)

lemma canonical_observe:
  assumes "canonical g" shows "canonical (observe t g)"
proof (cases "lam_value t > 0")
  case True
  let ?i = "replica_ix (lam_replica t)"
  have "observe t g ! (length (observe t g) - 1) \<noteq> 0"
  proof (cases "length g \<le> ?i + 1")
    case True
    then show ?thesis
      using \<open>lam_value t > 0\<close> word_max_nonzero by (auto simp: observe_def Let_def max_def)
  next
    case False
    then have ne: "length g - 1 < length g" by simp
    then have "observe t g ! (length (observe t g) - 1) = g ! (length g - 1)"
      using \<open>lam_value t > 0\<close> False by (simp add: observe_def Let_def nth_update nth_grow max_def)
    moreover have "g \<noteq> []" using ne by auto
    ultimately show ?thesis using canonical_last [OF assms] by simp
  qed
  moreover have "length (observe t g) \<le> 2 ^ 16"
    using canonical_length [OF assms] replica_ix_bound [of "lam_replica t"] True
    by (simp add: observe_def Let_def)
  ultimately show ?thesis by (intro canonicalI)
qed (use assms in \<open>simp add: observe_def\<close>)

lemma canonical_join:
  assumes "canonical g" "canonical h" shows "canonical (global_join g h)"
proof (rule canonicalI)
  have len: "length (global_join g h) = max (length h) (length g)" by (simp add: global_join_def)
  then show "length (global_join g h) \<le> 2 ^ 16" using assms canonical_length by auto
  assume ne: "global_join g h \<noteq> []"
  let ?i = "length (global_join g h) - 1"
  have i: "?i < length (global_join g h)" using ne by simp
  have e: "global_join g h ! ?i = max (if ?i < length g then g ! ?i else 0) (if ?i < length h then h ! ?i else 0)"
    using i by (auto simp: global_join_def nth_zip_into nth_grow)
  show "global_join g h ! ?i \<noteq> 0"
  proof (cases "length g \<le> length h")
    case True
    with i have "?i = length h - 1" "h \<noteq> []" by (auto simp: len max_def)
    with canonical_last [OF assms(2)] show ?thesis unfolding e by (intro word_max_nonzero) auto
  next
    case False
    with i have "?i = length g - 1" "g \<noteq> []" by (auto simp: len max_def)
    with canonical_last [OF assms(1)] show ?thesis unfolding e by (intro word_max_nonzero) auto
  qed
qed

lemma canonical_meet:
  assumes "canonical g" "canonical h" shows "canonical (global_meet g h)"
proof -
  let ?m = "zip_into meet_entry (grow (length h) g) h"
  have len: "length ?m \<le> 2 ^ 16" using assms canonical_length by simp
  show ?thesis
  proof (cases "length h = length (grow (length h) g)")
    case True
    then have m: "global_meet g h = take (used_len ?m) ?m"
      by (simp add: global_meet_def Let_def)
    show ?thesis
    proof (rule canonicalI)
      show "length (global_meet g h) \<le> 2 ^ 16" using len unfolding m by (simp add: min_le_iff_disj)
      assume "global_meet g h \<noteq> []"
      then have "used_len ?m > 0" unfolding m by auto
      moreover have "length (take (used_len ?m) ?m) = used_len ?m" using used_len_le [of ?m] by simp
      ultimately show "global_meet g h ! (length (global_meet g h) - 1) \<noteq> 0"
        unfolding m using used_len_last [of ?m] by simp
    qed
  next
    case False
    then have l: "length h < length g" by (simp add: max_def split: if_splits)
    have "global_meet g h = ?m" using False by (simp only: global_meet_def Let_def if_False)
    moreover have "?m ! (length ?m - 1) = g ! (length g - 1)"
      using l by (auto simp: nth_zip_into nth_grow max_def)
    moreover have "g \<noteq> []" using l by auto
    ultimately show ?thesis using len canonical_last [OF assms(1)] by (auto intro!: canonicalI)
  qed
qed

lemma canonical_longer:
  assumes "canonical a" "length b < length a"
  shows "\<exists>r. get a r \<noteq> 0 \<and> get b r = 0"
proof -
  obtain n where n: "length a = Suc n" using assms(2) by (cases "length a") auto
  then have "n < 2 ^ 16" using canonical_length [OF assms(1)] by simp
  then have "get a (of_nat n) = a ! n" "get b (of_nat n) = 0"
    using n assms(2) by (auto simp: get_def replica_ix_of_nat)
  moreover have "a \<noteq> []" using n by auto
  from canonical_last [OF assms(1) this] n have "a ! n \<noteq> 0" by simp
  ultimately show ?thesis by metis
qed

lemma canonical_ext:
  assumes "canonical g" "canonical h" "\<And>r. get g r = get h r"
  shows "g = h"
proof -
  have "length a \<le> length b" if "canonical a" "canonical b" "\<And>r. get a r = get b r" for a b
  proof (rule ccontr)
    assume "\<not> length a \<le> length b"
    then have "length b < length a" by simp
    from canonical_longer [OF that(1) this] that(3) show False by metis
  qed
  from this [OF assms] this [OF assms(2,1) assms(3) [symmetric]] have len: "length g = length h" by simp
  then show ?thesis
    using assms(3) get_of_nat canonical_length [OF assms(1)] by (metis nth_equalityI)
qed

lemma nth_global_iter [simp]: "i < length g \<Longrightarrow> global_iter g ! i = Lamport (g ! i) (of_nat i)"
  by (simp add: global_iter_def nth_enumerate_eq)

lemma length_global_iter [simp]: "length (global_iter g) = length g"
  by (simp add: global_iter_def)

lemma zip_global_iter:
  "(l, r) \<in> set (zip (global_iter g) (global_iter h)) \<longleftrightarrow>
     (\<exists>i<min (length g) (length h). l = Lamport (g ! i) (of_nat i) \<and> r = Lamport (h ! i) (of_nat i))"
  by (force simp: set_zip)

lemma observed_all_iff:
  assumes "canonical g" "canonical h"
  shows "observed_all g h \<longleftrightarrow> (\<forall>r. get h r \<le> get g r)"
proof
  assume o: "observed_all g h"
  then have len: "length h \<le> length g" and le: "\<And>i. i < length h \<Longrightarrow> h ! i \<le> g ! i"
    by (auto simp: observed_all_def list_all_length split: if_splits)
  then show "\<forall>r. get h r \<le> get g r" by (auto simp: get_def)
next
  assume le: "\<forall>r. get h r \<le> get g r"
  have "length h \<le> length g"
  proof (rule ccontr)
    assume "\<not> length h \<le> length g"
    then have "length g < length h" by simp
    from canonical_longer [OF assms(2) this] le show False by (metis word_le_0_iff)
  qed
  moreover have "h ! i \<le> g ! i" if "i < length h" for i
    using le that get_of_nat [of i h] get_of_nat [of i g] canonical_length assms calculation
    by (metis less_le_trans)
  ultimately show "observed_all g h" by (auto simp: observed_all_def list_all_length)
qed

lemma changed_since_iff: "changed_since g h \<longleftrightarrow> \<not> observed_all h g"
proof -
  have "list_ex (\<lambda>(l, r). l > r) (zip g h) \<longleftrightarrow>
      (\<exists>i<min (length g) (length h). h ! i < g ! i)"
    by (auto simp: list_ex_length)
  moreover have "list_all (\<lambda>(l, r). lam_value l \<ge> lam_value r) (zip (global_iter h) (global_iter g)) \<longleftrightarrow>
      (\<forall>i<min (length g) (length h). g ! i \<le> h ! i)"
    by (auto simp: list_all_length)
  ultimately show ?thesis
    by (auto simp: changed_since_def observed_all_def not_less not_le)
qed

lemma observed_any_iff:
  assumes "canonical g" "canonical h"
  shows "observed_any g h \<longleftrightarrow> (\<exists>r. get h r > 0 \<and> get h r \<le> get g r)"
proof
  assume "observed_any g h"
  then obtain i where i: "i < length g" "i < length h" "h ! i > 0" "h ! i \<le> g ! i"
    by (auto simp: observed_any_def list_ex_length)
  then have "get h (of_nat i) = h ! i" "get g (of_nat i) = g ! i"
    using get_of_nat canonical_length assms by simp_all
  with i show "\<exists>r. get h r > 0 \<and> get h r \<le> get g r" by metis
next
  assume "\<exists>r. get h r > 0 \<and> get h r \<le> get g r"
  then obtain r where r: "get h r > 0" "get h r \<le> get g r" by auto
  then have l: "replica_ix r < length h" "replica_ix r < length g"
    by (auto simp: get_def split: if_splits)
  then have "h ! replica_ix r > 0" "h ! replica_ix r \<le> g ! replica_ix r"
    using r by (simp_all add: get_def)
  with l show "observed_any g h"
    by (auto simp: observed_any_def list_ex_length intro!: exI [of _ "replica_ix r"])
qed

section \<open>Observing is a join, in any order\<close>

lemma length_observe:
  "length (observe t g) = (if lam_value t > 0 then max (replica_ix (lam_replica t) + 1) (length g) else length g)"
  by (simp add: observe_def Let_def)

lemma nth_observe:
  "i < length (observe t g) \<Longrightarrow> observe t g ! i =
     (if lam_value t > 0 \<and> i = replica_ix (lam_replica t)
      then max (if i < length g then g ! i else 0) (lam_value t)
      else if i < length g then g ! i else 0)"
  by (auto simp: observe_def Let_def nth_update nth_grow split: if_splits)

lemma observe_commute: "observe s (observe t g) = observe t (observe s g)"
  by (rule nth_equalityI) (auto simp: length_observe nth_observe max.left_commute max.commute)

lemma observe_idem: "observe t (observe t g) = observe t g"
  by (rule nth_equalityI) (auto simp: length_observe nth_observe)

text \<open>Observing commutes and is idempotent: the library's folds over sets apply.\<close>

interpretation observing: comp_fun_idem observe
  by unfold_locales (auto simp: fun_eq_iff observe_commute observe_idem)

lemma canonical_new [simp]: "canonical global_new"
  by (simp add: canonical_def global_new_def)

lemma canonical_observes: "canonical g \<Longrightarrow> canonical (fold observe ts g)"
  by (induction ts arbitrary: g) (auto intro: canonical_observe)

lemma observed_fold:
  "observed (fold observe ts g) t \<longleftrightarrow>
     observed g t \<or> (\<exists>s\<in>set ts. lam_replica s = lam_replica t \<and> lam_value t \<le> lam_value s)"
  by (induction ts arbitrary: g) (auto simp: observed_def get_observe le_max_iff_disj split: if_splits)

text \<open>A version vector built from timestamps depends only on the set of them, not on their order
  or repetition; it is canonical; and it has observed exactly the timestamps that are not later than
  one of theirs from the same replica (and those with sequence number zero).\<close>

lemma from_iter_observes:
  "(set ts = set us \<longrightarrow> global_from_iter ts = global_from_iter us) \<and>
   canonical (global_from_iter ts) \<and>
   (observed (global_from_iter ts) t \<longleftrightarrow>
      lam_value t = 0 \<or> (\<exists>s\<in>set ts. lam_replica s = lam_replica t \<and> lam_value t \<le> lam_value s))"
proof -
  have "global_from_iter xs = Finite_Set.fold observe global_new (set xs)" for xs
    by (simp add: observing.fold_set_fold global_from_iter_def)
  then have "set ts = set us \<longrightarrow> global_from_iter ts = global_from_iter us" by simp
  moreover have "observed global_new t \<longleftrightarrow> lam_value t = 0"
    by (simp add: observed_def get_def global_new_def)
  ultimately show ?thesis by (simp add: global_from_iter_def observed_fold canonical_observes)
qed

lemma from_iter_observes_witness:
  "global_from_iter [Lamport 4 0, Lamport 2 3, Lamport 1 0] =
     global_from_iter [Lamport 2 3, Lamport 1 0, Lamport 1 0, Lamport 4 0]"
proof -
  have "set [Lamport 4 0, Lamport 2 3, Lamport 1 0] = set [Lamport 2 3, Lamport 1 0, Lamport 1 0, Lamport 4 0]"
    by auto
  then show ?thesis using from_iter_observes by blast
qed

text \<open>C40. On canonical version vectors, \<open>observed_all\<close> is the pointwise order and a partial order,
  \<open>join\<close> is its least upper bound and stays canonical, \<open>changed_since\<close> is the
  negation of the order with the arguments exchanged, and \<open>observed_any\<close> says that some entry of
  the other vector has been observed.\<close>

theorem version_order:
  assumes "canonical g" "canonical h" "canonical k"
  shows "(observed_all g h \<longleftrightarrow> (\<forall>r. get h r \<le> get g r)) \<and>
    (observed_all g h \<and> observed_all h g \<longleftrightarrow> g = h) \<and>
    canonical (global_join g h) \<and>
    (observed_all k (global_join g h) \<longleftrightarrow> observed_all k g \<and> observed_all k h) \<and>
    (changed_since g h \<longleftrightarrow> \<not> observed_all h g) \<and>
    (observed_any g h \<longleftrightarrow> (\<exists>r. 0 < get h r \<and> observed g (Lamport (get h r) r)))"
proof -
  note j = canonical_join [OF assms(1,2)]
  have "g = h" if "observed_all g h" "observed_all h g"
    using that assms by (intro canonical_ext) (auto simp: observed_all_iff intro: order_antisym)
  then show ?thesis
    using assms j by (auto simp: observed_all_iff get_join changed_since_iff observed_any_iff observed_def)
qed

theorem version_order_witness:
  "observed_all [4, 1, 5] (global_join [3] [2, 0, 5])"
proof -
  have "canonical [3]" "canonical [2, 0, 5]" "canonical [4, 1, 5]" by (simp_all add: canonical_def)
  moreover have "observed_all [4, 1, 5] [3]" "observed_all [4, 1, 5] [2, 0, 5]" by code_simp+
  ultimately show ?thesis using version_order by blast
qed

text \<open>The meet of two canonical vectors is canonical, has the smaller of the two sequence numbers
  of a replica both have observed, and the one there is of a replica only one of them has.\<close>

lemma meet_spec:
  assumes "canonical g" "canonical h"
  shows "canonical (global_meet g h) \<and>
    get (global_meet g h) r =
      (if get g r = 0 then get h r else if get h r = 0 then get g r else min (get g r) (get h r)) \<and>
    global_meet g h = global_meet h g"
proof -
  have "global_meet g h = global_meet h g"
    using assms by (intro canonical_ext canonical_meet) (auto simp: get_meet meet_entry_def min.commute)
  moreover have "get (global_meet g h) r = meet_entry (get g r) (get h r)" by (rule get_meet)
  ultimately show ?thesis using canonical_meet [OF assms] by (simp only: meet_entry_def)
qed

lemma meet_spec_witness: "global_meet [3, 0, 5] [4, 7] = global_meet [4, 7] [3, 0, 5]"
  using meet_spec [of "[3, 0, 5]" "[4, 7]"] by (simp add: canonical_def)

text \<open>A clock that observes a timestamp is past it and past its own earlier timestamps, as long as
  the sequence number does not wrap; what it hands out next is later than both. At the largest
  sequence number the addition wraps to zero, below everything.\<close>

lemma clock_advances:
  "(max (lam_value t) (lam_value s) < - 1 \<longrightarrow>
      s < fst (tick (lamport_observe t s)) \<and> fst (tick t) < fst (tick (lamport_observe t s)) \<and>
      fst (tick t) < fst (tick (snd (tick t)))) \<and>
   lamport_observe t lamport_MAX = Lamport 0 (lam_replica t)"
proof -
  have up: "x < x + 1" if "x < - 1" for x :: u32
  proof -
    have "unat (- 1 :: u32) = 2 ^ 32 - 1"
      by (simp add: unsigned_minus_1_eq_mask mask_eq_exp_minus_1)
    then have "unat x < 2 ^ 32 - 1" using that by (simp only: word_less_nat_alt)
    then have "unat (x + 1) = unat x + 1" by (subst unat_add_lem [THEN iffD1]) auto
    then show ?thesis by (simp add: word_less_nat_alt)
  qed
  have "s < fst (tick (lamport_observe t s)) \<and> fst (tick t) < fst (tick (lamport_observe t s)) \<and>
      fst (tick t) < fst (tick (snd (tick t)))" if m: "max (lam_value t) (lam_value s) < - 1"
  proof -
    have "lam_value t < max (lam_value t) (lam_value s) + 1" "lam_value s < max (lam_value t) (lam_value s) + 1"
      using up [OF m] by (auto intro: le_less_trans)
    moreover have "lam_value t < lam_value t + 1"
      by (rule up) (use m in \<open>auto intro: le_less_trans\<close>)
    ultimately show ?thesis by (simp add: tick_def lamport_observe_def lamport_less)
  qed
  moreover have "max (lam_value t) (- 1) = - 1" by (simp add: max_absorb2)
  ultimately show ?thesis by (simp add: lamport_observe_def lamport_MAX_def)
qed

lemma clock_advances_witness:
  "Lamport 9 1 < fst (tick (lamport_observe (Lamport 4 2) (Lamport 9 1)))"
  using clock_advances [of "Lamport 4 2" "Lamport 9 1"] by simp

end
