(* ===== verification/SumTree.thy ===== *)
theory SumTree
  imports Prelude
begin

text \<open>
  The sum tree (\<open>crates/sum_tree/src/sum_tree.rs\<close>), the B+ tree under ropes, text fragments and
  the operation queue: its nodes with the cached summaries, \<open>append\<close> with all its cases,
  construction from an iterator (sequential and parallel), the updates of the ends and the searches.
  A tree stands for the list of its items: \<open>tree_items\<close> is the abstraction and \<open>tree_ok\<close> the
  representation invariant, and every operation is shown to do on the list what it is meant to do.

  The traits \<open>Item\<close> and \<open>Summary\<close> are the record \<open>summaries\<close>, with the context already applied.
  A push beyond the capacity of a node, a missing child and an overflow of the 8-bit height panic;
  a panic is \<^const>\<open>None\<close>.
\<close>

section \<open>Summaries\<close>

record ('a, 's) summaries =
  sm_zero :: 's
  sm_add :: "'s \<Rightarrow> 's \<Rightarrow> 's"
  sm_item :: "'a \<Rightarrow> 's"

definition summary_sum :: "('a, 's) summaries \<Rightarrow> 's list \<Rightarrow> 's" where
  "summary_sum S vs = foldl (sm_add S) (sm_zero S) vs"

section \<open>Nodes\<close>

definition TREE_BASE :: nat where "TREE_BASE = 6"

datatype ('a, 's) node =
    Internal nat 's "'s list" "('a, 's) node list"
  | Leaf 's "'a list" "'s list"

text \<open>An \<open>ArrayVec\<close> filled with more than it holds.\<close>

definition array_vec :: "'b list \<Rightarrow> 'b list option" where
  "array_vec xs = (if length xs \<le> 2 * TREE_BASE then Some xs else None)"

fun is_leaf :: "('a, 's) node \<Rightarrow> bool" where
  "is_leaf (Leaf _ _ _) = True"
| "is_leaf (Internal _ _ _ _) = False"

fun height :: "('a, 's) node \<Rightarrow> nat" where
  "height (Internal h _ _ _) = h"
| "height (Leaf _ _ _) = 0"

fun summary :: "('a, 's) node \<Rightarrow> 's" where
  "summary (Internal _ s _ _) = s"
| "summary (Leaf s _ _) = s"

fun child_summaries :: "('a, 's) node \<Rightarrow> 's list" where
  "child_summaries (Internal _ _ css _) = css"
| "child_summaries (Leaf _ _ iss) = iss"

fun child_trees :: "('a, 's) node \<Rightarrow> ('a, 's) node list option" where
  "child_trees (Internal _ _ _ cts) = Some cts"
| "child_trees (Leaf _ _ _) = None"

fun node_items :: "('a, 's) node \<Rightarrow> 'a list option" where
  "node_items (Leaf _ is _) = Some is"
| "node_items (Internal _ _ _ _) = None"

fun is_underflowing :: "('a, 's) node \<Rightarrow> bool" where
  "is_underflowing (Internal _ _ _ cts) = (length cts < TREE_BASE)"
| "is_underflowing (Leaf _ is _) = (length is < TREE_BASE)"

fun is_empty :: "('a, 's) node \<Rightarrow> bool" where
  "is_empty (Internal _ _ _ _) = False"
| "is_empty (Leaf _ is _) = (is = [])"

definition tree_new :: "('a, 's) summaries \<Rightarrow> ('a, 's) node" where
  "tree_new S = Leaf (sm_zero S) [] []"

section \<open>Appending\<close>

text \<open>\<open>take(midpoint).collect()\<close> and the rest, into nodes.\<close>

definition split_halves :: "nat \<Rightarrow> 'b list \<Rightarrow> ('b list \<times> 'b list) option" where
  "split_halves mid xs = Option.bind (array_vec (take mid xs)) (\<lambda>l.
     Option.bind (array_vec (drop mid xs)) (\<lambda>r. Some (l, r)))"

definition midpoint :: "nat \<Rightarrow> nat" where
  "midpoint n = (n + n mod 2) div 2"

lemma size_last_child: "cts \<noteq> [] \<Longrightarrow> size (last cts) < Suc (size_list size cts)"
  by (induction cts) auto

text \<open>The end of the internal case of \<open>push_tree_recursive\<close>: the new children are added, and the
  node is split when they do not fit.\<close>

definition push_children ::
  "('a, 's) summaries \<Rightarrow> nat \<Rightarrow> 's \<Rightarrow> 's list \<times> ('a, 's) node list \<times> 's list \<times> ('a, 's) node list \<Rightarrow>
     (('a, 's) node \<times> ('a, 's) node option) option" where
  "push_children S h s = (\<lambda>(css, cts, summaries_to_append, trees_to_append).
     let child_count = length cts + length trees_to_append in
     if child_count > 2 * TREE_BASE then
       Option.bind (split_halves (midpoint child_count) (css @ summaries_to_append))
         (\<lambda>(left_summaries, right_summaries).
       Option.bind (split_halves (midpoint child_count) (cts @ trees_to_append))
         (\<lambda>(left_trees, right_trees).
       Some (Internal h (summary_sum S left_summaries) left_summaries left_trees,
             Some (Internal h (summary_sum S right_summaries) right_summaries right_trees))))
     else
       Option.bind (array_vec (css @ summaries_to_append)) (\<lambda>css.
       Option.bind (array_vec (cts @ trees_to_append)) (\<lambda>cts.
       Some (Internal h s css cts, None))))"

definition option_list :: "'b option \<Rightarrow> 'b list" where
  "option_list x = (case x of Some t \<Rightarrow> [t] | None \<Rightarrow> [])"

text \<open>\<open>push_tree_recursive\<close>: the changed tree and what was split off to its right.\<close>

function push_tree_recursive ::
  "('a, 's) summaries \<Rightarrow> ('a, 's) node \<Rightarrow> ('a, 's) node \<Rightarrow> (('a, 's) node \<times> ('a, 's) node option) option" where
  "push_tree_recursive S (Internal h s css cts) other =
     (let s = sm_add S s (summary other) in
      if h < height other then None
      else
        let height_delta = h - height other in
        if height_delta = 0 then
          Option.bind (child_trees other) (\<lambda>ts. push_children S h s (css, cts, child_summaries other, ts))
        else if height_delta = 1 \<and> \<not> is_underflowing other then
          push_children S h s (css, cts, [summary other], [other])
        else if cts = [] \<or> css = [] then None
        else
          Option.bind (push_tree_recursive S (last cts) other) (\<lambda>(last_child, split).
          push_children S h s (butlast css @ [summary last_child], butlast cts @ [last_child],
            map summary (option_list split), option_list split)))"
| "push_tree_recursive S (Leaf s is iss) other =
     Option.bind (node_items other) (\<lambda>other_items.
     let child_count = length is + length other_items in
     if child_count > 2 * TREE_BASE then
       Option.bind (split_halves (midpoint child_count) (is @ other_items)) (\<lambda>(left_items, right_items).
       Option.bind (split_halves (midpoint child_count) (iss @ child_summaries other))
         (\<lambda>(left_summaries, right_summaries).
       Some (Leaf (summary_sum S left_summaries) left_items left_summaries,
             Some (Leaf (summary_sum S right_summaries) right_items right_summaries))))
     else
       Option.bind (array_vec (is @ other_items)) (\<lambda>is.
       Option.bind (array_vec (iss @ child_summaries other)) (\<lambda>iss.
       Some (Leaf (sm_add S s (summary other)) is iss, None))))"
  by pat_completeness auto
termination
  by (relation "measure (\<lambda>(S, t, other). size t)") (auto dest: size_last_child)

text \<open>\<open>merge_into_right\<close>: the large node, and the new node to its left when both do not fit in one.\<close>

definition div_ceil2 :: "nat \<Rightarrow> nat" where
  "div_ceil2 n = (n + 1) div 2"

fun merge_into_right ::
  "('a, 's) summaries \<Rightarrow> ('a, 's) node \<Rightarrow> ('a, 's) node \<Rightarrow> (('a, 's) node \<times> ('a, 's) node option) option" where
  "merge_into_right S (Internal _ small_s small_css small_cts) (Internal h s css cts) =
     (let n = length cts + length small_cts in
      if n \<le> 2 * TREE_BASE then
        Option.bind (array_vec (small_cts @ cts)) (\<lambda>all_trees.
        Option.bind (array_vec (small_css @ css)) (\<lambda>all_summaries.
        Some (Internal h (sm_add S small_s s) all_summaries all_trees, None)))
      else
        Option.bind (split_halves (div_ceil2 n) (small_cts @ cts)) (\<lambda>(left_trees, cts).
        Option.bind (split_halves (div_ceil2 n) (small_css @ css)) (\<lambda>(left_summaries, css).
        Some (Internal h (summary_sum S css) css cts,
              Some (Internal h (summary_sum S left_summaries) left_summaries left_trees)))))"
| "merge_into_right S (Leaf small_s small_is small_iss) (Leaf s is iss) =
     (let n = length small_is + length is in
      if n \<le> 2 * TREE_BASE then
        Option.bind (array_vec (small_is @ is)) (\<lambda>all_items.
        Option.bind (array_vec (small_iss @ iss)) (\<lambda>all_summaries.
        Some (Leaf (sm_add S small_s s) all_items all_summaries, None)))
      else
        Option.bind (split_halves (div_ceil2 n) (small_is @ is)) (\<lambda>(left_items, is).
        Option.bind (split_halves (div_ceil2 n) (small_iss @ iss)) (\<lambda>(left_summaries, iss).
        Some (Leaf (summary_sum S iss) is iss,
              Some (Leaf (summary_sum S left_summaries) left_items left_summaries)))))"
| "merge_into_right S _ _ = None"

text \<open>\<open>append_large\<close>: the changed large tree and the tree to put to its left.\<close>

definition drain_front :: "nat \<Rightarrow> 'b list \<Rightarrow> ('b list \<times> 'b list) option" where
  "drain_front n xs = (if n \<le> length xs then Some (take n xs, drop n xs) else None)"

fun append_large ::
  "('a, 's) summaries \<Rightarrow> ('a, 's) node \<Rightarrow> ('a, 's) node \<Rightarrow> (('a, 's) node \<times> ('a, 's) node option) option" where
  "append_large S small (Leaf s is iss) =
     (if height small = 0 then
        if \<not> is_underflowing small then Some (Leaf s is iss, Some small)
        else merge_into_right S small (Leaf s is iss)
      else None)"
| "append_large S small (Internal h s css cts) =
     (if height small = h then
        if \<not> is_underflowing small then Some (Internal h s css cts, Some small)
        else merge_into_right S small (Internal h s css cts)
      else
        let s = sm_add S (summary small) s in
        case cts of [] \<Rightarrow> None
        | first # rest \<Rightarrow>
          Option.bind (append_large S small first) (\<lambda>(first, res).
          case css of [] \<Rightarrow> None
          | _ # rest_summaries \<Rightarrow>
            (let css = summary first # rest_summaries; cts = first # rest in
             case res of
               None \<Rightarrow> Some (Internal h s css cts, None)
             | Some tree \<Rightarrow>
                 if length cts < 2 * TREE_BASE then
                   Option.bind (array_vec (summary tree # css)) (\<lambda>css.
                   Option.bind (array_vec (tree # cts)) (\<lambda>cts.
                   Some (Internal h s css cts, None)))
                 else
                   Option.bind (drain_front TREE_BASE css) (\<lambda>(front_summaries, css).
                   Option.bind (array_vec (summary tree # front_summaries)) (\<lambda>new_summaries.
                   Option.bind (drain_front TREE_BASE cts) (\<lambda>(front_trees, cts).
                   Option.bind (array_vec (tree # front_trees)) (\<lambda>new_trees.
                   Some (Internal h (summary_sum S css) css cts,
                         Some (Internal h (summary_sum S new_summaries) new_summaries new_trees)))))))))"

definition from_child_trees ::
  "('a, 's) summaries \<Rightarrow> ('a, 's) node \<Rightarrow> ('a, 's) node \<Rightarrow> ('a, 's) node option" where
  "from_child_trees S left right =
     (if height left + 1 > 255 then None
      else
        let css = [summary left, summary right] in
        Some (Internal (height left + 1) (summary_sum S css) css [left, right]))"

definition tree_append ::
  "('a, 's) summaries \<Rightarrow> ('a, 's) node \<Rightarrow> ('a, 's) node \<Rightarrow> ('a, 's) node option" where
  "tree_append S self other =
     (if is_empty self then Some other
      else if \<not> is_leaf other \<or> node_items other \<noteq> Some [] then
        if height self < height other then
          Option.bind (append_large S self other) (\<lambda>(other, res). case res of
            Some tree \<Rightarrow> from_child_trees S tree other
          | None \<Rightarrow> Some other)
        else
          Option.bind (push_tree_recursive S self other) (\<lambda>(self, split). case split of
            Some split_tree \<Rightarrow> from_child_trees S self split_tree
          | None \<Rightarrow> Some self)
      else Some self)"

definition tree_push :: "('a, 's) summaries \<Rightarrow> 'a \<Rightarrow> ('a, 's) node \<Rightarrow> ('a, 's) node option" where
  "tree_push S item self = tree_append S self (Leaf (sm_item S item) [item] [sm_item S item])"

definition from_item :: "('a, 's) summaries \<Rightarrow> 'a \<Rightarrow> ('a, 's) node option" where
  "from_item S item = tree_push S item (tree_new S)"

section \<open>Construction\<close>

text \<open>Slices of a length, the last one possibly shorter (\<open>take(n)\<close> in a loop and \<open>chunks(n)\<close>).\<close>

function chunks :: "nat \<Rightarrow> 'b list \<Rightarrow> 'b list list" where
  "chunks n xs = (if xs = [] \<or> n = 0 then [] else take n xs # chunks n (drop n xs))"
  by pat_completeness auto
termination
  by (relation "measure (\<lambda>(n, xs). length xs)") auto

declare chunks.simps [simp del]

text \<open>The first summary with the others added; the slices have a first one.\<close>

fun first_sum :: "('a, 's) summaries \<Rightarrow> 's list \<Rightarrow> 's" where
  "first_sum S (v # vs) = foldl (sm_add S) v vs"
| "first_sum S [] = sm_zero S"

definition leaf_of :: "('a, 's) summaries \<Rightarrow> 'a list \<Rightarrow> ('a, 's) node" where
  "leaf_of S xs = (let iss = map (sm_item S) xs in Leaf (first_sum S iss) xs iss)"

text \<open>One level of the sequential construction: the parent under construction takes the next child
  and is put away when it is full.\<close>

definition level_step ::
  "('a, 's) summaries \<Rightarrow> nat \<Rightarrow> ('a, 's) node \<Rightarrow> ('a, 's) node list \<times> ('s \<times> 's list \<times> ('a, 's) node list) option \<Rightarrow>
     ('a, 's) node list \<times> ('s \<times> 's list \<times> ('a, 's) node list) option" where
  "level_step S h child = (\<lambda>(parents, current).
     let (s, css, cts) = (case current of Some p \<Rightarrow> p | None \<Rightarrow> (sm_zero S, [], []));
         s = sm_add S s (summary child); css = css @ [summary child]; cts = cts @ [child] in
     if length cts = 2 * TREE_BASE then (parents @ [Internal h s css cts], None)
     else (parents, Some (s, css, cts)))"

definition level_seq :: "('a, 's) summaries \<Rightarrow> nat \<Rightarrow> ('a, 's) node list \<Rightarrow> ('a, 's) node list" where
  "level_seq S h nodes = (let (parents, current) = fold (level_step S h) nodes ([], None) in
     parents @ (case current of Some (s, css, cts) \<Rightarrow> [Internal h s css cts] | None \<Rightarrow> []))"

text \<open>One level of the parallel construction.\<close>

definition level_par :: "('a, 's) summaries \<Rightarrow> nat \<Rightarrow> ('a, 's) node list \<Rightarrow> ('a, 's) node list" where
  "level_par S h nodes = map (\<lambda>cts. let css = map summary cts in Internal h (first_sum S css) css cts)
     (chunks (2 * TREE_BASE) nodes)"

lemma chunks_Nil [simp]: "chunks n [] = []"
  by (simp add: chunks.simps)

lemma chunks_short: "xs \<noteq> [] \<Longrightarrow> length xs \<le> n \<Longrightarrow> chunks n xs = [xs]"
  by (subst chunks.simps) (cases xs; auto)

lemma chunks_append: "length xs = n \<Longrightarrow> 0 < n \<Longrightarrow> chunks n (xs @ ys) = xs # chunks n ys"
  by (auto simp: chunks.simps [of n "xs @ ys"])

lemma concat_chunks: "0 < n \<Longrightarrow> concat (chunks n xs) = xs"
  by (induction n xs rule: chunks.induct) (subst chunks.simps, auto)

lemma chunks_bounds: "c \<in> set (chunks n xs) \<Longrightarrow> c \<noteq> [] \<and> length c \<le> n"
  by (induction n xs rule: chunks.induct) (subst (asm) (2) chunks.simps, auto split: if_splits)

lemma length_chunks: "0 < n \<Longrightarrow> length xs \<le> n * k \<Longrightarrow> length (chunks n xs) \<le> k"
proof (induction k arbitrary: xs)
  case (Suc k)
  then show ?case by (subst chunks.simps) auto
qed simp

text \<open>Both levels are the same for summaries with a zero.\<close>

definition parent_of :: "('a, 's) summaries \<Rightarrow> nat \<Rightarrow> ('a, 's) node list \<Rightarrow> ('a, 's) node" where
  "parent_of S h cts = Internal h (summary_sum S (map summary cts)) (map summary cts) cts"

lemma fold_level_step:
  assumes "length cts < 2 * TREE_BASE"
  shows "fold (level_step S h) nodes (parents, if cts = [] then None
      else Some (summary_sum S (map summary cts), map summary cts, cts)) = (ps, cur) \<Longrightarrow>
    ps @ (case cur of Some (s, css, cts) \<Rightarrow> [Internal h s css cts] | None \<Rightarrow> []) =
    parents @ map (parent_of S h) (chunks (2 * TREE_BASE) (cts @ nodes))"
  using assms
proof (induction nodes arbitrary: parents cts)
  case Nil
  then show ?case by (auto simp: chunks_short parent_of_def)
next
  case (Cons c nodes)
  let ?cts = "cts @ [c]"
  have sum: "sm_add S (summary_sum S (map summary cts)) (summary c) = summary_sum S (map summary ?cts)"
    by (simp add: summary_sum_def)
  then have step: "level_step S h c (parents, if cts = [] then None
        else Some (summary_sum S (map summary cts), map summary cts, cts)) =
      (if length ?cts = 2 * TREE_BASE then (parents @ [parent_of S h ?cts], None)
       else (parents, Some (summary_sum S (map summary ?cts), map summary ?cts, ?cts)))"
    by (auto simp: level_step_def parent_of_def Let_def summary_sum_def)
  show ?case
  proof (cases "length ?cts = 2 * TREE_BASE")
    case True
    then show ?thesis
      using Cons.IH [where cts = "[]" and parents = "parents @ [parent_of S h ?cts]"] Cons.prems(1) step
        chunks_append [OF True, of nodes] by (simp add: TREE_BASE_def)
  next
    case False
    then have "length ?cts < 2 * TREE_BASE" using Cons.prems(2) by simp
    then show ?thesis using Cons.IH [where cts = ?cts and parents = parents] Cons.prems(1) step False by simp
  qed
qed

lemma level_seq_chunks: "level_seq S h nodes = map (parent_of S h) (chunks (2 * TREE_BASE) nodes)"
  using fold_level_step [of "[]" S h nodes "[]"]
  by (auto simp: level_seq_def TREE_BASE_def split: prod.splits)

lemma length_level_seq: "length (level_seq S h nodes) \<le> n" if "length nodes \<le> 2 * TREE_BASE * n"
  using that length_chunks [of "2 * TREE_BASE" nodes n] by (simp add: level_seq_chunks TREE_BASE_def)

lemma length_level_less: "1 < length nodes \<Longrightarrow> length (chunks (2 * TREE_BASE) nodes) < length nodes"
proof -
  assume "1 < length nodes"
  then have "length nodes \<le> 2 * TREE_BASE * (length nodes - 1)" by (simp add: TREE_BASE_def)
  then have "length (chunks (2 * TREE_BASE) nodes) \<le> length nodes - 1"
    by (intro length_chunks) (simp_all add: TREE_BASE_def)
  then show ?thesis using \<open>1 < length nodes\<close> by simp
qed

text \<open>The loops over the levels; \<open>height += 1\<close> is checked.\<close>

function build_seq :: "('a, 's) summaries \<Rightarrow> nat \<Rightarrow> ('a, 's) node list \<Rightarrow> ('a, 's) node list option" where
  "build_seq S h nodes =
     (if length nodes \<le> 1 then Some nodes
      else if h + 1 > 255 then None
      else build_seq S (h + 1) (level_seq S (h + 1) nodes))"
  by pat_completeness auto
termination
  by (relation "measure (\<lambda>(S, h, nodes). length nodes)")
    (simp_all add: level_seq_chunks length_level_less)

function build_par :: "('a, 's) summaries \<Rightarrow> nat \<Rightarrow> ('a, 's) node list \<Rightarrow> ('a, 's) node list option" where
  "build_par S h nodes =
     (if length nodes \<le> 1 then Some nodes
      else if h + 1 > 255 then None
      else build_par S (h + 1) (level_par S (h + 1) nodes))"
  by pat_completeness auto
termination
  by (relation "measure (\<lambda>(S, h, nodes). length nodes)")
    (simp_all add: level_par_def length_level_less)

declare build_seq.simps [simp del] build_par.simps [simp del]

definition from_iter :: "('a, 's) summaries \<Rightarrow> 'a list \<Rightarrow> ('a, 's) node option" where
  "from_iter S xs = Option.bind (build_seq S 0 (map (leaf_of S) (chunks (2 * TREE_BASE) xs))) (\<lambda>nodes.
     Some (if nodes = [] then tree_new S else last nodes))"

definition from_par_iter :: "('a, 's) summaries \<Rightarrow> 'a list \<Rightarrow> ('a, 's) node option" where
  "from_par_iter S xs = Option.bind (build_par S 0 (map (leaf_of S) (chunks (2 * TREE_BASE) xs))) (\<lambda>nodes.
     Some (if nodes = [] then tree_new S else last nodes))"

definition tree_extend :: "('a, 's) summaries \<Rightarrow> 'a list \<Rightarrow> ('a, 's) node \<Rightarrow> ('a, 's) node option" where
  "tree_extend S xs self = Option.bind (from_iter S xs) (\<lambda>t. tree_append S self t)"

definition tree_par_extend :: "('a, 's) summaries \<Rightarrow> 'a list \<Rightarrow> ('a, 's) node \<Rightarrow> ('a, 's) node option" where
  "tree_par_extend S xs self = Option.bind (from_par_iter S xs) (\<lambda>t. tree_append S self t)"

section \<open>The ends\<close>

fun leftmost_leaf :: "('a, 's) node \<Rightarrow> ('a, 's) node option" where
  "leftmost_leaf (Leaf s is iss) = Some (Leaf s is iss)"
| "leftmost_leaf (Internal h s css []) = None"
| "leftmost_leaf (Internal h s css (t # ts)) = leftmost_leaf t"

function rightmost_leaf :: "('a, 's) node \<Rightarrow> ('a, 's) node option" where
  "rightmost_leaf (Leaf s is iss) = Some (Leaf s is iss)"
| "rightmost_leaf (Internal h s css cts) = (if cts = [] then None else rightmost_leaf (last cts))"
  by pat_completeness auto
termination
  by (relation "measure size") (auto dest: size_last_child)

definition first_opt :: "'b list \<Rightarrow> 'b option" where
  "first_opt xs = (case xs of [] \<Rightarrow> None | x # _ \<Rightarrow> Some x)"

definition last_opt :: "'b list \<Rightarrow> 'b option" where
  "last_opt xs = (if xs = [] then None else Some (last xs))"

text \<open>The outer option is the panic, the inner one the result.\<close>

definition tree_first :: "('a, 's) node \<Rightarrow> 'a option option" where
  "tree_first t = Option.bind (leftmost_leaf t) (\<lambda>l. map_option first_opt (node_items l))"

definition tree_last :: "('a, 's) node \<Rightarrow> 'a option option" where
  "tree_last t = Option.bind (rightmost_leaf t) (\<lambda>l. map_option last_opt (node_items l))"

definition tree_last_summary :: "('a, 's) node \<Rightarrow> 's option option" where
  "tree_last_summary t = map_option (\<lambda>l. last_opt (child_summaries l)) (rightmost_leaf t)"

function update_last_recursive ::
  "('a, 's) summaries \<Rightarrow> ('a \<Rightarrow> 'a) \<Rightarrow> ('a, 's) node \<Rightarrow> (('a, 's) node \<times> 's option) option" where
  "update_last_recursive S f (Internal h s css cts) =
     (if css = [] \<or> cts = [] then None
      else Option.bind (update_last_recursive S f (last cts)) (\<lambda>(last_child, last_summary).
        Option.bind last_summary (\<lambda>last_summary.
        let css = butlast css @ [last_summary]; s = summary_sum S css in
        Some (Internal h s css (butlast cts @ [last_child]), Some s))))"
| "update_last_recursive S f (Leaf s is iss) =
     (if is \<noteq> [] \<and> iss \<noteq> [] then
        let item = f (last is); iss = butlast iss @ [sm_item S item]; s = summary_sum S iss in
        Some (Leaf s (butlast is @ [item]) iss, Some s)
      else Some (Leaf s is iss, None))"
  by pat_completeness auto
termination
  by (relation "measure (\<lambda>(S, f, t). size t)") (auto dest: size_last_child)

fun update_first_recursive ::
  "('a, 's) summaries \<Rightarrow> ('a \<Rightarrow> 'a) \<Rightarrow> ('a, 's) node \<Rightarrow> (('a, 's) node \<times> 's option) option" where
  "update_first_recursive S f (Internal h s css []) = None"
| "update_first_recursive S f (Internal h s css (first # rest)) =
     (if css = [] then None
      else Option.bind (update_first_recursive S f first) (\<lambda>(first, first_summary).
        Option.bind first_summary (\<lambda>first_summary.
        let css = first_summary # tl css; s = summary_sum S css in
        Some (Internal h s css (first # rest), Some s))))"
| "update_first_recursive S f (Leaf s is iss) =
     (if is \<noteq> [] \<and> iss \<noteq> [] then
        let item = f (hd is); iss = sm_item S item # tl iss; s = summary_sum S iss in
        Some (Leaf s (item # tl is) iss, Some s)
      else Some (Leaf s is iss, None))"

definition update_last :: "('a, 's) summaries \<Rightarrow> ('a \<Rightarrow> 'a) \<Rightarrow> ('a, 's) node \<Rightarrow> ('a, 's) node option" where
  "update_last S f t = map_option fst (update_last_recursive S f t)"

definition update_first :: "('a, 's) summaries \<Rightarrow> ('a \<Rightarrow> 'a) \<Rightarrow> ('a, 's) node \<Rightarrow> ('a, 's) node option" where
  "update_first S f t = map_option fst (update_first_recursive S f t)"

section \<open>The list of a tree and the invariant\<close>

fun tree_items :: "('a, 's) node \<Rightarrow> 'a list" where
  "tree_items (Leaf _ is _) = is"
| "tree_items (Internal _ _ _ cts) = concat (map tree_items cts)"

fun tree_ok :: "('a, 's) summaries \<Rightarrow> ('a, 's) node \<Rightarrow> bool" where
  "tree_ok S (Leaf s is iss) =
     (iss = map (sm_item S) is \<and> s = summary_sum S iss \<and> length is \<le> 2 * TREE_BASE)"
| "tree_ok S (Internal h s css cts) =
     (cts \<noteq> [] \<and> length cts \<le> 2 * TREE_BASE \<and> css = map summary cts \<and> s = summary_sum S css \<and>
      (\<forall>t\<in>set cts. tree_ok S t \<and> Suc (height t) = h \<and> \<not> is_empty t))"

text \<open>The summary of a list of items.\<close>

definition total :: "('a, 's) summaries \<Rightarrow> 'a list \<Rightarrow> 's" where
  "total S xs = summary_sum S (map (sm_item S) xs)"

text \<open>Trees of one height with items, standing for a list together.\<close>

definition forest :: "('a, 's) summaries \<Rightarrow> nat \<Rightarrow> 'a list \<Rightarrow> ('a, 's) node list \<Rightarrow> bool" where
  "forest S h xs ts = ((\<forall>t\<in>set ts. tree_ok S t \<and> height t = h \<and> \<not> is_empty t) \<and>
     concat (map tree_items ts) = xs)"

lemma concat_map_last: "xs \<noteq> [] \<Longrightarrow> concat (map g xs) = concat (map g (butlast xs)) @ g (last xs)"
  by (induction xs) auto

lemma forest_append:
  "forest S h zs (ts @ us) \<longleftrightarrow> (\<exists>xs ys. zs = xs @ ys \<and> forest S h xs ts \<and> forest S h ys us)"
  by (auto simp: forest_def)

lemma forest_Cons:
  "forest S h zs (t # ts) \<longleftrightarrow> tree_ok S t \<and> height t = h \<and> \<not> is_empty t \<and>
     (\<exists>ys. zs = tree_items t @ ys \<and> forest S h ys ts)"
  by (auto simp: forest_def)

lemma forest_Nil [simp]: "forest S h xs [] \<longleftrightarrow> xs = []"
  by (auto simp: forest_def)

lemma forest_split:
  assumes "forest S h zs ts"
  obtains xs ys where "zs = xs @ ys" "forest S h xs (take m ts)" "forest S h ys (drop m ts)"
  using assms forest_append [of S h zs "take m ts" "drop m ts"] by auto

lemma tree_ok_Internal:
  "tree_ok S (Internal h s css cts) \<longleftrightarrow> cts \<noteq> [] \<and> length cts \<le> 2 * TREE_BASE \<and> css = map summary cts \<and>
     s = summary_sum S css \<and> (\<exists>h'. h = Suc h' \<and> forest S h' (concat (map tree_items cts)) cts)"
  by (cases h) (auto simp: forest_def neq_Nil_conv)

declare tree_ok.simps(2) [simp del]

lemma forest_pair: "forest S h xs [t] \<Longrightarrow> forest S h ys [u] \<Longrightarrow> forest S h (xs @ ys) [t, u]"
  by (simp add: forest_def)

lemma internal_ok:
  "forest S h xs ts \<Longrightarrow> ts \<noteq> [] \<Longrightarrow> length ts \<le> 2 * TREE_BASE \<Longrightarrow>
     forest S (Suc h) xs [Internal (Suc h) (summary_sum S (map summary ts)) (map summary ts) ts]"
  by (auto simp: tree_ok_Internal forest_def)

lemma tree_items_nonempty: "tree_ok S t \<Longrightarrow> \<not> is_empty t \<Longrightarrow> tree_items t \<noteq> []"
proof (induction t)
  case (Internal h s css cts)
  then show ?case by (cases cts) (auto simp: tree_ok.simps(2))
qed simp

lemma wp_array_vec [wp_simps]: "wp (array_vec xs) P \<longleftrightarrow> length xs \<le> 2 * TREE_BASE \<and> P xs"
  by (simp add: array_vec_def)

lemma wp_split_halves [wp_simps]:
  "wp (split_halves m xs) P \<longleftrightarrow> min m (length xs) \<le> 2 * TREE_BASE \<and> length xs - m \<le> 2 * TREE_BASE \<and>
     P (take m xs, drop m xs)"
  by (auto simp: split_halves_def wp_array_vec)

lemma midpoint_bounds: "2 * m < n \<Longrightarrow> n \<le> 4 * m \<Longrightarrow> 0 < midpoint n \<and> midpoint n < n \<and> midpoint n \<le> 2 * m \<and> n - midpoint n \<le> 2 * m"
  by (auto simp: midpoint_def)

locale summary_laws =
  fixes S :: "('a, 's) summaries"
  assumes zero_add: "sm_add S (sm_zero S) s = s"
    and add_assoc: "sm_add S (sm_add S a b) c = sm_add S a (sm_add S b c)"
begin

lemma foldl_add: "foldl (sm_add S) (sm_add S a b) xs = sm_add S a (foldl (sm_add S) b xs)"
  by (induction xs arbitrary: b) (simp_all add: add_assoc)

lemma sum_append: "ys \<noteq> [] \<Longrightarrow> summary_sum S (xs @ ys) = sm_add S (summary_sum S xs) (summary_sum S ys)"
  by (cases ys) (simp_all add: summary_sum_def foldl_add zero_add)

lemma sum_single [simp]: "summary_sum S [s] = s"
  by (simp add: summary_sum_def zero_add)

lemma total_append: "ys \<noteq> [] \<Longrightarrow> total S (xs @ ys) = sm_add S (total S xs) (total S ys)"
  by (simp add: total_def sum_append)

lemma summary_total: "tree_ok S t \<Longrightarrow> summary t = total S (tree_items t)"
proof (induction t)
  case (Internal h s css cts)
  have "cts \<noteq> [] \<Longrightarrow> (\<forall>t\<in>set cts. summary t = total S (tree_items t) \<and> tree_items t \<noteq> []) \<Longrightarrow>
      summary_sum S (map summary cts) = total S (concat (map tree_items cts))" for cts :: "('a, 's) node list"
  proof (induction cts rule: rev_induct)
    case (snoc t cts)
    then show ?case by (cases "cts = []") (simp_all add: sum_append total_append)
  qed simp
  then show ?case using Internal tree_items_nonempty by (fastforce simp: tree_ok.simps(2))
qed (simp add: total_def)

lemma forest_summary: "forest S h xs ts \<Longrightarrow> ts \<noteq> [] \<Longrightarrow> summary_sum S (map summary ts) = total S xs"
proof (induction ts arbitrary: xs rule: rev_induct)
  case (snoc t ts)
  then obtain ys where "xs = ys @ tree_items t" "forest S h ys ts" "tree_ok S t" "\<not> is_empty t"
    by (auto simp: forest_append forest_Cons)
  with snoc show ?case
    by (cases "ts = []") (simp_all add: sum_append total_append summary_total tree_items_nonempty)
qed simp

lemma wp_push_children:
  assumes f: "forest S h xs cts" "forest S h ys ts" "cts \<noteq> []" "s = total S (xs @ ys)"
    and n: "length cts + length ts \<le> 4 * TREE_BASE"
  shows "wp (push_children S (Suc h) s (map summary cts, cts, map summary ts, ts))
    (\<lambda>(t, split). forest S (Suc h) (xs @ ys) (t # option_list split))"
proof -
  let ?all = "cts @ ts" and ?m = "midpoint (length cts + length ts)"
  have all: "forest S h (xs @ ys) ?all" using f by (auto simp: forest_append)
  show ?thesis
  proof (cases "length ?all > 2 * TREE_BASE")
    case False
    with f all have "tree_ok S (Internal (Suc h) s (map summary ?all) ?all)"
      using forest_summary [OF all] by (simp add: tree_ok_Internal forest_def)
    with False f show ?thesis
      by (simp add: push_children_def Let_def wp_simps option_list_def forest_def)
  next
    case True
    then have m: "0 < ?m" "?m < length ?all" "?m \<le> 2 * TREE_BASE" "length ?all - ?m \<le> 2 * TREE_BASE"
      using midpoint_bounds [of TREE_BASE "length cts + length ts"] n by auto
    obtain as bs where ab: "xs @ ys = as @ bs" "forest S h as (take ?m ?all)" "forest S h bs (drop ?m ?all)"
      using forest_split [OF all] by blast
    have "forest S (Suc h) as [Internal (Suc h) (summary_sum S (map summary (take ?m ?all))) (map summary (take ?m ?all)) (take ?m ?all)]"
      using m ab by (intro internal_ok) auto
    moreover have "forest S (Suc h) bs [Internal (Suc h) (summary_sum S (map summary (drop ?m ?all))) (map summary (drop ?m ?all)) (drop ?m ?all)]"
      using m ab by (intro internal_ok) auto
    ultimately show ?thesis
      using ab m True
      by (simp add: push_children_def Let_def wp_simps option_list_def forest_def take_map drop_map
        del: take_append drop_append flip: map_append)
  qed
qed

lemma leaf_ok: "length is \<le> 2 * TREE_BASE \<Longrightarrow> is \<noteq> [] \<Longrightarrow>
    forest S 0 is [Leaf (total S is) is (map (sm_item S) is)]"
  by (simp add: forest_def total_def)

lemma total_fold: "summary_sum S (map (sm_item S) xs) = total S xs"
  by (simp add: total_def)

lemma wp_push_leaf:
  assumes "tree_ok S (Leaf s is iss)" "is \<noteq> []" "tree_ok S other" "\<not> is_empty other" "height other = 0"
  shows "wp (push_tree_recursive S (Leaf s is iss) other)
    (\<lambda>(t, split). forest S 0 (is @ tree_items other) (t # option_list split))"
proof -
  obtain s' js jss where o: "other = Leaf s' js jss" using assms by (cases other) (auto simp: tree_ok_Internal)
  let ?all = "is @ js" and ?m = "midpoint (length is + length js)"
  have j: "js \<noteq> []" "length is + length js \<le> 4 * TREE_BASE" using assms o by auto
  show ?thesis
  proof (cases "length ?all > 2 * TREE_BASE")
    case False
    moreover have "sm_add S s s' = total S ?all" using assms o j by (simp add: total_append total_fold)
    ultimately show ?thesis
      using leaf_ok [of ?all] assms o j
      by (simp add: wp_simps Let_def option_list_def)
  next
    case True
    then have m: "0 < ?m" "?m < length ?all" "?m \<le> 2 * TREE_BASE" "length ?all - ?m \<le> 2 * TREE_BASE"
      using midpoint_bounds [of TREE_BASE "length is + length js"] j by auto
    have e: "map (sm_item S) is @ map (sm_item S) js = map (sm_item S) (is @ js)" by simp
    have "forest S 0 (take ?m ?all @ drop ?m ?all) [Leaf (total S (take ?m ?all)) (take ?m ?all) (map (sm_item S) (take ?m ?all)),
        Leaf (total S (drop ?m ?all)) (drop ?m ?all) (map (sm_item S) (drop ?m ?all))]"
      using m by (intro forest_pair leaf_ok) auto
    then show ?thesis
      using assms o m True
      by (simp add: wp_simps Let_def option_list_def e take_map drop_map total_fold
        del: take_append drop_append map_append)
  qed
qed

lemma ok_height_0: "tree_ok S t \<Longrightarrow> height t = 0 \<longleftrightarrow> is_leaf t"
  by (cases t) (auto simp: tree_ok_Internal)

lemma wp_push_tree_recursive:
  assumes "tree_ok S self" "\<not> is_empty self" "tree_ok S other" "\<not> is_empty other" "height other \<le> height self"
  shows "wp (push_tree_recursive S self other)
    (\<lambda>(t, split). forest S (height self) (tree_items self @ tree_items other) (t # option_list split))"
  using assms
proof (induction self)
  case (Leaf s "is" iss)
  then show ?case using wp_push_leaf [of s "is" iss other] by simp
next
  case (Internal h s css cts)
  let ?xs = "concat (map tree_items cts)" and ?s = "sm_add S s (summary other)"
  obtain h' where h: "h = Suc h'" and f: "forest S h' ?xs cts" and cts: "cts \<noteq> []" "length cts \<le> 2 * TREE_BASE" "css = map summary cts"
    using Internal.prems(1) by (auto simp: tree_ok_Internal)
  have s: "?s = total S (?xs @ tree_items other)"
    using Internal.prems summary_total [of other] summary_total [of "Internal h s css cts"]
      tree_items_nonempty [of S other]
    by (simp add: total_append)
  consider (same) "height other = h" | (child) "height other = h'" "\<not> is_underflowing other"
    | (below) "height other \<le> h'" "\<not> (height other = h' \<and> \<not> is_underflowing other)"
    using Internal.prems(5) h by fastforce
  then show ?case
  proof cases
    case same
    then obtain s' css' cts' where o: "other = Internal h s' css' cts'" using h by (cases other) auto
    then have "forest S h' (tree_items other) cts'" "css' = map summary cts'" "length cts' \<le> 2 * TREE_BASE"
      using Internal.prems(3) h by (auto simp: tree_ok_Internal)
    with wp_push_children [OF f _ cts(1) s] same o h cts show ?thesis by (simp add: Let_def)
  next
    case child
    then have o: "forest S h' (tree_items other) [other]" using Internal.prems by (simp add: forest_Cons)
    have "length cts + length [other] \<le> 4 * TREE_BASE" using cts by (simp add: TREE_BASE_def)
    from wp_push_children [OF f o cts(1) s this] child h cts show ?thesis
      by (simp add: Let_def)
  next
    case below
    let ?l = "last cts" and ?b = "butlast cts"
    have split: "cts = ?b @ [?l]" using cts by simp
    obtain xs where xs: "?xs = xs @ tree_items ?l" "forest S h' xs ?b"
      and l: "tree_ok S ?l" "height ?l = h'" "\<not> is_empty ?l"
      using f forest_append [of S h' ?xs ?b "[?l]"] split by (auto simp: forest_Cons)
    have "wp (push_tree_recursive S ?l other)
        (\<lambda>(t, split). forest S h' (tree_items ?l @ tree_items other) (t # option_list split))"
      using Internal.IH [of ?l] l Internal.prems below cts by simp
    then obtain t sp where t: "push_tree_recursive S ?l other = Some (t, sp)"
      "forest S h' (tree_items ?l @ tree_items other) (t # option_list sp)" by (auto simp: wp_iff)
    then obtain ys where ys: "tree_items ?l @ tree_items other = tree_items t @ ys"
      "forest S h' (tree_items t) [t]" "forest S h' ys (option_list sp)" by (auto simp: forest_Cons)
    have f': "forest S h' (xs @ tree_items t) (?b @ [t])" using xs ys by (auto simp: forest_append)
    have e: "?xs @ tree_items other = (xs @ tree_items t) @ ys" using xs ys by simp
    have "length (option_list sp) \<le> 1" by (simp add: option_list_def split: option.splits)
    then have "length (?b @ [t]) + length (option_list sp) \<le> 4 * TREE_BASE"
      using cts by (simp add: TREE_BASE_def)
    from wp_push_children [OF f' ys(3) _ s [unfolded e] this] below h cts t e show ?thesis
      by (auto simp: Let_def map_butlast)
  qed
qed

lemma div_ceil2_bounds:
  "2 * m < n \<Longrightarrow> n \<le> 4 * m \<Longrightarrow> 0 < div_ceil2 n \<and> div_ceil2 n < n \<and> div_ceil2 n \<le> 2 * m \<and> n - div_ceil2 n \<le> 2 * m"
  by (auto simp: div_ceil2_def)

lemma wp_merge_into_right:
  assumes small: "tree_ok S small" "\<not> is_empty small" and large: "tree_ok S large" "\<not> is_empty large"
    and h: "height small = height large"
  shows "wp (merge_into_right S small large)
    (\<lambda>(t, res). forest S (height large) (tree_items small @ tree_items large) (option_list res @ [t]))"
proof (cases large)
  case (Internal hl s css cts)
  obtain h' where h': "hl = Suc h'" and l: "forest S h' (tree_items large) cts" "cts \<noteq> []"
    "length cts \<le> 2 * TREE_BASE" "css = map summary cts"
    using large(1) unfolding Internal tree_ok_Internal by auto
  have ls: "s = total S (tree_items large)" using summary_total [OF large(1)] Internal by simp
  obtain ss css' cts' where sm: "small = Internal hl ss css' cts'" using Internal h h' by (cases small) auto
  have s: "forest S h' (tree_items small) cts'" "cts' \<noteq> []" "length cts' \<le> 2 * TREE_BASE"
    "css' = map summary cts'"
    using small(1) h' unfolding sm tree_ok_Internal by auto
  have sums: "sm_add S ss s = total S (tree_items small @ tree_items large)"
    using summary_total [OF small(1)] tree_items_nonempty [OF large] sm ls by (simp add: total_append)
  let ?all = "cts' @ cts" and ?m = "div_ceil2 (length cts + length cts')"
  have all: "forest S h' (tree_items small @ tree_items large) ?all" using s l by (auto simp: forest_append)
  show ?thesis
  proof (cases "length ?all \<le> 2 * TREE_BASE")
    case True
    have "sm_add S ss s = summary_sum S (map summary ?all)"
      using forest_summary [OF all] l(2) sums by simp
    with internal_ok [OF all _ True] True Internal sm s(2,4) l(2,4) h' show ?thesis
      by (simp add: Let_def wp_simps option_list_def)
  next
    case False
    then have m: "0 < ?m" "?m < length ?all" "?m \<le> 2 * TREE_BASE" "length ?all - ?m \<le> 2 * TREE_BASE"
      using div_ceil2_bounds [of TREE_BASE "length cts + length cts'"] s l by auto
    obtain as bs where ab: "tree_items small @ tree_items large = as @ bs"
      "forest S h' as (take ?m ?all)" "forest S h' bs (drop ?m ?all)"
      using forest_split [OF all] by blast
    have "forest S (Suc h') (as @ bs)
        [Internal (Suc h') (summary_sum S (map summary (take ?m ?all))) (map summary (take ?m ?all)) (take ?m ?all),
         Internal (Suc h') (summary_sum S (map summary (drop ?m ?all))) (map summary (drop ?m ?all)) (drop ?m ?all)]"
      using m ab by (intro forest_pair internal_ok) auto
    with ab(1) m False Internal sm s(4) l(4) h' show ?thesis
      by (simp add: Let_def wp_simps option_list_def take_map drop_map
        del: take_append drop_append tree_items.simps flip: map_append)
  qed
next
  case (Leaf s "is" iss)
  then obtain ss js jss where sm: "small = Leaf ss js jss" using h small by (cases small) (auto simp: tree_ok_Internal)
  let ?all = "js @ is" and ?m = "div_ceil2 (length js + length is)"
  show ?thesis
  proof (cases "length ?all \<le> 2 * TREE_BASE")
    case True
    moreover have "sm_add S ss s = total S ?all" using sm Leaf small large by (simp add: total_append total_fold)
    ultimately show ?thesis using leaf_ok [of ?all] sm Leaf small large
      by (simp add: Let_def wp_simps option_list_def)
  next
    case False
    then have m: "0 < ?m" "?m < length ?all" "?m \<le> 2 * TREE_BASE" "length ?all - ?m \<le> 2 * TREE_BASE"
      using div_ceil2_bounds [of TREE_BASE "length js + length is"] sm Leaf small large by auto
    have e: "map (sm_item S) js @ map (sm_item S) is = map (sm_item S) (js @ is)" by simp
    have "forest S 0 (take ?m ?all @ drop ?m ?all) [Leaf (total S (take ?m ?all)) (take ?m ?all) (map (sm_item S) (take ?m ?all)),
        Leaf (total S (drop ?m ?all)) (drop ?m ?all) (map (sm_item S) (drop ?m ?all))]"
      using m by (intro forest_pair leaf_ok) auto
    then show ?thesis
      using sm Leaf small large m False
      by (simp add: wp_simps Let_def option_list_def e take_map drop_map total_fold
        del: take_append drop_append map_append)
  qed
qed

text \<open>A node of an old first child, a tree to its left and the rest of the children.\<close>

lemma wp_append_large:
  assumes small: "tree_ok S small" "\<not> is_empty small"
    and "tree_ok S large" "\<not> is_empty large" "height small \<le> height large"
  shows "wp (append_large S small large)
    (\<lambda>(t, res). forest S (height large) (tree_items small @ tree_items large) (option_list res @ [t]))"
  using assms(3-5)
proof (induction large)
  case (Leaf s "is" iss)
  then show ?case
    using small wp_merge_into_right [OF small Leaf.prems(1,2)] by (auto simp: option_list_def forest_def)
next
  case (Internal h s css cts)
  note large = Internal.prems(1,2)
  show ?case
  proof (cases "height small = h")
    case True
    then show ?thesis
      using small large wp_merge_into_right [OF small large] by (auto simp: option_list_def forest_def)
  next
    case False
    obtain h' first rest where h: "h = Suc h'" and cts: "cts = first # rest" "length cts \<le> 2 * TREE_BASE"
        "css = map summary cts" and f: "forest S h' (concat (map tree_items cts)) (first # rest)"
      using large(1) unfolding tree_ok_Internal by (auto simp: neq_Nil_conv)
    then obtain ys where first: "tree_ok S first" "\<not> is_empty first" "height first = h'"
      and ys: "forest S h' ys rest" "concat (map tree_items cts) = tree_items first @ ys"
      by (auto simp: forest_Cons)
    have "wp (append_large S small first)
        (\<lambda>(t, res). forest S h' (tree_items small @ tree_items first) (option_list res @ [t]))"
      using Internal.IH [of first] first cts Internal.prems(3) False h by simp
    then obtain t res where rec: "append_large S small first = Some (t, res)"
      and tr: "forest S h' (tree_items small @ tree_items first) (option_list res @ [t])" by (auto simp: wp_iff)
    let ?new = "option_list res @ t # rest"
    let ?xs = "tree_items small @ tree_items (Internal h s css cts)"
    have new: "forest S h' ?xs ?new"
      using tr ys by (auto simp: forest_append forest_Cons) (metis append.assoc)
    have sum: "sm_add S (summary small) s = summary_sum S (map summary ?new)"
      using forest_summary [OF new] summary_total [OF small(1)] summary_total [OF large(1)]
        tree_items_nonempty [OF large] by (simp add: total_append)
    have len: "length (t # rest) \<le> 2 * TREE_BASE" using cts by simp
    consider (none) "res = None" | (fits) tree where "res = Some tree" "length (t # rest) < 2 * TREE_BASE"
      | (full) tree where "res = Some tree" "length (t # rest) = 2 * TREE_BASE"
      using len by (cases res) fastforce+
    then show ?thesis
    proof cases
      case none
      with internal_ok [OF new] len sum rec cts h False show ?thesis
        by (simp add: option_list_def)
    next
      case fits
      with internal_ok [OF new] sum rec cts h False show ?thesis
        by (simp add: option_list_def wp_simps Let_def)
    next
      case full
      obtain as bs where ab: "?xs = as @ bs" "forest S h' as (take (Suc TREE_BASE) ?new)"
          "forest S h' bs (drop (Suc TREE_BASE) ?new)"
        using forest_split [OF new] by blast
      have "forest S h (as @ bs)
          [Internal h (summary_sum S (map summary (take (Suc TREE_BASE) ?new))) (map summary (take (Suc TREE_BASE) ?new)) (take (Suc TREE_BASE) ?new),
           Internal h (summary_sum S (map summary (drop (Suc TREE_BASE) ?new))) (map summary (drop (Suc TREE_BASE) ?new)) (drop (Suc TREE_BASE) ?new)]"
        unfolding h using ab full by (intro forest_pair internal_ok) (auto simp: option_list_def TREE_BASE_def)
      with ab(1) full rec cts h False show ?thesis
        by (simp add: option_list_def wp_simps Let_def drain_front_def take_map drop_map TREE_BASE_def)
    qed
  qed
qed

lemma wp_from_child_trees:
  assumes "forest S h xs [l, r]" "h < 255"
  shows "wp (from_child_trees S l r) (\<lambda>t. forest S (Suc h) xs [t])"
  using assms internal_ok [OF assms(1)] by (simp add: from_child_trees_def Let_def forest_Cons TREE_BASE_def)

lemma wp_tree_append:
  assumes self: "tree_ok S self" and other: "tree_ok S other" and h: "height self < 255" "height other < 255"
  shows "wp (tree_append S self other) (\<lambda>t. tree_ok S t \<and> tree_items t = tree_items self @ tree_items other \<and>
    height t \<le> Suc (max (height self) (height other)))"
proof -
  consider (l) "is_empty self" | (r) "\<not> is_empty self" "is_empty other"
    | (up) "\<not> is_empty self" "\<not> is_empty other" "height self < height other"
    | (down) "\<not> is_empty self" "\<not> is_empty other" "height other \<le> height self" by fastforce
  then show ?thesis
  proof cases
    case l
    then show ?thesis using other by (cases self) (auto simp: tree_append_def)
  next
    case r
    then show ?thesis using self by (cases other) (auto simp: tree_append_def)
  next
    case up
    then have c: "\<not> is_leaf other \<or> node_items other \<noteq> Some []" by (cases other) auto
    obtain t res where a: "append_large S self other = Some (t, res)"
      "forest S (height other) (tree_items self @ tree_items other) (option_list res @ [t])"
      using wp_append_large [OF self up(1) other up(2)] up(3) by (auto simp: wp_iff)
    then show ?thesis
    proof (cases res)
      case (Some u)
      with a wp_from_child_trees [of "height other" _ u t] h up c show ?thesis
        by (auto simp: tree_append_def option_list_def forest_Cons elim!: wp_mono)
    qed (use a up c in \<open>auto simp: tree_append_def option_list_def forest_Cons\<close>)
  next
    case down
    then have c: "\<not> is_leaf other \<or> node_items other \<noteq> Some []" by (cases other) auto
    obtain t res where a: "push_tree_recursive S self other = Some (t, res)"
      "forest S (height self) (tree_items self @ tree_items other) (t # option_list res)"
      using wp_push_tree_recursive [OF self down(1) other down(2,3)] by (auto simp: wp_iff)
    then show ?thesis
    proof (cases res)
      case (Some u)
      with a wp_from_child_trees [of "height self" _ t u] h down c show ?thesis
        by (auto simp: tree_append_def option_list_def forest_Cons elim!: wp_mono)
    qed (use a down c in \<open>auto simp: tree_append_def option_list_def forest_Cons\<close>)
  qed
qed

lemma first_sum_eq: "first_sum S vs = summary_sum S vs"
  by (cases vs) (simp_all add: summary_sum_def zero_add)

lemma forest_parents:
  assumes "forest S h xs nodes"
  shows "forest S (Suc h) xs (map (parent_of S (Suc h)) (chunks (2 * TREE_BASE) nodes))"
proof -
  have "forest S (Suc h) (concat (map tree_items (concat cs))) (map (parent_of S (Suc h)) cs)"
    if "\<forall>c\<in>set cs. c \<noteq> [] \<and> length c \<le> 2 * TREE_BASE" "\<forall>t\<in>set (concat cs). tree_ok S t \<and> height t = h \<and> \<not> is_empty t"
    for cs :: "('a, 's) node list list"
    using that
  proof (induction cs)
    case (Cons c cs)
    then have c: "forest S h (concat (map tree_items c)) c" by (simp add: forest_def)
    from internal_ok [OF c] Cons have "forest S (Suc h) (concat (map tree_items c)) [parent_of S (Suc h) c]"
      by (simp add: parent_of_def)
    with Cons show ?case by (simp add: forest_def)
  qed simp
  from this [of "chunks (2 * TREE_BASE) nodes"] assms show ?thesis
    by (auto simp: concat_chunks TREE_BASE_def forest_def dest: chunks_bounds)
qed

lemma wp_build_seq:
  assumes "forest S h xs nodes" "length nodes \<le> (2 * TREE_BASE) ^ k" "h + k \<le> 255"
  shows "wp (build_seq S h nodes) (\<lambda>ns. length ns \<le> 1 \<and> (\<exists>h'\<le>h + k. forest S h' xs ns))"
  using assms
proof (induction k arbitrary: h nodes)
  case 0
  then show ?case by (subst build_seq.simps) auto
next
  case (Suc k)
  show ?case
  proof (cases "length nodes \<le> 1")
    case True
    moreover have "\<exists>h'\<le>h + Suc k. forest S h' xs nodes"
      using Suc.prems(1) by (intro exI [of _ h]) simp
    ultimately show ?thesis by (subst build_seq.simps) simp
  next
    case False
    have "length (level_seq S (Suc h) nodes) \<le> (2 * TREE_BASE) ^ k"
      using Suc.prems(2) by (intro length_level_seq) simp
    moreover have "forest S (Suc h) xs (level_seq S (Suc h) nodes)"
      using Suc.prems(1) by (simp add: level_seq_chunks forest_parents)
    ultimately have "wp (build_seq S (Suc h) (level_seq S (Suc h) nodes))
        (\<lambda>ns. length ns \<le> 1 \<and> (\<exists>h'\<le>Suc h + k. forest S h' xs ns))"
      using Suc.IH [of "Suc h" "level_seq S (Suc h) nodes"] Suc.prems(3) by simp
    with False Suc.prems(3) show ?thesis by (subst build_seq.simps) (auto elim!: wp_mono)
  qed
qed

lemma forest_leaves: "forest S 0 xs (map (leaf_of S) (chunks (2 * TREE_BASE) xs))"
proof -
  have "forest S 0 (concat cs) (map (leaf_of S) cs)" if "\<forall>c\<in>set cs. c \<noteq> [] \<and> length c \<le> 2 * TREE_BASE" for cs
    using that by (auto simp: forest_def leaf_of_def Let_def first_sum_eq)
      (induction cs; simp add: leaf_of_def Let_def)
  from this [of "chunks (2 * TREE_BASE) xs"] show ?thesis
    by (auto simp: concat_chunks TREE_BASE_def dest: chunks_bounds)
qed

lemma wp_from_iter:
  assumes "length xs < 2 ^ 64"
  shows "wp (from_iter S xs) (\<lambda>t. tree_ok S t \<and> tree_items t = xs \<and> height t \<le> 18)"
proof -
  have "length (chunks (2 * TREE_BASE) xs) \<le> (2 * TREE_BASE) ^ 18"
    using assms by (intro length_chunks) (simp_all add: TREE_BASE_def)
  then have "wp (build_seq S 0 (map (leaf_of S) (chunks (2 * TREE_BASE) xs)))
      (\<lambda>ns. length ns \<le> 1 \<and> (\<exists>h'\<le>18. forest S h' xs ns))"
    using wp_build_seq [OF forest_leaves, of xs 18] by simp
  then show ?thesis
    unfolding from_iter_def
    by (auto simp: forest_Cons tree_new_def summary_sum_def le_Suc_eq length_Suc_conv elim!: wp_mono)
qed

lemma level_par_eq: "level_par S h nodes = level_seq S h nodes"
  by (simp add: level_par_def level_seq_chunks parent_of_def Let_def first_sum_eq)

lemma build_par_eq: "build_par S h nodes = build_seq S h nodes"
proof (induction nodes arbitrary: h rule: length_induct)
  case (1 nodes)
  then show ?case
    by (subst build_par.simps, subst build_seq.simps)
      (simp add: level_par_eq level_seq_chunks length_level_less)
qed

lemma tree_last_eq: "tree_ok S t \<Longrightarrow> tree_last t = Some (last_opt (tree_items t))"
proof (induction t)
  case (Internal h s css cts)
  then have cts: "cts \<noteq> []" and f: "\<forall>t\<in>set cts. tree_ok S t \<and> \<not> is_empty t" by (simp_all add: tree_ok.simps(2))
  let ?l = "last cts"
  have "tree_items (Internal h s css cts) = concat (map tree_items (butlast cts)) @ tree_items ?l"
    using concat_map_last [OF cts] by simp
  moreover have "tree_items ?l \<noteq> []" using cts f tree_items_nonempty [of S ?l] by simp
  ultimately have "last_opt (tree_items (Internal h s css cts)) = last_opt (tree_items ?l)"
    by (simp add: last_opt_def)
  with Internal.IH [of ?l] cts f show ?case by (simp add: tree_last_def)
qed (simp add: tree_last_def)

lemma tree_first_eq: "tree_ok S t \<Longrightarrow> tree_first t = Some (first_opt (tree_items t))"
proof (induction t rule: leftmost_leaf.induct)
  case (3 h s css t ts)
  then have "tree_ok S t" "\<not> is_empty t" by (simp_all add: tree_ok.simps(2))
  with 3 tree_items_nonempty [of S t] show ?case by (auto simp: tree_first_def first_opt_def split: list.splits)
qed (simp_all add: tree_first_def tree_ok.simps(2))

lemma wp_update_last:
  assumes "tree_ok S t" "\<not> is_empty t"
  shows "wp (update_last_recursive S f t) (\<lambda>(t', s). s = Some (summary t') \<and>
    forest S (height t) (butlast (tree_items t) @ [f (last (tree_items t))]) [t'])"
  using assms
proof (induction t)
  case (Internal h s css cts)
  then obtain h' where h: "h = Suc h'" and fo: "forest S h' (concat (map tree_items cts)) cts" "cts \<noteq> []"
      "length cts \<le> 2 * TREE_BASE" "css = map summary cts"
    unfolding tree_ok_Internal by auto
  let ?l = "last cts" and ?b = "butlast cts"
  have split: "cts = ?b @ [?l]" using fo by simp
  obtain xs where xs: "concat (map tree_items cts) = xs @ tree_items ?l" "forest S h' xs ?b"
      and l: "tree_ok S ?l" "height ?l = h'" "\<not> is_empty ?l"
    using fo(1) forest_append [of S h' _ ?b "[?l]"] split by (auto simp: forest_Cons)
  have e: "butlast (tree_items (Internal h s css cts)) @ [f (last (tree_items (Internal h s css cts)))] =
      xs @ butlast (tree_items ?l) @ [f (last (tree_items ?l))]"
    using xs(1) tree_items_nonempty [OF l(1,3)] by (simp add: butlast_append)
  obtain t' where t': "update_last_recursive S f ?l = Some (t', Some (summary t'))"
      "forest S h' (butlast (tree_items ?l) @ [f (last (tree_items ?l))]) [t']"
    using Internal.IH [of ?l] l fo by (auto simp: wp_iff)
  then have "forest S h' (xs @ butlast (tree_items ?l) @ [f (last (tree_items ?l))]) (?b @ [t'])"
    using xs by (auto simp: forest_append)
  from internal_ok [OF this] t' fo h show ?case unfolding e by (simp add: map_butlast Let_def)
next
  case (Leaf s "is" iss)
  then show ?case by (simp add: Let_def forest_def map_butlast)
qed

lemma wp_update_first:
  assumes "tree_ok S t" "\<not> is_empty t"
  shows "wp (update_first_recursive S f t) (\<lambda>(t', s). s = Some (summary t') \<and>
    forest S (height t) (f (hd (tree_items t)) # tl (tree_items t)) [t'])"
  using assms
proof (induction t)
  case (Internal h s css cts)
  then obtain h' first rest where h: "h = Suc h'" and fo: "forest S h' (concat (map tree_items cts)) cts"
      "cts = first # rest" "length cts \<le> 2 * TREE_BASE" "css = map summary cts"
    unfolding tree_ok_Internal by (auto simp: neq_Nil_conv)
  then obtain ys where first: "tree_ok S first" "\<not> is_empty first" "height first = h'"
    and ys: "forest S h' ys rest" "concat (map tree_items cts) = tree_items first @ ys"
    by (auto simp: forest_Cons)
  obtain t' where t': "update_first_recursive S f first = Some (t', Some (summary t'))"
      "forest S h' (f (hd (tree_items first)) # tl (tree_items first)) [t']"
    using Internal.IH [of first] first fo by (auto simp: wp_iff)
  then have "forest S h' ((f (hd (tree_items first)) # tl (tree_items first)) @ ys) (t' # rest)"
    using ys by (auto simp: forest_Cons)
  from internal_ok [OF this] t' fo h tree_items_nonempty [OF first(1,2)] ys(2) show ?case
    by (simp add: Let_def)
next
  case (Leaf s "is" iss)
  then show ?case by (cases "is") (simp_all add: Let_def forest_def)
qed

end

section \<open>How high trees grow\<close>

text \<open>The levels above the height of everything that was appended come from splits: inner nodes up
  there are at least half full.\<close>

fun solid :: "nat \<Rightarrow> ('a, 's) node \<Rightarrow> bool" where
  "solid k (Leaf _ _ _) = True"
| "solid k (Internal h _ _ cts) = (k < h \<longrightarrow> TREE_BASE \<le> length cts \<and> (\<forall>t\<in>set cts. solid k t))"

fun solid_below :: "nat \<Rightarrow> nat \<Rightarrow> ('a, 's) node \<Rightarrow> bool" where
  "solid_below m k (Leaf _ _ _) = True"
| "solid_below m k (Internal h _ _ cts) = (k < h \<longrightarrow> m \<le> length cts \<and> (\<forall>t\<in>set cts. solid k t))"

lemma solid_low: "height t \<le> k \<Longrightarrow> solid k t"
  by (cases t) auto

lemma solid_below_low: "height t \<le> k \<Longrightarrow> solid_below m k t"
  by (cases t) auto

lemma solid_below_base: "solid_below TREE_BASE k t = solid k t"
  by (cases t) auto

lemma solid_below_mono: "solid_below m k t \<Longrightarrow> n \<le> m \<Longrightarrow> solid_below n k t"
  by (cases t) auto

lemma push_children_cases:
  assumes r: "push_children S h s (css, cts, ss, ts) = Some (t, split)"
  shows "(split = None \<and> (\<exists>s css. t = Internal h s css (cts @ ts))) \<or>
    (\<exists>m s css u s' css'. split = Some u \<and> t = Internal h s css (take m (cts @ ts)) \<and> u = Internal h s' css' (drop m (cts @ ts)) \<and>
      TREE_BASE \<le> m \<and> m + TREE_BASE \<le> length cts + length ts)"
proof (cases "length cts + length ts > 2 * TREE_BASE")
  case True
  let ?mid = "midpoint (length cts + length ts)"
  have mid: "TREE_BASE \<le> ?mid" "?mid + TREE_BASE \<le> length cts + length ts"
    using True by (auto simp: midpoint_def TREE_BASE_def)
  from r True obtain s css s' css' where
    "t = Internal h s css (take ?mid (cts @ ts))" "split = Some (Internal h s' css' (drop ?mid (cts @ ts)))"
    by (simp add: push_children_def Let_def split_halves_def array_vec_def bind_eq_Some_conv del: take_append drop_append split: if_splits) blast
  with mid show ?thesis by blast
next
  case False
  from r False show ?thesis
    by (simp add: push_children_def Let_def array_vec_def split: if_splits) blast
qed

lemma push_children_solid:
  assumes r: "push_children S h s (css, cts, ss, ts) = Some (t, split)"
    and f: "k < h \<Longrightarrow> m \<le> length cts + length ts \<and> (\<forall>c\<in>set (cts @ ts). solid k c)"
  shows "height t = h \<and> solid_below (if split = None then m else TREE_BASE) k t \<and>
    (\<forall>u. split = Some u \<longrightarrow> height u = h \<and> solid k u)"
proof -
  have "(\<forall>c\<in>set (take n (cts @ ts)). solid k c) \<and> (\<forall>c\<in>set (drop n (cts @ ts)). solid k c)" if "k < h" for n
    using f [OF that] by (meson in_set_takeD in_set_dropD)
  with push_children_cases [OF r] f show ?thesis by (auto simp del: take_append drop_append set_append)
qed

lemma push_tree_recursive_solid:
  assumes "push_tree_recursive S self other = Some (t, split)" "height other \<le> k" "solid_below m k self" "tree_ok S self"
  shows "height t = height self \<and> solid_below (if split = None then m else TREE_BASE) k t \<and>
    (\<forall>u. split = Some u \<longrightarrow> height u = height self \<and> solid k u)"
  using assms
proof (induction self arbitrary: t split m)
  case (Leaf s "is" iss)
  then show ?case
    by (auto simp: Let_def bind_eq_Some_conv split: if_splits)
next
  case (Internal h s css cts)
  have below: "k < h \<Longrightarrow> m \<le> length cts \<and> (\<forall>c\<in>set cts. solid k c)" using Internal.prems(3) by simp
  have cts: "cts \<noteq> []" "\<forall>c\<in>set cts. tree_ok S c \<and> Suc (height c) = h" using Internal.prems(4) by (simp_all add: tree_ok.simps(2))
  consider (same) "height other = h" | (child) "Suc (height other) = h" "\<not> is_underflowing other"
    | (below) "height other < h" "\<not> (Suc (height other) = h \<and> \<not> is_underflowing other)"
    using Internal.prems(1) by (auto simp: Let_def split: if_splits)
  then show ?case
  proof cases
    case same
    then obtain ts where "push_children S h (sm_add S s (summary other)) (css, cts, child_summaries other, ts) = Some (t, split)"
      using Internal.prems(1) by (auto simp: Let_def bind_eq_Some_conv)
    from push_children_solid [OF this, of k m] same Internal.prems(2) show ?thesis by simp
  next
    case child
    then have pc: "push_children S h (sm_add S s (summary other)) (css, cts, [summary other], [other]) = Some (t, split)"
      using Internal.prems(1) by (auto simp: Let_def)
    have "k < h \<Longrightarrow> m \<le> length cts + length [other] \<and> (\<forall>c\<in>set (cts @ [other]). solid k c)"
      using below solid_low [OF Internal.prems(2)] by auto
    from push_children_solid [OF pc this] show ?thesis by simp
  next
    case below
    let ?l = "last cts"
    have l: "?l \<in> set cts" "tree_ok S ?l" "Suc (height ?l) = h" using cts by auto
    obtain lc sp where rec: "push_tree_recursive S ?l other = Some (lc, sp)"
      and pc: "push_children S h (sm_add S s (summary other)) (butlast css @ [summary lc], butlast cts @ [lc],
        map summary (option_list sp), option_list sp) = Some (t, split)"
      using Internal.prems(1) below by (auto simp: Let_def bind_eq_Some_conv split: if_splits)
    have "solid k ?l" using \<open>k < h \<Longrightarrow> m \<le> length cts \<and> (\<forall>c\<in>set cts. solid k c)\<close> l by (cases "k < h") (auto intro: solid_low)
    then have "solid k lc" "\<forall>u\<in>set (option_list sp). solid k u"
      using Internal.IH [OF l(1) rec Internal.prems(2) _ l(2), of TREE_BASE]
      by (auto simp: solid_below_base option_list_def split: if_splits option.splits)
    then have "k < h \<Longrightarrow> m \<le> length (butlast cts @ [lc]) + length (option_list sp) \<and>
        (\<forall>c\<in>set ((butlast cts @ [lc]) @ option_list sp). solid k c)"
      using \<open>k < h \<Longrightarrow> m \<le> length cts \<and> (\<forall>c\<in>set cts. solid k c)\<close> by (auto dest: in_set_butlastD)
    from push_children_solid [OF pc this] show ?thesis by simp
  qed
qed

definition grown :: "('a, 's) summaries \<Rightarrow> nat \<Rightarrow> 'a list \<Rightarrow> ('a, 's) node \<Rightarrow> bool" where
  "grown S k xs t = (tree_ok S t \<and> tree_items t = xs \<and> solid_below 2 k t)"

lemma solid_items:
  assumes "tree_ok S t" "solid k t" "\<not> is_empty t" "k \<le> height t"
  shows "TREE_BASE ^ (height t - k) \<le> length (tree_items t)"
  using assms
proof (induction t)
  case (Leaf s "is" iss)
  then show ?case by (cases "is") auto
next
  case (Internal h s css cts)
  show ?case
  proof (cases "k < h")
    case False
    with Internal.prems have "h - k = 0" "tree_items (Internal h s css cts) \<noteq> []"
      using tree_items_nonempty [OF Internal.prems(1,3)] by simp_all
    then show ?thesis by (cases "tree_items (Internal h s css cts)") simp_all
  next
    case True
    then have c: "\<forall>c\<in>set cts. TREE_BASE ^ (h - 1 - k) \<le> length (tree_items c)" "TREE_BASE \<le> length cts"
      using Internal by (auto simp: tree_ok.simps(2))
    have "length cts * n \<le> length (concat (map tree_items cts))" if "\<forall>c\<in>set cts. n \<le> length (tree_items c)" for n
      using that by (induction cts) auto
    from this [OF c(1)] have "TREE_BASE * TREE_BASE ^ (h - 1 - k) \<le> length (concat (map tree_items cts))"
      using c(2) by (meson le_trans mult_le_mono1)
    moreover have "h - k = Suc (h - 1 - k)" using True by simp
    ultimately show ?thesis by simp
  qed
qed

lemma grown_height:
  assumes "grown S k xs t" "length xs < 2 ^ 64"
  shows "height t \<le> k + 25"
proof (cases t)
  case (Internal h s css cts)
  show ?thesis
  proof (rule ccontr)
    assume "\<not> height t \<le> k + 25"
    then have h: "k + 25 < h" using Internal by simp
    obtain c where c: "c \<in> set cts" using assms(1) Internal by (cases cts) (auto simp: grown_def tree_ok.simps(2))
    then have "tree_ok S c" "\<not> is_empty c" "Suc (height c) = h" "solid k c"
      using assms(1) Internal h by (auto simp: grown_def tree_ok.simps(2))
    then have "TREE_BASE ^ (h - 1 - k) \<le> length (tree_items c)" using solid_items [of S c k] h by auto
    also have "\<dots> \<le> length xs"
    proof -
      obtain as bs where "cts = as @ c # bs" using c by (auto simp: in_set_conv_decomp)
      then show ?thesis using assms(1) Internal by (auto simp: grown_def)
    qed
    finally have "TREE_BASE ^ (h - 1 - k) < 2 ^ 64" using assms(2) by simp
    moreover have "TREE_BASE ^ 25 \<le> TREE_BASE ^ (h - 1 - k)" using h by (intro power_increasing) (auto simp: TREE_BASE_def)
    ultimately show False by (simp add: TREE_BASE_def)
  qed
qed simp

lemma grown_new: "grown S k [] (tree_new S)"
  by (simp add: grown_def tree_new_def summary_sum_def)

lemma grown_low: "tree_ok S t \<Longrightarrow> height t \<le> k \<Longrightarrow> grown S k (tree_items t) t"
  by (simp add: grown_def solid_below_low)

context summary_laws
begin

lemma append_solid:
  assumes "tree_append S self other = Some t" "tree_ok S self" "tree_ok S other" "solid_below 2 k self" "height other \<le> k"
  shows "solid_below 2 k t"
proof -
  consider (l) "is_empty self" | (r) "\<not> is_empty self" "is_empty other"
    | (up) "\<not> is_empty self" "\<not> is_empty other" "height self < height other"
    | (down) "\<not> is_empty self" "\<not> is_empty other" "height other \<le> height self" by fastforce
  then show ?thesis
  proof cases
    case l
    then show ?thesis using assms solid_below_low by (auto simp: tree_append_def)
  next
    case r
    then show ?thesis using assms by (cases other) (auto simp: tree_append_def)
  next
    case up
    then have c: "\<not> is_leaf other \<or> node_items other \<noteq> Some []" by (cases other) auto
    obtain u res where a: "append_large S self other = Some (u, res)"
      "forest S (height other) (tree_items self @ tree_items other) (option_list res @ [u])"
      using wp_append_large [OF assms(2) up(1) assms(3) up(2)] up(3) by (auto simp: wp_iff)
    then have "solid k v" if "v \<in> set (option_list res @ [u])" for v
    proof -
      have "height v = height other" using that a(2) unfolding forest_def by blast
      with assms(5) show ?thesis by (intro solid_low) simp
    qed
    with a assms(1,5) up c solid_below_low [of u k 2] show ?thesis
      by (cases res) (auto simp: tree_append_def option_list_def forest_Cons from_child_trees_def Let_def
        split: if_splits)
  next
    case down
    then have c: "\<not> is_leaf other \<or> node_items other \<noteq> Some []" by (cases other) auto
    obtain u res where a: "push_tree_recursive S self other = Some (u, res)"
      using wp_push_tree_recursive [OF assms(2) down(1) assms(3) down(2,3)] by (auto simp: wp_iff)
    with push_tree_recursive_solid [OF a assms(5,4,2)] assms(1) down c show ?thesis
      by (cases res) (auto simp: tree_append_def from_child_trees_def Let_def solid_below_base split: if_splits)
  qed
qed

lemma wp_append_grown:
  assumes "grown S k xs self" "tree_ok S other" "height other \<le> k" "k \<le> 200" "length xs < 2 ^ 64"
  shows "wp (tree_append S self other) (grown S k (xs @ tree_items other))"
proof -
  have self: "tree_ok S self" "tree_items self = xs" "solid_below 2 k self" using assms(1) by (auto simp: grown_def)
  have h: "height self < 255" "height other < 255" using grown_height [OF assms(1,5)] assms(3,4) by auto
  from wp_tree_append [OF self(1) assms(2) h] obtain t where t: "tree_append S self other = Some t" "tree_ok S t"
      "tree_items t = xs @ tree_items other" using self(2) by (auto simp: wp_iff)
  with append_solid [OF t(1) self(1) assms(2) self(3) assms(3)] show ?thesis by (simp add: grown_def)
qed

end

section \<open>What the operations do on the list of the items\<close>

text \<open>The summaries of a map keyed by numbers, for the concrete instances below: the summary is the
  last key.\<close>

definition last_key :: "(nat, nat option) summaries" where
  "last_key = \<lparr>sm_zero = None, sm_add = (\<lambda>a b. b), sm_item = Some\<rparr>"

interpretation last_key: summary_laws last_key
  by unfold_locales (simp_all add: last_key_def)

text \<open>C26. Appending never panics: whatever the heights of the two trees, the result is a well-formed
  tree (all leaves at one depth, no node over its capacity, no empty child, every cached summary the
  sum of the items below it) that holds the items of the first tree followed by those of the second
  and is at most one level higher than the higher of the two.\<close>

theorem append_concatenates:
  assumes "summary_laws S" "tree_ok S self" "tree_ok S other" "height self < 255" "height other < 255"
  shows "\<exists>t. tree_append S self other = Some t \<and> tree_ok S t \<and>
    tree_items t = tree_items self @ tree_items other \<and> summary t = total S (tree_items self @ tree_items other) \<and>
    height t \<le> Suc (max (height self) (height other))"
proof -
  obtain t where "tree_append S self other = Some t" "tree_ok S t"
      "tree_items t = tree_items self @ tree_items other" "height t \<le> Suc (max (height self) (height other))"
    using summary_laws.wp_tree_append [OF assms] by (auto simp: wp_iff)
  with summary_laws.summary_total [OF assms(1), of t] show ?thesis by auto
qed

definition small_tree :: "(nat, nat option) node" where
  "small_tree = leaf_of last_key [1, 2, 3]"

definition large_tree :: "(nat, nat option) node" where
  "large_tree = parent_of last_key 1 (map (leaf_of last_key) (chunks 12 [4..<40]))"

lemma tree_examples: "tree_ok last_key small_tree" "tree_ok last_key large_tree"
    "height small_tree = 0" "height large_tree = 1" "tree_items small_tree = [1, 2, 3]" "tree_items large_tree = [4..<40]"
  by code_simp+

theorem append_concatenates_witness:
  "\<exists>t. tree_append last_key small_tree large_tree = Some t \<and> tree_items t = [1..<40] \<and> summary t = Some 39"
proof -
  have "[1, 2, 3] @ [4..<40] = [1..<40 :: nat]" "total last_key [1..<40] = Some 39" by code_simp+
  then show ?thesis
    using append_concatenates [OF last_key.summary_laws_axioms, of small_tree large_tree] tree_examples by auto
qed

text \<open>Building a tree from an iterator gives a well-formed tree with its items in order, of height at
  most 18 for any number of items a 64-bit machine can hold, and the parallel construction builds
  exactly the same tree.\<close>

lemma from_iter_builds:
  assumes "summary_laws S"
  shows "from_par_iter S xs = from_iter S xs \<and>
    (length xs < 2 ^ 64 \<longrightarrow> (\<exists>t. from_iter S xs = Some t \<and> tree_ok S t \<and> tree_items t = xs \<and> height t \<le> 18))"
  using summary_laws.wp_from_iter [OF assms, of xs]
  by (auto simp: from_par_iter_def from_iter_def summary_laws.build_par_eq [OF assms] wp_iff)

lemma from_iter_builds_witness:
  "\<exists>t. from_iter last_key [1..<40] = Some t \<and> tree_items t = [1..<40]"
  using from_iter_builds [OF last_key.summary_laws_axioms, of "[1..<40]"] by auto

text \<open>The first and last item are those of the list, and updating them changes that item of the
  list only, with the summaries recomputed; an empty tree is left alone.\<close>

lemma ends_of_tree:
  assumes "summary_laws S" "tree_ok S t"
  shows "tree_first t = Some (first_opt (tree_items t)) \<and> tree_last t = Some (last_opt (tree_items t)) \<and>
    (\<exists>t'. update_last S f t = Some t' \<and> tree_ok S t' \<and>
       tree_items t' = (if tree_items t = [] then [] else butlast (tree_items t) @ [f (last (tree_items t))])) \<and>
    (\<exists>t'. update_first S f t = Some t' \<and> tree_ok S t' \<and>
       tree_items t' = (if tree_items t = [] then [] else f (hd (tree_items t)) # tl (tree_items t)))"
proof (cases "is_empty t")
  case True
  then obtain s iss where "t = Leaf s [] iss" by (cases t) auto
  then show ?thesis
    using assms(2) by (auto simp: tree_first_def tree_last_def first_opt_def last_opt_def update_last_def update_first_def)
next
  case False
  then show ?thesis
    using assms tree_items_nonempty [OF assms(2) False] summary_laws.wp_update_last [OF assms False, of f]
      summary_laws.wp_update_first [OF assms False, of f]
    by (auto simp: summary_laws.tree_first_eq summary_laws.tree_last_eq update_last_def update_first_def wp_iff forest_Cons)
qed

lemma ends_of_tree_witness: "tree_last large_tree = Some (Some 39)"
  using ends_of_tree [OF last_key.summary_laws_axioms tree_examples(2)] tree_examples(6) by (simp add: last_opt_def)

end
