(* ===== verification/SumTreeCursor.thy ===== *)
theory SumTreeCursor
  imports SumTree
begin

text \<open>
  Searching and cutting a sum tree: \<open>find\<close>, \<open>find_exact\<close> and \<open>find_with_prev\<close> of
  \<open>crates/sum_tree/src/sum_tree.rs\<close>, and the cursor of \<open>crates/sum_tree/src/cursor.rs\<close> with its
  stack of nodes, \<open>seek\<close>, \<open>slice\<close>, \<open>suffix\<close> and \<open>next\<close>.

  A \<open>Dimension\<close> is a zero and an addition of summaries; a \<open>SeekTarget\<close> is the comparison of the
  target with a position. What the searches mean is said on the list of the items: \<open>ends\<close> are the
  positions after each item, and the comparisons along them have to fall from \<open>Greater\<close> over
  \<open>Equal\<close> to \<open>Less\<close>.
\<close>

section \<open>Dimensions, targets and the searches\<close>

datatype ordering = Less | Equal | Greater

datatype bias = BiasLeft | BiasRight

fun bias_invert :: "bias \<Rightarrow> bias" where
  "bias_invert BiasLeft = BiasRight"
| "bias_invert BiasRight = BiasLeft"

record ('s, 'd) dimension =
  dm_zero :: 'd
  dm_add :: "'d \<Rightarrow> 's \<Rightarrow> 'd"

text \<open>The target lies past a position.\<close>

definition past :: "bias \<Rightarrow> ordering \<Rightarrow> bool" where
  "past b c = (c = Greater \<or> c = Equal \<and> b = BiasRight)"

definition entry_found :: "bool \<Rightarrow> bias \<Rightarrow> ordering \<Rightarrow> bool" where
  "entry_found exact b c = (if exact then c = Equal else c = Less \<or> c = Equal \<and> b = BiasLeft)"

fun find_items ::
  "bool \<Rightarrow> ('s, 'd) dimension \<Rightarrow> ('d \<Rightarrow> ordering) \<Rightarrow> bias \<Rightarrow> 'd \<Rightarrow> ('a \<times> 's) list \<Rightarrow> 'd \<times> ('a \<times> 'd) option" where
  "find_items exact D cmp b pos [] = (pos, None)"
| "find_items exact D cmp b pos ((item, s) # rest) =
     (let child_end = dm_add D pos s in
      if entry_found exact b (cmp child_end) then (pos, Some (item, child_end))
      else find_items exact D cmp b child_end rest)"

fun find_iterate ::
    "bool \<Rightarrow> ('s, 'd) dimension \<Rightarrow> ('d \<Rightarrow> ordering) \<Rightarrow> bias \<Rightarrow> 'd \<Rightarrow> ('a, 's) node \<Rightarrow> 'd \<times> ('a \<times> 'd) option"
  and find_children ::
    "bool \<Rightarrow> ('s, 'd) dimension \<Rightarrow> ('d \<Rightarrow> ordering) \<Rightarrow> bias \<Rightarrow> 'd \<Rightarrow> ('a, 's) node list \<Rightarrow> 's list \<Rightarrow> 'd \<times> ('a \<times> 'd) option" where
  "find_iterate exact D cmp b pos (Internal _ _ css cts) = find_children exact D cmp b pos cts css"
| "find_iterate exact D cmp b pos (Leaf _ is iss) = find_items exact D cmp b pos (zip is iss)"
| "find_children exact D cmp b pos (t # ts) (s # ss) =
     (let child_end = dm_add D pos s in
      if cmp child_end = Less \<or> cmp child_end = Equal \<and> b = BiasLeft then find_iterate exact D cmp b pos t
      else find_children exact D cmp b child_end ts ss)"
| "find_children exact D cmp b pos _ _ = (pos, None)"

definition find_tree ::
  "bool \<Rightarrow> ('s, 'd) dimension \<Rightarrow> ('d \<Rightarrow> ordering) \<Rightarrow> bias \<Rightarrow> ('a, 's) node \<Rightarrow> 'd \<times> 'd \<times> 'a option" where
  "find_tree exact D cmp b t =
     (let tree_end = dm_add D (dm_zero D) (summary t) in
      if cmp tree_end = Greater \<or> cmp tree_end = Equal \<and> b = BiasRight then (tree_end, tree_end, None)
      else case find_iterate exact D cmp b (dm_zero D) t of
          (pos, Some (item, e)) \<Rightarrow> (pos, e, Some item)
        | (pos, None) \<Rightarrow> (pos, pos, None))"

abbreviation tree_find where "tree_find \<equiv> find_tree False"

abbreviation find_exact where "find_exact \<equiv> find_tree True"

text \<open>\<open>find_with_prev_iterate\<close> also keeps the item before.\<close>

fun find_items_prev ::
  "('s, 'd) dimension \<Rightarrow> ('d \<Rightarrow> ordering) \<Rightarrow> bias \<Rightarrow> 'a option \<Rightarrow> 'd \<Rightarrow> ('a \<times> 's) list \<Rightarrow> 'd \<times> ('a option \<times> 'a \<times> 'd) option" where
  "find_items_prev D cmp b prev pos [] = (pos, None)"
| "find_items_prev D cmp b prev pos ((item, s) # rest) =
     (let child_end = dm_add D pos s in
      if entry_found False b (cmp child_end) then (pos, Some (prev, item, child_end))
      else find_items_prev D cmp b (Some item) child_end rest)"

fun find_with_prev_iterate ::
    "('s, 'd) dimension \<Rightarrow> ('d \<Rightarrow> ordering) \<Rightarrow> bias \<Rightarrow> 'a option \<Rightarrow> 'd \<Rightarrow> ('a, 's) node \<Rightarrow> ('d \<times> ('a option \<times> 'a \<times> 'd) option) option"
  and find_children_prev ::
    "('s, 'd) dimension \<Rightarrow> ('d \<Rightarrow> ordering) \<Rightarrow> bias \<Rightarrow> 'a option \<Rightarrow> 'd \<Rightarrow> ('a, 's) node list \<Rightarrow> 's list \<Rightarrow>
       ('d \<times> ('a option \<times> 'a \<times> 'd) option) option" where
  "find_with_prev_iterate D cmp b prev pos (Internal _ _ css cts) = find_children_prev D cmp b prev pos cts css"
| "find_with_prev_iterate D cmp b prev pos (Leaf _ is iss) = Some (find_items_prev D cmp b prev pos (zip is iss))"
| "find_children_prev D cmp b prev pos (t # ts) (s # ss) =
     (let child_end = dm_add D pos s in
      if cmp child_end = Less \<or> cmp child_end = Equal \<and> b = BiasLeft then find_with_prev_iterate D cmp b prev pos t
      else Option.bind (tree_last t) (\<lambda>prev. find_children_prev D cmp b prev child_end ts ss))"
| "find_children_prev D cmp b prev pos _ _ = Some (pos, None)"

definition find_with_prev ::
  "('s, 'd) dimension \<Rightarrow> ('d \<Rightarrow> ordering) \<Rightarrow> bias \<Rightarrow> ('a, 's) node \<Rightarrow> ('d \<times> 'd \<times> ('a option \<times> 'a) option) option" where
  "find_with_prev D cmp b t =
     (let tree_end = dm_add D (dm_zero D) (summary t) in
      if cmp tree_end = Greater \<or> cmp tree_end = Equal \<and> b = BiasRight then Some (tree_end, tree_end, None)
      else map_option (\<lambda>r. case r of
          (pos, Some (prev, item, e)) \<Rightarrow> (pos, e, Some (prev, item))
        | (pos, None) \<Rightarrow> (pos, pos, None)) (find_with_prev_iterate D cmp b None (dm_zero D) t))"

section \<open>The cursor\<close>

record ('a, 's, 'd) stack_entry =
  en_tree :: "('a, 's) node"
  en_index :: nat
  en_position :: 'd

text \<open>The stack has room for sixteen entries; the top is the head of the list.\<close>

record ('a, 's, 'd) cursor =
  cu_tree :: "('a, 's) node"
  cu_stack :: "('a, 's, 'd) stack_entry list"
  cu_position :: 'd
  cu_did_seek :: bool
  cu_at_end :: bool

definition push_entry :: "('a, 's, 'd) stack_entry \<Rightarrow> ('a, 's, 'd) stack_entry list \<Rightarrow> ('a, 's, 'd) stack_entry list option" where
  "push_entry e st = (if length st < 16 then Some (e # st) else None)"

definition cursor_new :: "('s, 'd) dimension \<Rightarrow> ('a, 's) node \<Rightarrow> ('a, 's, 'd) cursor" where
  "cursor_new D t = \<lparr>cu_tree = t, cu_stack = [], cu_position = dm_zero D, cu_did_seek = False, cu_at_end = is_empty t\<rparr>"

definition cursor_reset :: "('s, 'd) dimension \<Rightarrow> ('a, 's, 'd) cursor \<Rightarrow> ('a, 's, 'd) cursor" where
  "cursor_reset D c = c\<lparr>cu_did_seek := False, cu_at_end := is_empty (cu_tree c), cu_stack := [], cu_position := dm_zero D\<rparr>"

text \<open>The outer option is a panic: asking before the first seek, or with an inner node on top.\<close>

definition cursor_item :: "('a, 's, 'd) cursor \<Rightarrow> 'a option option" where
  "cursor_item c = (if \<not> cu_did_seek c then None
     else case cu_stack c of [] \<Rightarrow> Some None
     | e # _ \<Rightarrow> (case en_tree e of
           Leaf _ is _ \<Rightarrow> if en_index e = length is then Some None
             else if en_index e < length is then Some (Some (is ! en_index e)) else None
         | Internal _ _ _ _ \<Rightarrow> None))"

definition cursor_item_summary :: "('a, 's, 'd) cursor \<Rightarrow> 's option option" where
  "cursor_item_summary c = (if \<not> cu_did_seek c then None
     else case cu_stack c of [] \<Rightarrow> Some None
     | e # _ \<Rightarrow> (case en_tree e of
           Leaf _ _ iss \<Rightarrow> if en_index e = length iss then Some None
             else if en_index e < length iss then Some (Some (iss ! en_index e)) else None
         | Internal _ _ _ _ \<Rightarrow> None))"

definition cursor_end :: "('s, 'd) dimension \<Rightarrow> ('a, 's, 'd) cursor \<Rightarrow> 'd option" where
  "cursor_end D c = map_option (\<lambda>s. case s of
       Some s \<Rightarrow> dm_add D (cu_position c) s
     | None \<Rightarrow> cu_position c) (cursor_item_summary c)"

text \<open>A \<open>SeekAggregate\<close>: what becomes of the items and trees a seek passes.\<close>

record ('a, 's, 'g) aggregate =
  ag_end_leaf :: "'g \<Rightarrow> 'g option"
  ag_push_item :: "'a \<Rightarrow> 's \<Rightarrow> 'g \<Rightarrow> 'g option"
  ag_push_tree :: "('a, 's) node \<Rightarrow> 's \<Rightarrow> 'g \<Rightarrow> 'g option"

text \<open>The loops over the children and over the items of the top entry: the aggregate, the position and
  the index after what was passed, and what stopped it.\<close>

fun seek_children ::
  "('s, 'd) dimension \<Rightarrow> ('d \<Rightarrow> ordering) \<Rightarrow> bias \<Rightarrow> ('a, 's, 'g) aggregate \<Rightarrow> 'g \<Rightarrow> 'd \<Rightarrow> nat \<Rightarrow>
     ('a, 's) node list \<Rightarrow> 's list \<Rightarrow> ('g \<times> 'd \<times> nat \<times> ('a, 's) node option) option" where
  "seek_children D cmp b A g pos i (t # ts) (s # ss) =
     (let child_end = dm_add D pos s in
      if past b (cmp child_end) then
        Option.bind (ag_push_tree A t s g) (\<lambda>g. seek_children D cmp b A g child_end (i + 1) ts ss)
      else Some (g, pos, i, Some t))"
| "seek_children D cmp b A g pos i _ _ = Some (g, pos, i, None)"

fun seek_items ::
  "('s, 'd) dimension \<Rightarrow> ('d \<Rightarrow> ordering) \<Rightarrow> bias \<Rightarrow> ('a, 's, 'g) aggregate \<Rightarrow> 'g \<Rightarrow> 'd \<Rightarrow> nat \<Rightarrow>
     'a list \<Rightarrow> 's list \<Rightarrow> ('g \<times> 'd \<times> nat \<times> bool) option" where
  "seek_items D cmp b A g pos i (x # xs) (s # ss) =
     (let child_end = dm_add D pos s in
      if past b (cmp child_end) then
        Option.bind (ag_push_item A x s g) (\<lambda>g. seek_items D cmp b A g child_end (i + 1) xs ss)
      else Some (g, pos, i, True))"
| "seek_items D cmp b A g pos i _ _ = Some (g, pos, i, False)"

text \<open>The weight of what a stack has left, which every turn of the loop lowers.\<close>

fun node_weight :: "('a, 's) node \<Rightarrow> nat" where
  "node_weight (Leaf _ _ _) = 2"
| "node_weight (Internal _ _ _ cts) = 2 + sum_list (map node_weight cts)"

fun children_of :: "('a, 's) node \<Rightarrow> ('a, 's) node list" where
  "children_of (Internal _ _ _ cts) = cts"
| "children_of (Leaf _ _ _) = []"

definition entry_weight :: "('a, 's, 'd) stack_entry \<Rightarrow> nat \<Rightarrow> nat" where
  "entry_weight e i = 1 + sum_list (map node_weight (drop i (children_of (en_tree e))))"

fun stack_weight :: "bool \<Rightarrow> ('a, 's, 'd) stack_entry list \<Rightarrow> nat" where
  "stack_weight ascending [] = 0"
| "stack_weight ascending (e # st) =
     entry_weight e (if ascending then en_index e + 1 else en_index e) + stack_weight True st"

lemma node_weight_entry: "node_weight t = 1 + entry_weight \<lparr>en_tree = t, en_index = 0, en_position = p\<rparr> 0"
  by (cases t) (simp_all add: entry_weight_def)

lemma seek_children_stop:
  "seek_children D cmp b A g pos i ts ss = Some (g', pos', j, Some t) \<Longrightarrow>
     i \<le> j \<and> j - i < length ts \<and> ts ! (j - i) = t"
proof (induction D cmp b A g pos i ts ss rule: seek_children.induct)
  case (1 D cmp b A g pos i t ts s ss)
  then show ?case
    by (fastforce simp: Let_def bind_eq_Some_conv nth_Cons' split: if_splits)
qed simp_all

lemma entry_weight_child:
  assumes "seek_children D cmp b A g pos i (drop i cts) ss = Some (g', pos', j, Some t)"
  shows "sum_list (map node_weight (drop i cts)) \<ge> node_weight t + sum_list (map node_weight (drop (j + 1) cts))"
proof -
  have j: "i \<le> j" "j - i < length (drop i cts)" "drop i cts ! (j - i) = t"
    using seek_children_stop [OF assms] by auto
  then have "j < length cts" "cts ! j = t" by auto
  then have "drop j cts = t # drop (Suc j) cts" using Cons_nth_drop_Suc [of j cts] by simp
  moreover have "drop i cts = take (j - i) (drop i cts) @ drop j cts" using j append_take_drop_id [of "j - i" "drop i cts"] by simp
  ultimately show ?thesis by (metis Suc_eq_plus1 le_add2 list.simps(9) map_append sum_list.Cons sum_list.append)
qed

text \<open>The loop of \<open>seek_internal\<close>.\<close>

function seek_loop ::
  "('s, 'd) dimension \<Rightarrow> ('d \<Rightarrow> ordering) \<Rightarrow> bias \<Rightarrow> ('a, 's, 'g) aggregate \<Rightarrow> bool \<Rightarrow>
     ('a, 's, 'd) stack_entry list \<Rightarrow> 'd \<Rightarrow> 'g \<Rightarrow> (('a, 's, 'd) stack_entry list \<times> 'd \<times> 'g) option" where
  "seek_loop D cmp b A ascending [] pos g = Some ([], pos, g)"
| "seek_loop D cmp b A ascending (e # st) pos g = (case en_tree e of
     Internal _ _ css cts \<Rightarrow>
       (let i = (if ascending then en_index e + 1 else en_index e) in
        if i > length cts \<or> i > length css then None
        else case seek_children D cmp b A g pos i (drop i cts) (drop i css) of
          None \<Rightarrow> None
        | Some (g, pos', j, stop) \<Rightarrow>
            (let e = e\<lparr>en_index := j, en_position := if ascending \<or> j > i then pos' else en_position e\<rparr> in
             case stop of
               None \<Rightarrow> seek_loop D cmp b A True st pos' g
             | Some t \<Rightarrow>
                 if length (e # st) < 16
                 then seek_loop D cmp b A False (\<lparr>en_tree = t, en_index = 0, en_position = pos'\<rparr> # e # st) pos' g
                 else None))
   | Leaf _ is iss \<Rightarrow>
       (let i = en_index e in
        if i > length is \<or> i > length iss then None
        else case seek_items D cmp b A g pos i (drop i is) (drop i iss) of
          None \<Rightarrow> None
        | Some (g, pos', j, stopped) \<Rightarrow>
            (case ag_end_leaf A g of
               None \<Rightarrow> None
             | Some g \<Rightarrow>
                 if stopped then Some (e\<lparr>en_index := j\<rparr> # st, pos', g)
                 else seek_loop D cmp b A True st pos' g)))"
  by pat_completeness auto
termination
proof (relation "measure (\<lambda>(D, cmp, b, A, ascending, st, pos, g). stack_weight ascending st)", goal_cases)
  case 1
  then show ?case by simp
next
  case (2 D cmp b A ascending e st pos g h s css cts i r g' r' pos' r'' j stop e')
  then show ?case by (simp add: entry_weight_def)
next
  case (3 D cmp b A ascending e st pos g h s css cts i r g' r' pos' r'' j stop e' t)
  then have "sum_list (map node_weight (drop i cts)) \<ge> node_weight t + sum_list (map node_weight (drop (j + 1) cts))"
    by (intro entry_weight_child [where ss = "drop i css"]) auto
  with 3 node_weight_entry [of t pos'] show ?case by (auto simp: entry_weight_def)
next
  case (4 D cmp b A ascending e st pos g s "is" iss i r g' r' pos' r'' j stopped g'')
  then show ?case by (simp add: entry_weight_def)
qed

definition seek_internal ::
  "('s, 'd) dimension \<Rightarrow> ('d \<Rightarrow> ordering) \<Rightarrow> bias \<Rightarrow> ('a, 's, 'g) aggregate \<Rightarrow> ('a, 's, 'd) cursor \<Rightarrow> 'g \<Rightarrow>
     (('a, 's, 'd) cursor \<times> bool \<times> 'g) option" where
  "seek_internal D cmp b A c g =
     (if cmp (cu_position c) = Less then None
      else
        Option.bind (if cu_did_seek c then Some (cu_stack c)
            else push_entry \<lparr>en_tree = cu_tree c, en_index = 0, en_position = dm_zero D\<rparr> (cu_stack c)) (\<lambda>st.
        Option.bind (seek_loop D cmp b A False st (cu_position c) g) (\<lambda>(st, pos, g).
        let c = c\<lparr>cu_did_seek := True, cu_stack := st, cu_position := pos, cu_at_end := (st = [])\<rparr> in
        Option.bind (if b = BiasLeft then cursor_end D c else Some pos) (\<lambda>e.
        Some (c, cmp e = Equal, g)))))"

definition no_aggregate :: "('a, 's, unit) aggregate" where
  "no_aggregate = \<lparr>ag_end_leaf = Some, ag_push_item = (\<lambda>_ _ g. Some g), ag_push_tree = (\<lambda>_ _ g. Some g)\<rparr>"

definition seek_forward ::
  "('s, 'd) dimension \<Rightarrow> ('d \<Rightarrow> ordering) \<Rightarrow> bias \<Rightarrow> ('a, 's, 'd) cursor \<Rightarrow> (('a, 's, 'd) cursor \<times> bool) option" where
  "seek_forward D cmp b c = map_option (\<lambda>(c, found, _). (c, found)) (seek_internal D cmp b no_aggregate c ())"

definition seek ::
  "('s, 'd) dimension \<Rightarrow> ('d \<Rightarrow> ordering) \<Rightarrow> bias \<Rightarrow> ('a, 's, 'd) cursor \<Rightarrow> (('a, 's, 'd) cursor \<times> bool) option" where
  "seek D cmp b c = seek_forward D cmp b (cursor_reset D c)"

record ('a, 's) slice_seek =
  sl_tree :: "('a, 's) node"
  sl_items :: "'a list"
  sl_summaries :: "'s list"
  sl_summary :: 's

definition slice_aggregate :: "('a, 's) summaries \<Rightarrow> ('a, 's, ('a, 's) slice_seek) aggregate" where
  "slice_aggregate S = \<lparr>
     ag_end_leaf = (\<lambda>g. map_option (\<lambda>t. \<lparr>sl_tree = t, sl_items = [], sl_summaries = [], sl_summary = sm_zero S\<rparr>)
       (tree_append S (sl_tree g) (Leaf (sl_summary g) (sl_items g) (sl_summaries g)))),
     ag_push_item = (\<lambda>x s g. Option.bind (array_vec (sl_items g @ [x])) (\<lambda>is.
       Option.bind (array_vec (sl_summaries g @ [s])) (\<lambda>iss.
       Some (g\<lparr>sl_items := is, sl_summaries := iss, sl_summary := sm_add S (sl_summary g) s\<rparr>)))),
     ag_push_tree = (\<lambda>t s g. map_option (\<lambda>t. g\<lparr>sl_tree := t\<rparr>) (tree_append S (sl_tree g) t))\<rparr>"

definition slice ::
  "('a, 's) summaries \<Rightarrow> ('s, 'd) dimension \<Rightarrow> ('d \<Rightarrow> ordering) \<Rightarrow> bias \<Rightarrow> ('a, 's, 'd) cursor \<Rightarrow>
     (('a, 's, 'd) cursor \<times> ('a, 's) node) option" where
  "slice S D cmp b c = map_option (\<lambda>(c, _, g). (c, sl_tree g)) (seek_internal D cmp b (slice_aggregate S) c
     \<lparr>sl_tree = tree_new S, sl_items = [], sl_summaries = [], sl_summary = sm_zero S\<rparr>)"

text \<open>The target \<open>End\<close> is past every position.\<close>

definition suffix_tree ::
  "('a, 's) summaries \<Rightarrow> ('s, 'd) dimension \<Rightarrow> ('a, 's, 'd) cursor \<Rightarrow> (('a, 's, 'd) cursor \<times> ('a, 's) node) option" where
  "suffix_tree S D c = slice S D (\<lambda>_. Greater) BiasRight c"

definition summary_aggregate :: "('s, 'o) dimension \<Rightarrow> ('a, 's, 'o) aggregate" where
  "summary_aggregate O' = \<lparr>ag_end_leaf = Some, ag_push_item = (\<lambda>_ s g. Some (dm_add O' g s)),
     ag_push_tree = (\<lambda>_ s g. Some (dm_add O' g s))\<rparr>"

definition cursor_summary ::
  "('s, 'd) dimension \<Rightarrow> ('s, 'o) dimension \<Rightarrow> ('d \<Rightarrow> ordering) \<Rightarrow> bias \<Rightarrow> ('a, 's, 'd) cursor \<Rightarrow>
     (('a, 's, 'd) cursor \<times> 'o) option" where
  "cursor_summary D O' cmp b c = map_option (\<lambda>(c, _, g). (c, g))
     (seek_internal D cmp b (summary_aggregate O') c (dm_zero O'))"

text \<open>\<open>search_forward\<close>: on to the next item all of whose summaries, from the root down, satisfy the filter.\<close>

fun skip_children :: "('s, 'd) dimension \<Rightarrow> ('s \<Rightarrow> bool) \<Rightarrow> 'd \<Rightarrow> nat \<Rightarrow> 's list \<Rightarrow> 'd \<times> nat" where
  "skip_children D filter_node pos i [] = (pos, i)"
| "skip_children D filter_node pos i (s # ss) =
     (if filter_node s then (pos, i) else skip_children D filter_node (dm_add D pos s) (i + 1) ss)"

lemma skip_children_le: "skip_children D filter_node pos i ss = (pos', j) \<Longrightarrow> i \<le> j"
  by (induction ss arbitrary: pos i) (auto split: if_splits dest: Suc_leD)

lemma drop_weight: "i \<le> j \<Longrightarrow> j < length cts \<Longrightarrow>
    node_weight (cts ! j) + sum_list (map node_weight (drop (j + 1) cts)) \<le> sum_list (map node_weight (drop i cts))"
proof (induction i arbitrary: j cts)
  case 0
  then have "cts = take j cts @ cts ! j # drop (Suc j) cts" by (simp add: id_take_nth_drop)
  then have "map node_weight cts = map node_weight (take j cts) @ node_weight (cts ! j) # map node_weight (drop (Suc j) cts)"
    by (metis list.simps(9) map_append)
  then show ?case by simp
next
  case (Suc i)
  then show ?case by (cases cts; cases j) auto
qed

function search_loop ::
  "('s, 'd) dimension \<Rightarrow> ('s \<Rightarrow> bool) \<Rightarrow> bool \<Rightarrow> ('a, 's, 'd) stack_entry list \<Rightarrow> 'd \<Rightarrow>
     (('a, 's, 'd) stack_entry list \<times> 'd) option" where
  "search_loop D filter_node descend [] pos = Some ([], pos)"
| "search_loop D filter_node descend (e # st) pos = (case en_tree e of
     Internal _ _ css cts \<Rightarrow>
       (let i = (if descend then en_index e else en_index e + 1);
            (pos', j) = skip_children D filter_node pos i (drop i css);
            epos = fst (skip_children D filter_node (if descend then en_position e else pos) i (drop i css));
            e = e\<lparr>en_index := j, en_position := epos\<rparr> in
        case nth_opt cts j of
          Some t \<Rightarrow>
            if length (e # st) < 16
            then search_loop D filter_node True (\<lparr>en_tree = t, en_index = 0, en_position = pos'\<rparr> # e # st) pos'
            else None
        | None \<Rightarrow> search_loop D filter_node False st pos')
   | Leaf _ _ iss \<Rightarrow>
       (if \<not> descend \<and> en_index e \<ge> length iss then None
        else
          let i = (if descend then en_index e else en_index e + 1);
              step = (\<lambda>p. if descend then p else dm_add D p (iss ! en_index e));
              (pos', j) = skip_children D filter_node (step pos) i (drop i iss);
              epos = fst (skip_children D filter_node (step (en_position e)) i (drop i iss)) in
          if j < length iss then Some (e\<lparr>en_index := j, en_position := epos\<rparr> # st, pos')
          else search_loop D filter_node False st pos'))"
  by pat_completeness auto
termination
proof (relation "measure (\<lambda>(D, f, descend, st, pos). stack_weight (\<not> descend) st)", goal_cases)
  case 1
  then show ?case by simp
next
  case (2 D f descend e st pos h s css cts i r pos' j epos e')
  then show ?case by (simp add: entry_weight_def)
next
  case (3 D f descend e st pos h s css cts i r pos' j epos e' t)
  then have "i \<le> j" "j < length cts" "t = cts ! j" using skip_children_le [of D f pos i "drop i css" pos' j] by auto
  from drop_weight [OF this(1,2)] 3 node_weight_entry [of t pos'] \<open>t = cts ! j\<close> show ?case
    by (auto simp: entry_weight_def)
next
  case 4
  then show ?case by (simp add: entry_weight_def)
qed

definition search_forward ::
  "('s, 'd) dimension \<Rightarrow> ('s \<Rightarrow> bool) \<Rightarrow> ('a, 's, 'd) cursor \<Rightarrow> ('a, 's, 'd) cursor option" where
  "search_forward D filter_node c =
     (let root = \<lparr>en_tree = cu_tree c, en_index = 0, en_position = dm_zero D\<rparr>;
          fresh = (cu_stack c = []);
          descend = (fresh \<and> \<not> cu_at_end c) in
      Option.bind (if descend then push_entry root (cu_stack c) else Some (cu_stack c)) (\<lambda>st.
      Option.bind (search_loop D filter_node descend st (cu_position c)) (\<lambda>(st, pos).
      Some (c\<lparr>cu_did_seek := (cu_did_seek c \<or> fresh), cu_stack := st, cu_position := pos,
        cu_at_end := (if st = [] then True else cu_at_end c)\<rparr>))))"

definition cursor_next :: "('s, 'd) dimension \<Rightarrow> ('a, 's, 'd) cursor \<Rightarrow> ('a, 's, 'd) cursor option" where
  "cursor_next D c = search_forward D (\<lambda>_. True) c"

text \<open>The cursor as an iterator: the item it stands at, and the cursor behind it.\<close>

definition cursor_iter ::
  "('s, 'd) dimension \<Rightarrow> ('a, 's, 'd) cursor \<Rightarrow> (('a, 's, 'd) cursor \<times> 'a option) option" where
  "cursor_iter D c = Option.bind (if cu_did_seek c then Some c else cursor_next D c) (\<lambda>c.
     Option.bind (cursor_item c) (\<lambda>item. case item of
       Some x \<Rightarrow> map_option (\<lambda>c. (c, Some x)) (cursor_next D c)
     | None \<Rightarrow> Some (c, None)))"

section \<open>Positions along a list of items\<close>

definition after :: "('a, 's) summaries \<Rightarrow> ('s, 'd) dimension \<Rightarrow> 'd \<Rightarrow> 'a list \<Rightarrow> 'd" where
  "after S D pos xs = foldl (\<lambda>d x. dm_add D d (sm_item S x)) pos xs"

fun ends :: "('a, 's) summaries \<Rightarrow> ('s, 'd) dimension \<Rightarrow> 'd \<Rightarrow> 'a list \<Rightarrow> 'd list" where
  "ends S D pos [] = []"
| "ends S D pos (x # xs) = dm_add D pos (sm_item S x) # ends S D (dm_add D pos (sm_item S x)) xs"

fun rank :: "ordering \<Rightarrow> nat" where
  "rank Less = 0" | "rank Equal = 1" | "rank Greater = 2"

definition falling :: "('d \<Rightarrow> ordering) \<Rightarrow> 'd list \<Rightarrow> bool" where
  "falling cmp ds = sorted_wrt (\<lambda>d e. rank (cmp e) \<le> rank (cmp d)) ds"

text \<open>Where a seek stops: the items it passes and the rest.\<close>

fun seek_split ::
  "('a, 's) summaries \<Rightarrow> ('s, 'd) dimension \<Rightarrow> ('d \<Rightarrow> ordering) \<Rightarrow> bias \<Rightarrow> 'd \<Rightarrow> 'a list \<Rightarrow> 'a list \<times> 'a list" where
  "seek_split S D cmp b pos [] = ([], [])"
| "seek_split S D cmp b pos (x # xs) =
     (let e = dm_add D pos (sm_item S x) in
      if past b (cmp e) then let (ys, zs) = seek_split S D cmp b e xs in (x # ys, zs)
      else ([], x # xs))"

lemma after_simps [simp]:
  "after S D pos [] = pos" "after S D pos (x # xs) = after S D (dm_add D pos (sm_item S x)) xs"
  "after S D pos (xs @ ys) = after S D (after S D pos xs) ys"
  by (simp_all add: after_def)

lemma ends_append [simp]: "ends S D pos (xs @ ys) = ends S D pos xs @ ends S D (after S D pos xs) ys"
  by (induction xs arbitrary: pos) simp_all

lemma ends_last: "xs \<noteq> [] \<Longrightarrow> ends S D pos xs \<noteq> [] \<and> last (ends S D pos xs) = after S D pos xs"
  by (cases xs rule: rev_cases) simp_all

lemma falling_append:
  "falling cmp (ds @ es) \<longleftrightarrow> falling cmp ds \<and> falling cmp es \<and> (\<forall>d\<in>set ds. \<forall>e\<in>set es. rank (cmp e) \<le> rank (cmp d))"
  by (auto simp: falling_def sorted_wrt_append)

lemma past_rank: "past b c \<Longrightarrow> rank c \<le> rank c' \<Longrightarrow> past b c'"
  by (cases c; cases c') (auto simp: past_def)

lemma falling_past:
  assumes "falling cmp (ends S D pos xs)" "xs \<noteq> []" "past b (cmp (after S D pos xs))"
  shows "\<forall>d\<in>set (ends S D pos xs). past b (cmp d)"
proof -
  let ?ds = "ends S D pos xs"
  have l: "?ds = butlast ?ds @ [after S D pos xs]" using ends_last [OF assms(2)] by (metis append_butlast_last_id)
  then have "falling cmp (butlast ?ds @ [after S D pos xs])" using assms(1) by metis
  then have "\<forall>d\<in>set (butlast ?ds). past b (cmp d)"
    using assms(3) past_rank by (auto simp: falling_append)
  with l assms(3) show ?thesis by (metis in_set_conv_decomp_last insert_iff list.set(2) rotate1.simps(2) set_rotate1)
qed

lemma seek_split_append: "seek_split S D cmp b pos xs = (ys, zs) \<Longrightarrow> xs = ys @ zs"
  by (induction xs arbitrary: pos ys zs) (auto simp: Let_def split: if_splits prod.splits)

lemma seek_split_all:
  "(\<forall>d\<in>set (ends S D pos xs). past b (cmp d)) \<Longrightarrow> seek_split S D cmp b pos (xs @ ys) =
     (xs @ fst (seek_split S D cmp b (after S D pos xs) ys), snd (seek_split S D cmp b (after S D pos xs) ys))"
  by (induction xs arbitrary: pos) (auto simp: Let_def split: prod.splits)

lemma seek_split_stop:
  "seek_split S D cmp b pos xs = (as, bs) \<Longrightarrow> bs \<noteq> [] \<Longrightarrow> seek_split S D cmp b pos (xs @ ys) = (as, bs @ ys)"
  by (induction xs arbitrary: pos as bs) (auto simp: Let_def split: if_splits prod.splits)

lemma seek_split_none:
  "seek_split S D cmp b pos xs = (as, []) \<Longrightarrow> as = xs \<and> (\<forall>d\<in>set (ends S D pos xs). past b (cmp d))"
  by (induction xs arbitrary: pos as) (auto simp: Let_def split: if_splits prod.splits)

locale dimension_laws = summary_laws S for S :: "('a, 's) summaries" +
  fixes D :: "('s, 'd) dimension"
  assumes dim_add: "dm_add D d (sm_add S a b) = dm_add D (dm_add D d a) b"
    and dim_zero: "dm_add D (dm_zero D) (sm_zero S) = dm_zero D"
begin

lemma dim_total: "xs \<noteq> [] \<Longrightarrow> dm_add D d (total S xs) = after S D d xs"
proof (induction xs rule: rev_induct)
  case (snoc x xs)
  have "total S [x] = sm_item S x" by (simp add: total_def)
  with snoc show ?case by (cases "xs = []") (simp_all add: total_append dim_add)
qed simp

lemma dim_tree: "tree_ok S t \<Longrightarrow> \<not> is_empty t \<Longrightarrow> dm_add D d (summary t) = after S D d (tree_items t)"
  by (simp add: summary_total dim_total tree_items_nonempty)

end

section \<open>What a stack has left\<close>

definition items_from :: "('a, 's, 'd) stack_entry \<Rightarrow> nat \<Rightarrow> 'a list" where
  "items_from e i = (case en_tree e of
     Internal _ _ _ cts \<Rightarrow> concat (map tree_items (drop i cts))
   | Leaf _ is _ \<Rightarrow> drop i is)"

fun remaining :: "bool \<Rightarrow> ('a, 's, 'd) stack_entry list \<Rightarrow> 'a list" where
  "remaining ascending [] = []"
| "remaining ascending (e # st) =
     items_from e (if ascending then en_index e + 1 else en_index e) @ remaining True st"

fun stack_ok :: "('a, 's) summaries \<Rightarrow> bool \<Rightarrow> ('a, 's, 'd) stack_entry list \<Rightarrow> bool" where
  "stack_ok S ascending [] = True"
| "stack_ok S ascending (e # st) =
     (tree_ok S (en_tree e) \<and> length st + height (en_tree e) \<le> 15 \<and>
      (if ascending then \<not> is_leaf (en_tree e) \<and> en_index e < length (child_summaries (en_tree e))
       else en_index e \<le> length (child_summaries (en_tree e))) \<and>
      stack_ok S True st)"

text \<open>The top of the stack is a leaf, at one of its items.\<close>

definition at_item :: "('a, 's, 'd) stack_entry list \<Rightarrow> bool" where
  "at_item st = (case st of [] \<Rightarrow> True
     | e # _ \<Rightarrow> is_leaf (en_tree e) \<and> en_index e < length (child_summaries (en_tree e)))"

lemma at_item_remaining: "at_item st \<Longrightarrow> stack_ok S False st \<Longrightarrow> remaining False st = [] \<longleftrightarrow> st = []"
  by (cases st) (auto simp: at_item_def items_from_def split: node.splits)

text \<open>What a seek needs of an aggregate: \<open>I\<close> says what it has collected between nodes, \<open>J\<close> what it
  has collected before and inside a leaf. All lists are shorter than the address space.\<close>

locale aggregate_laws = dimension_laws S D for S :: "('a, 's) summaries" and D :: "('s, 'd) dimension" +
  fixes A :: "('a, 's, 'g) aggregate" and I :: "'a list \<Rightarrow> 'g \<Rightarrow> bool" and J :: "'a list \<Rightarrow> 'a list \<Rightarrow> 'g \<Rightarrow> bool"
  assumes begin_leaf: "I ws g \<Longrightarrow> J ws [] g"
    and push_item: "J ws bs g \<Longrightarrow> length bs < 2 * TREE_BASE \<Longrightarrow> wp (ag_push_item A x (sm_item S x) g) (J ws (bs @ [x]))"
    and end_leaf: "J ws bs g \<Longrightarrow> length bs \<le> 2 * TREE_BASE \<Longrightarrow> length (ws @ bs) < 2 ^ 64 \<Longrightarrow> wp (ag_end_leaf A g) (I (ws @ bs))"
    and push_tree: "I ws g \<Longrightarrow> tree_ok S t \<Longrightarrow> \<not> is_empty t \<Longrightarrow> height t \<le> 15 \<Longrightarrow> length (ws @ tree_items t) < 2 ^ 64 \<Longrightarrow>
      wp (ag_push_tree A t (summary t) g) (I (ws @ tree_items t))"
begin

lemma wp_seek_items:
  "J ws bs g \<Longrightarrow> length bs + length xs \<le> 2 * TREE_BASE \<Longrightarrow>
   wp (seek_items D cmp b A g pos i xs (map (sm_item S) xs)) (\<lambda>(g', pos', j, stopped).
     \<exists>ys zs. seek_split S D cmp b pos xs = (ys, zs) \<and> J ws (bs @ ys) g' \<and> pos' = after S D pos ys \<and>
       j = i + length ys \<and> stopped = (zs \<noteq> []))"
proof (induction xs arbitrary: bs g pos i)
  case (Cons x xs)
  show ?case
  proof (cases "past b (cmp (dm_add D pos (sm_item S x)))")
    case True
    have "wp (ag_push_item A x (sm_item S x) g) (J ws (bs @ [x]))" using push_item Cons.prems by simp
    then obtain g' where g': "ag_push_item A x (sm_item S x) g = Some g'" "J ws (bs @ [x]) g'" by (auto simp: wp_iff)
    from Cons.IH [OF g'(2), of "dm_add D pos (sm_item S x)" "i + 1"] Cons.prems True g'(1) show ?thesis
      by (auto simp: Let_def split: prod.splits elim!: wp_mono)
  qed (use Cons.prems in \<open>simp add: Let_def\<close>)
qed simp

lemma wp_seek_children:
  assumes "I ws g" "forest S h xs ts" "h \<le> 15" "length (ws @ xs) < 2 ^ 64" "falling cmp (ends S D pos xs)"
  shows "wp (seek_children D cmp b A g pos i ts (map summary ts)) (\<lambda>(g', pos', j, stop).
     \<exists>us vs. ts = us @ vs \<and> j = i + length us \<and> (case stop of None \<Rightarrow> vs = [] | Some t \<Rightarrow> \<exists>vs'. vs = t # vs') \<and>
       pos' = after S D pos (concat (map tree_items us)) \<and> I (ws @ concat (map tree_items us)) g' \<and>
       (\<forall>d\<in>set (ends S D pos (concat (map tree_items us))). past b (cmp d)))"
  using assms
proof (induction ts arbitrary: ws g pos i xs)
  case Nil
  then show ?case by simp
next
  case (Cons t ts)
  from Cons.prems(2) obtain ys where t: "tree_ok S t" "height t = h" "\<not> is_empty t"
    and ys: "xs = tree_items t @ ys" "forest S h ys ts" by (auto simp: forest_Cons)
  let ?e = "after S D pos (tree_items t)"
  have e: "dm_add D pos (summary t) = ?e" using dim_tree t by simp
  show ?case
  proof (cases "past b (cmp ?e)")
    case False
    then show ?thesis using Cons.prems(1) e by (auto simp: Let_def intro: exI [of _ "[]"])
  next
    case True
    have "wp (ag_push_tree A t (summary t) g) (I (ws @ tree_items t))"
      using push_tree Cons.prems t ys by simp
    then obtain g' where g': "ag_push_tree A t (summary t) g = Some g'" "I (ws @ tree_items t) g'" by (auto simp: wp_iff)
    have f: "falling cmp (ends S D pos (tree_items t))" "falling cmp (ends S D ?e ys)"
      using Cons.prems(5) ys by (auto simp: falling_append)
    have p: "\<forall>d\<in>set (ends S D pos (tree_items t)). past b (cmp d)"
      using falling_past [OF f(1) _ True] tree_items_nonempty [OF t(1,3)] by blast
    have "wp (seek_children D cmp b A g' ?e (i + 1) ts (map summary ts)) (\<lambda>(g', pos', j, stop).
       \<exists>us vs. ts = us @ vs \<and> j = i + 1 + length us \<and> (case stop of None \<Rightarrow> vs = [] | Some t \<Rightarrow> \<exists>vs'. vs = t # vs') \<and>
         pos' = after S D ?e (concat (map tree_items us)) \<and> I ((ws @ tree_items t) @ concat (map tree_items us)) g' \<and>
         (\<forall>d\<in>set (ends S D ?e (concat (map tree_items us))). past b (cmp d)))"
      using Cons.prems(4) ys(1) by (intro Cons.IH [OF g'(2) ys(2) Cons.prems(3) _ f(2)]) simp
    then obtain g2 pos' stop us vs where
      r: "seek_children D cmp b A g' ?e (i + 1) ts (map summary ts) = Some (g2, pos', i + 1 + length us, stop)"
      and "ts = us @ vs" "case stop of None \<Rightarrow> vs = [] | Some t \<Rightarrow> \<exists>vs'. vs = t # vs'"
        "pos' = after S D ?e (concat (map tree_items us))" "I ((ws @ tree_items t) @ concat (map tree_items us)) g2"
        "\<forall>d\<in>set (ends S D ?e (concat (map tree_items us))). past b (cmp d)"
      by (auto simp: wp_iff)
    moreover have "seek_children D cmp b A g pos i (t # ts) (map summary (t # ts)) = Some (g2, pos', i + 1 + length us, stop)"
      using r e True g'(1) by (simp add: Let_def)
    ultimately show ?thesis
      using p by (simp only: wp_Some prod.case) (intro exI [of _ "t # us"] exI [of _ vs], auto)
  qed
qed

text \<open>One turn of the loop either stops, or passes some items and goes on with less.\<close>

definition stops ::
  "('d \<Rightarrow> ordering) \<Rightarrow> bias \<Rightarrow> 'd \<Rightarrow> 'a list \<Rightarrow> 'a list \<Rightarrow> ('a, 's, 'd) stack_entry list \<times> 'd \<times> 'g \<Rightarrow> bool" where
  "stops cmp b pos ws xs = (\<lambda>(st', pos', g').
     \<exists>ys. seek_split S D cmp b pos xs = (ys, remaining False st') \<and>
       pos' = after S D pos ys \<and> I (ws @ ys) g' \<and> stack_ok S False st' \<and> at_item st')"

definition goes_on ::
  "('d \<Rightarrow> ordering) \<Rightarrow> bias \<Rightarrow> bool \<Rightarrow> ('a, 's, 'd) stack_entry list \<Rightarrow> 'd \<Rightarrow> 'g \<Rightarrow> 'a list \<Rightarrow> bool" where
  "goes_on cmp b ascending st pos g ws =
     (\<exists>xs ascending' st' g'.
        seek_loop D cmp b A ascending st pos g = seek_loop D cmp b A ascending' st' (after S D pos xs) g' \<and>
        remaining ascending st = xs @ remaining ascending' st' \<and> (\<forall>d\<in>set (ends S D pos xs). past b (cmp d)) \<and>
        I (ws @ xs) g' \<and> stack_ok S ascending' st' \<and> stack_weight ascending' st' < stack_weight ascending st)"

lemma leaf_turn:
  assumes ok: "stack_ok S ascending (e # rest)" and Leaf: "en_tree e = Leaf s is iss"
    and I: "I ws g" and len: "length (ws @ remaining ascending (e # rest)) < 2 ^ 64"
  shows "wp (seek_loop D cmp b A ascending (e # rest) pos g) (stops cmp b pos ws (remaining ascending (e # rest))) \<or>
    goes_on cmp b ascending (e # rest) pos g ws"
proof -
  have asc: "\<not> ascending" "en_index e \<le> length is" "iss = map (sm_item S) is" "length is \<le> 2 * TREE_BASE"
    and rest: "stack_ok S True rest" using ok Leaf by (auto split: if_splits)
  let ?i = "en_index e" and ?xs = "drop (en_index e) is"
  have rem: "remaining ascending (e # rest) = ?xs @ remaining True rest"
    using Leaf asc by (simp add: items_from_def)
  have "length [] + length ?xs \<le> 2 * TREE_BASE" using asc by simp
  from wp_seek_items [OF begin_leaf [OF I] this, of cmp b pos ?i] obtain g1 ys zs where
    sp: "seek_split S D cmp b pos ?xs = (ys, zs)" and j1: "J ws ys g1"
    and si: "seek_items D cmp b A g pos ?i ?xs (map (sm_item S) ?xs) = Some (g1, after S D pos ys, ?i + length ys, zs \<noteq> [])"
    by (auto simp: wp_iff)
  have xs: "?xs = ys @ zs" using seek_split_append [OF sp] .
  then have lys: "length ys \<le> 2 * TREE_BASE" using asc by (metis diff_le_self le_add1 le_trans length_append length_drop)
  have "length (ws @ ys) < 2 ^ 64" using len rem xs by simp
  from end_leaf [OF j1 lys this] obtain g2 where g2: "ag_end_leaf A g1 = Some g2" "I (ws @ ys) g2"
    by (auto simp: wp_iff)
  let ?st = "e\<lparr>en_index := ?i + length ys\<rparr> # rest"
  have step: "seek_loop D cmp b A ascending (e # rest) pos g =
      (if zs \<noteq> [] then Some (?st, after S D pos ys, g2) else seek_loop D cmp b A True rest (after S D pos ys) g2)"
    using Leaf asc si g2(1) by (simp add: Let_def drop_map)
  show ?thesis
  proof (cases "zs = []")
    case False
    have z: "zs = drop (?i + length ys) is" using xs by (metis add.commute append_eq_conv_conj drop_drop)
    then have "?i + length ys < length is" using False by (simp add: not_le [symmetric])
    then have ok': "stack_ok S False ?st" "at_item ?st" using ok rest Leaf asc by (auto simp: at_item_def)
    have "remaining False ?st = zs @ remaining True rest" using Leaf z by (simp add: items_from_def)
    with False step rem g2(2) ok' show ?thesis by (simp add: stops_def seek_split_stop [OF sp False])
  next
    case True
    have "ys = ?xs" "\<forall>d\<in>set (ends S D pos ?xs). past b (cmp d)" using seek_split_none [OF sp [unfolded True]] by auto
    moreover have "stack_weight True rest < stack_weight ascending (e # rest)" by (simp add: entry_weight_def)
    ultimately show ?thesis using step True g2(2) rest rem unfolding goes_on_def by metis
  qed
qed

lemma children_turn:
  assumes ok: "stack_ok S ascending (e # rest)" and Internal: "en_tree e = Internal h s css cts"
    and I: "I ws g" and len: "length (ws @ remaining ascending (e # rest)) < 2 ^ 64"
    and fall: "falling cmp (ends S D pos (remaining ascending (e # rest)))"
  shows "goes_on cmp b ascending (e # rest) pos g ws"
proof -
  let ?i = "if ascending then en_index e + 1 else en_index e"
  obtain h' where h: "h = Suc h'" and f: "forest S h' (concat (map tree_items cts)) cts" and css: "css = map summary cts"
    using ok unfolding Internal stack_ok.simps tree_ok_Internal by auto
  have i: "?i \<le> length cts" and h15: "length rest + h \<le> 15" and rest: "stack_ok S True rest"
    using ok Internal css by (auto split: if_splits)
  obtain xs where xs: "forest S h' xs (drop ?i cts)" using f forest_split by metis
  then have xs_eq: "xs = concat (map tree_items (drop ?i cts))" by (simp add: forest_def)
  have rem: "remaining ascending (e # rest) = xs @ remaining True rest" using Internal xs_eq by (simp add: items_from_def)
  have "wp (seek_children D cmp b A g pos ?i (drop ?i cts) (map summary (drop ?i cts))) (\<lambda>(g', pos', j, stop).
     \<exists>us vs. drop ?i cts = us @ vs \<and> j = ?i + length us \<and> (case stop of None \<Rightarrow> vs = [] | Some t \<Rightarrow> \<exists>vs'. vs = t # vs') \<and>
       pos' = after S D pos (concat (map tree_items us)) \<and> I (ws @ concat (map tree_items us)) g' \<and>
       (\<forall>d\<in>set (ends S D pos (concat (map tree_items us))). past b (cmp d)))"
    using I len fall rem h h15 by (intro wp_seek_children [OF _ xs]) (simp_all add: falling_append)
  then obtain g1 stop us vs where us: "drop ?i cts = us @ vs"
    and stop: "case stop of None \<Rightarrow> vs = [] | Some t \<Rightarrow> \<exists>vs'. vs = t # vs'"
    and g1: "I (ws @ concat (map tree_items us)) g1"
    and p: "\<forall>d\<in>set (ends S D pos (concat (map tree_items us))). past b (cmp d)"
    and sc: "seek_children D cmp b A g pos ?i (drop ?i cts) (map summary (drop ?i cts)) =
      Some (g1, after S D pos (concat (map tree_items us)), ?i + length us, stop)"
    by (auto simp: wp_iff)
  let ?pos = "after S D pos (concat (map tree_items us))"
  let ?e = "e\<lparr>en_index := ?i + length us, en_position := if ascending \<or> ?i + length us > ?i then ?pos else en_position e\<rparr>"
  show ?thesis
  proof (cases stop)
    case None
    have "seek_loop D cmp b A ascending (e # rest) pos g = seek_loop D cmp b A True rest ?pos g1"
      using Internal i css sc None by (simp add: Let_def drop_map)
    moreover have "stack_weight True rest < stack_weight ascending (e # rest)" by (simp add: entry_weight_def)
    moreover have "xs = concat (map tree_items us)" using us stop None xs_eq by simp
    ultimately show ?thesis unfolding goes_on_def using rem p g1 rest by metis
  next
    case (Some t)
    then obtain vs' where vs: "vs = t # vs'" using stop by auto
    let ?new = "\<lparr>en_tree = t, en_index = 0, en_position = ?pos\<rparr>"
    have t: "tree_ok S t" "height t = h'" using xs us vs by (auto simp: forest_def)
    have "length (drop ?i cts) = length us + Suc (length vs')" "drop (length us + 1) (drop ?i cts) = vs'" using us vs by simp_all
    then have j: "?i + length us < length cts" "drop (?i + length us + 1) cts = vs'" using i by (auto simp: algebra_simps)
    have ok': "stack_ok S False (?new # ?e # rest)" using ok rest t Internal css j h h15 by auto
    have "remaining False (?new # ?e # rest) = concat (map tree_items vs) @ remaining True rest"
      using j Internal vs by (cases t) (simp_all add: items_from_def)
    then have rem': "remaining ascending (e # rest) = concat (map tree_items us) @ remaining False (?new # ?e # rest)"
      unfolding rem xs_eq us by simp
    have eq: "seek_loop D cmp b A ascending (e # rest) pos g = seek_loop D cmp b A False (?new # ?e # rest) ?pos g1"
      using Internal i css sc Some h h15 by (simp add: Let_def drop_map)
    have "sum_list (map node_weight (drop ?i cts)) \<ge> node_weight t + sum_list (map node_weight (drop (?i + length us + 1) cts))"
      using sc Some by (intro entry_weight_child [where ss = "map summary (drop ?i cts)"]) simp
    then have "stack_weight False (?new # ?e # rest) < stack_weight ascending (e # rest)"
      using Internal node_weight_entry [of t ?pos] by (simp add: entry_weight_def)
    then show ?thesis unfolding goes_on_def using rem' p g1 ok' eq by blast
  qed
qed

lemma wp_seek_loop:
  assumes "stack_ok S ascending st" "I ws g" "length (ws @ remaining ascending st) < 2 ^ 64"
    "falling cmp (ends S D pos (remaining ascending st))"
  shows "wp (seek_loop D cmp b A ascending st pos g) (stops cmp b pos ws (remaining ascending st))"
  using assms
proof (induction "stack_weight ascending st" arbitrary: ascending st pos g ws rule: less_induct)
  case less
  have "wp (seek_loop D cmp b A ascending st pos g) (stops cmp b pos ws (remaining ascending st)) \<or> goes_on cmp b ascending st pos g ws"
  proof (cases st)
    case Nil
    then show ?thesis using less.prems by (simp add: stops_def at_item_def)
  next
    case (Cons e rest)
    then show ?thesis
      using leaf_turn less.prems children_turn by (cases "en_tree e") (simp_all only: Cons, metis+)
  qed
  then show ?case
  proof
    assume "goes_on cmp b ascending st pos g ws"
    then obtain xs ascending' st' g' where go:
      "seek_loop D cmp b A ascending st pos g = seek_loop D cmp b A ascending' st' (after S D pos xs) g'"
      "remaining ascending st = xs @ remaining ascending' st'" "\<forall>d\<in>set (ends S D pos xs). past b (cmp d)"
      "I (ws @ xs) g'" "stack_ok S ascending' st'" "stack_weight ascending' st' < stack_weight ascending st"
      unfolding goes_on_def by blast
    have "wp (seek_loop D cmp b A ascending' st' (after S D pos xs) g')
        (stops cmp b (after S D pos xs) (ws @ xs) (remaining ascending' st'))"
      using less.prems(3,4) go(2) by (intro less.hyps [OF go(6,5,4)]) (simp_all add: falling_append)
    then show ?thesis
      unfolding go(1,2) by (rule wp_mono) (auto simp: stops_def seek_split_all [OF go(3)])
  qed
qed

end

section \<open>The cursor as a place in the list\<close>

text \<open>The cursor stands between the items \<open>xs\<close> it has passed and \<open>ys\<close>.\<close>

definition cursor_at ::
  "('a, 's) summaries \<Rightarrow> ('s, 'd) dimension \<Rightarrow> 'a list \<Rightarrow> 'a list \<Rightarrow> ('a, 's, 'd) cursor \<Rightarrow> bool" where
  "cursor_at S D xs ys c = (tree_ok S (cu_tree c) \<and> height (cu_tree c) \<le> 15 \<and> tree_items (cu_tree c) = xs @ ys \<and>
     cu_position c = after S D (dm_zero D) xs \<and>
     (if cu_did_seek c
      then stack_ok S False (cu_stack c) \<and> at_item (cu_stack c) \<and> remaining False (cu_stack c) = ys \<and>
        cu_at_end c = (cu_stack c = [])
      else xs = [] \<and> cu_stack c = [] \<and> cu_at_end c = is_empty (cu_tree c)))"

lemma cursor_at_new: "tree_ok S t \<Longrightarrow> height t \<le> 15 \<Longrightarrow> cursor_at S D [] (tree_items t) (cursor_new D t)"
  by (simp add: cursor_at_def cursor_new_def)

lemma cursor_at_reset: "cursor_at S D xs ys c \<Longrightarrow> cursor_at S D [] (xs @ ys) (cursor_reset D c)"
  by (simp add: cursor_at_def cursor_reset_def)

lemma cursor_reset_tree [simp]: "cu_tree (cursor_reset D c) = cu_tree c"
  by (simp add: cursor_reset_def)

lemma cursor_at_item:
  assumes "cursor_at S D xs ys c" "cu_did_seek c"
  shows "cursor_item c = Some (first_opt ys)" "cursor_item_summary c = Some (map_option (sm_item S) (first_opt ys))"
proof -
  show "cursor_item c = Some (first_opt ys)"
  proof (cases "cu_stack c")
    case (Cons e st)
    with assms obtain s "is" iss where "en_tree e = Leaf s is iss" "en_index e < length is"
      by (cases "en_tree e") (auto simp: cursor_at_def at_item_def)
    with assms Cons show ?thesis
      by (auto simp: cursor_item_def cursor_at_def items_from_def first_opt_def Cons_nth_drop_Suc [symmetric])
  qed (use assms in \<open>auto simp: cursor_item_def cursor_at_def first_opt_def\<close>)
  show "cursor_item_summary c = Some (map_option (sm_item S) (first_opt ys))"
  proof (cases "cu_stack c")
    case (Cons e st)
    with assms obtain s "is" iss where "en_tree e = Leaf s is iss" "en_index e < length is"
      by (cases "en_tree e") (auto simp: cursor_at_def at_item_def)
    with assms Cons show ?thesis
      by (auto simp: cursor_item_summary_def cursor_at_def items_from_def first_opt_def Cons_nth_drop_Suc [symmetric])
  qed (use assms in \<open>auto simp: cursor_item_summary_def cursor_at_def first_opt_def\<close>)
qed

text \<open>The position \<open>seek_internal\<close> compares with at the end.\<close>

definition stop_position :: "('a, 's) summaries \<Rightarrow> ('s, 'd) dimension \<Rightarrow> bias \<Rightarrow> 'a list \<Rightarrow> 'a list \<Rightarrow> 'd" where
  "stop_position S D b xs ys = (case ys of
     y # _ \<Rightarrow> if b = BiasLeft then after S D (dm_zero D) (xs @ [y]) else after S D (dm_zero D) xs
   | [] \<Rightarrow> after S D (dm_zero D) xs)"

lemma cursor_at_end:
  assumes "cursor_at S D xs ys c" "cu_did_seek c"
  shows "cursor_end D c = Some (stop_position S D BiasLeft xs ys)"
  using assms cursor_at_item(2) [OF assms]
  by (auto simp: cursor_end_def stop_position_def cursor_at_def first_opt_def split: list.splits)

context aggregate_laws
begin

lemma wp_seek_internal:
  assumes c: "cursor_at S D xs ys c" and I: "I ws g" and len: "length (ws @ ys) < 2 ^ 64"
    and fwd: "cmp (cu_position c) \<noteq> Less" and fall: "falling cmp (ends S D (cu_position c) ys)"
  shows "wp (seek_internal D cmp b A c g) (\<lambda>(c', found, g').
    \<exists>us vs. seek_split S D cmp b (cu_position c) ys = (us, vs) \<and> cursor_at S D (xs @ us) vs c' \<and> cu_did_seek c' \<and>
      cu_tree c' = cu_tree c \<and> I (ws @ us) g' \<and> found = (cmp (stop_position S D b (xs @ us) vs) = Equal))"
proof -
  let ?root = "\<lparr>en_tree = cu_tree c, en_index = 0, en_position = dm_zero D\<rparr>"
  define st where "st = (if cu_did_seek c then cu_stack c else [?root])"
  have push: "(if cu_did_seek c then Some (cu_stack c) else push_entry ?root (cu_stack c)) = Some st"
    using c by (simp add: st_def push_entry_def cursor_at_def)
  have st: "stack_ok S False st" "remaining False st = ys"
    using c by (auto simp: st_def cursor_at_def items_from_def split: node.splits)
  obtain st' g' us where loop: "seek_loop D cmp b A False st (cu_position c) g = Some (st', after S D (cu_position c) us, g')"
    and us: "seek_split S D cmp b (cu_position c) ys = (us, remaining False st')" "I (ws @ us) g'" "stack_ok S False st'" "at_item st'"
    using wp_seek_loop [OF st(1) I] len fall st(2) by (fastforce simp: wp_iff stops_def)
  let ?c = "c\<lparr>cu_did_seek := True, cu_stack := st', cu_position := after S D (cu_position c) us, cu_at_end := (st' = [])\<rparr>"
  have at: "cursor_at S D (xs @ us) (remaining False st') ?c"
    using c us seek_split_append [OF us(1)] by (auto simp: cursor_at_def)
  have "(if b = BiasLeft then cursor_end D ?c else Some (after S D (cu_position c) us)) =
      Some (stop_position S D b (xs @ us) (remaining False st'))"
    using cursor_at_end [OF at] at by (auto simp: stop_position_def cursor_at_def split: list.splits)
  with push loop fwd at us(1,2) show ?thesis by (simp add: seek_internal_def Let_def)
qed

end

text \<open>The three aggregates.\<close>

context dimension_laws
begin

sublocale seeking: aggregate_laws S D no_aggregate "\<lambda>_ _. True" "\<lambda>_ _ _. True"
  by unfold_locales (simp_all add: no_aggregate_def)

text \<open>A slice has the trees passed before and the items of the leaf.\<close>

definition slice_leaf :: "'a list \<Rightarrow> 'a list \<Rightarrow> ('a, 's) slice_seek \<Rightarrow> bool" where
  "slice_leaf ws bs g = (grown S 15 ws (sl_tree g) \<and> length ws < 2 ^ 64 \<and> sl_items g = bs \<and>
     sl_summaries g = map (sm_item S) bs \<and> sl_summary g = total S bs)"

sublocale slicing: aggregate_laws S D "slice_aggregate S" "\<lambda>ws. slice_leaf ws []" slice_leaf
proof unfold_locales
  fix ws bs g x assume j: "slice_leaf ws bs g" "length bs < 2 * TREE_BASE"
  have "total S (bs @ [x]) = sm_add S (total S bs) (sm_item S x)" by (simp add: total_append) (simp add: total_def)
  with j show "wp (ag_push_item (slice_aggregate S) x (sm_item S x) g) (slice_leaf ws (bs @ [x]))"
    by (simp add: slice_aggregate_def slice_leaf_def wp_array_vec)
next
  fix ws bs g assume j: "slice_leaf ws bs g" "length bs \<le> 2 * TREE_BASE" "length (ws @ bs) < 2 ^ 64"
  let ?l = "Leaf (sl_summary g) (sl_items g) (sl_summaries g)"
  have "wp (tree_append S (sl_tree g) ?l) (grown S 15 (ws @ bs))"
    using j wp_append_grown [of 15 ws "sl_tree g" ?l] by (auto simp: slice_leaf_def total_def)
  then show "wp (ag_end_leaf (slice_aggregate S) g) (slice_leaf (ws @ bs) [])"
    using j(3) by (auto simp: slice_aggregate_def slice_leaf_def total_def summary_sum_def elim!: wp_mono)
next
  fix ws g t assume j: "slice_leaf ws [] g" "tree_ok S t" "\<not> is_empty t" "height t \<le> 15" "length (ws @ tree_items t) < 2 ^ 64"
  then have "wp (tree_append S (sl_tree g) t) (grown S 15 (ws @ tree_items t))"
    by (intro wp_append_grown) (auto simp: slice_leaf_def)
  then show "wp (ag_push_tree (slice_aggregate S) t (summary t) g) (slice_leaf (ws @ tree_items t) [])"
    using j by (auto simp: slice_aggregate_def slice_leaf_def elim!: wp_mono)
qed

lemma wp_slice:
  assumes "cursor_at S D xs ys c" "length ys < 2 ^ 64" "cmp (cu_position c) \<noteq> Less" "falling cmp (ends S D (cu_position c) ys)"
  shows "wp (slice S D cmp b c) (\<lambda>(c', t). \<exists>us vs. seek_split S D cmp b (cu_position c) ys = (us, vs) \<and>
    cursor_at S D (xs @ us) vs c' \<and> cu_did_seek c' \<and> cu_tree c' = cu_tree c \<and> grown S 15 us t)"
proof -
  have "slice_leaf [] [] \<lparr>sl_tree = tree_new S, sl_items = [], sl_summaries = [], sl_summary = sm_zero S\<rparr>"
    by (simp add: slice_leaf_def grown_new total_def summary_sum_def)
  from slicing.wp_seek_internal [OF assms(1) this _ assms(3,4)] assms(2) show ?thesis
    by (fastforce simp: slice_def slice_leaf_def elim!: wp_mono)
qed

lemma seek_split_end: "seek_split S D (\<lambda>_. Greater) b pos ys = (ys, [])"
  by (induction ys arbitrary: pos) (simp_all add: past_def Let_def)

lemma wp_suffix:
  assumes "cursor_at S D xs ys c" "length ys < 2 ^ 64"
  shows "wp (suffix_tree S D c) (\<lambda>(c', t). cursor_at S D (xs @ ys) [] c' \<and> cu_tree c' = cu_tree c \<and> grown S 15 ys t)"
proof -
  have f: "falling (\<lambda>_. Greater) (ends S D (cu_position c) ys)"
    by (induction ys arbitrary: c) (auto simp: falling_def sorted_wrt_iff_nth_less)
  have "(\<lambda>_. Greater) (cu_position c) \<noteq> Less" by simp
  from wp_slice [OF assms this f, of BiasRight] show ?thesis
    by (auto simp: suffix_tree_def seek_split_end elim!: wp_mono)
qed

lemma wp_seek:
  assumes "cursor_at S D xs ys c" "length (xs @ ys) < 2 ^ 64" "cmp (dm_zero D) \<noteq> Less" "falling cmp (ends S D (dm_zero D) (xs @ ys))"
  shows "wp (seek D cmp b c) (\<lambda>(c', found). \<exists>us vs. seek_split S D cmp b (dm_zero D) (xs @ ys) = (us, vs) \<and>
    cursor_at S D us vs c' \<and> cu_did_seek c' \<and> cu_tree c' = cu_tree c \<and> found = (cmp (stop_position S D b us vs) = Equal))"
proof -
  have p: "cu_position (cursor_reset D c) = dm_zero D" by (simp add: cursor_reset_def)
  from seeking.wp_seek_internal [OF cursor_at_reset [OF assms(1)] TrueI,
      where ws = "[]" and g = "()" and cmp = cmp and b = b] p assms(2-4)
  show ?thesis by (fastforce simp: seek_def seek_forward_def elim!: wp_mono)
qed

lemma skip_none [simp]: "skip_children D (\<lambda>_. True) pos i ss = (pos, i)"
  by (cases ss) simp_all

lemma wp_search_loop:
  assumes "stack_ok S (\<not> descend) st"
  shows "wp (search_loop D (\<lambda>_. True) descend st pos) (\<lambda>(st', pos').
    remaining False st' = remaining (\<not> descend) st \<and> pos' = pos \<and> stack_ok S False st' \<and> at_item st')"
  using assms
proof (induction "stack_weight (\<not> descend) st" arbitrary: descend st rule: less_induct)
  case less
  show ?case
  proof (cases st)
    case (Cons e rest)
    note ok = less.prems [unfolded Cons stack_ok.simps]
    have up: "stack_weight True rest < stack_weight (\<not> descend) st" using Cons by (simp add: entry_weight_def)
    show ?thesis
    proof (cases "en_tree e")
      case (Leaf s "is" iss)
      then have d: "descend" "iss = map (sm_item S) is" "en_index e \<le> length is" using ok by (auto split: if_splits)
      show ?thesis
      proof (cases "en_index e < length is")
        case True
        then show ?thesis using Cons Leaf d ok by (auto simp: items_from_def at_item_def)
      next
        case False
        with less.hyps [of False rest] up d Cons Leaf ok show ?thesis by (auto simp: items_from_def)
      qed
    next
      case (Internal h s css cts)
      let ?i = "if descend then en_index e else en_index e + 1"
      have css: "css = map summary cts" "length rest + h \<le> 15" "?i \<le> length cts" "stack_ok S True rest"
        using ok Internal by (auto simp: tree_ok.simps(2) split: if_splits)
      show ?thesis
      proof (cases "?i < length cts")
        case False
        with less.hyps [of False rest] up css Cons Internal show ?thesis by (auto simp: items_from_def Let_def nth_opt_def)
      next
        case True
        let ?t = "cts ! ?i" and ?e = "e\<lparr>en_index := ?i, en_position := if descend then en_position e else pos\<rparr>"
        let ?st = "\<lparr>en_tree = ?t, en_index = 0, en_position = pos\<rparr> # ?e # rest"
        have t: "tree_ok S ?t" "Suc (height ?t) = h" using ok Internal True by (auto simp: tree_ok.simps(2))
        have okst: "stack_ok S (\<not> True) ?st" using ok Internal css t True by (auto split: if_splits)
        have rem: "remaining False ?st = remaining (\<not> descend) st"
          using True Cons Internal Cons_nth_drop_Suc [OF True] by (cases ?t) (auto simp: items_from_def Cons_nth_drop_Suc [symmetric])
        have "stack_weight (\<not> True) ?st < stack_weight (\<not> descend) st"
          using drop_weight [of ?i ?i cts] True Cons Internal node_weight_entry [of ?t pos]
          by (cases descend) (simp_all add: entry_weight_def)
        moreover have "search_loop D (\<lambda>_. True) descend st pos = search_loop D (\<lambda>_. True) True ?st pos"
          using css t True unfolding Cons search_loop.simps(2) [of D _ descend] Internal
          by (auto simp: Let_def nth_opt_def)
        ultimately show ?thesis using less.hyps [of True ?st] okst rem by (simp only: not_True_eq_False)
      qed
    qed
  qed (simp add: at_item_def)
qed

declare search_loop.simps(2) [simp del]

lemma wp_cursor_next:
  assumes "cursor_at S D xs ys c"
  shows "wp (cursor_next D c) (\<lambda>c'. cu_did_seek c' \<and> cu_tree c' = cu_tree c \<and>
    (if cu_did_seek c then cursor_at S D (xs @ take 1 ys) (drop 1 ys) c' else cursor_at S D xs ys c'))"
proof (cases "cu_stack c")
  case Nil
  show ?thesis
  proof (cases "cu_at_end c")
    case True
    then show ?thesis using assms Nil
      by (cases "cu_tree c") (auto simp: cursor_next_def search_forward_def Let_def cursor_at_def at_item_def split: if_splits)
  next
    case False
    let ?st = "[\<lparr>en_tree = cu_tree c, en_index = 0, en_position = dm_zero D\<rparr>]"
    have ns: "\<not> cu_did_seek c" "xs = []" using assms Nil False by (auto simp: cursor_at_def split: if_splits)
    have "stack_ok S (\<not> True) ?st" using assms by (simp add: cursor_at_def)
    moreover have "remaining (\<not> True) ?st = ys" using assms ns by (cases "cu_tree c") (auto simp: cursor_at_def items_from_def)
    moreover have "ys \<noteq> []" using assms ns False tree_items_nonempty by (auto simp: cursor_at_def)
    ultimately have "wp (search_loop D (\<lambda>_. True) True ?st (cu_position c)) (\<lambda>(st', pos').
        st' \<noteq> [] \<and> remaining False st' = ys \<and> pos' = cu_position c \<and> stack_ok S False st' \<and> at_item st')"
      by (auto intro: wp_mono [OF wp_search_loop [of True ?st "cu_position c"]])
    then show ?thesis using assms Nil False ns
      by (auto simp: cursor_next_def search_forward_def Let_def push_entry_def cursor_at_def elim!: wp_mono)
  qed
next
  case (Cons e st)
  then have seek: "cu_did_seek c" "\<not> cu_at_end c" using assms by (auto simp: cursor_at_def split: if_splits)
  then obtain s "is" iss where Leaf: "en_tree e = Leaf s is iss" "en_index e < length is" "iss = map (sm_item S) is"
      and st: "stack_ok S True st" and ys: "ys = drop (en_index e) is @ remaining True st"
    using assms Cons by (cases "en_tree e") (auto simp: cursor_at_def at_item_def items_from_def)
  let ?y = "is ! en_index e"
  have y: "ys = ?y # drop (Suc (en_index e)) is @ remaining True st" using ys Leaf(2) by (simp add: Cons_nth_drop_Suc [symmetric])
  have "wp (search_loop D (\<lambda>_. True) False (cu_stack c) (cu_position c)) (\<lambda>(st', pos').
      remaining False st' = tl ys \<and> pos' = dm_add D (cu_position c) (sm_item S ?y) \<and> stack_ok S False st' \<and> at_item st')"
  proof (cases "Suc (en_index e) < length is")
    case True
    then show ?thesis using Cons Leaf y st assms seek
      by (auto simp: items_from_def at_item_def cursor_at_def search_loop.simps(2))
  next
    case False
    then have "wp (search_loop D (\<lambda>_. True) False st (dm_add D (cu_position c) (sm_item S ?y))) (\<lambda>(st', pos').
        remaining False st' = tl ys \<and> pos' = dm_add D (cu_position c) (sm_item S ?y) \<and> stack_ok S False st' \<and> at_item st')"
      using wp_search_loop [of False st] st y by (auto elim!: wp_mono)
    with False Cons Leaf show ?thesis by (simp add: search_loop.simps(2))
  qed
  moreover have "cursor_at S D (xs @ [?y]) (tl ys) (c\<lparr>cu_did_seek := True, cu_stack := st',
      cu_position := dm_add D (cu_position c) (sm_item S ?y), cu_at_end := (if st' = [] then True else cu_at_end c)\<rparr>)"
    if "remaining False st' = tl ys" "stack_ok S False st'" "at_item st'" for st'
    using that assms seek y by (auto simp: cursor_at_def)
  ultimately show ?thesis using seek Cons y
    by (auto simp: cursor_next_def search_forward_def Let_def elim!: wp_mono)
qed

lemma wp_cursor_iter:
  assumes "cursor_at S D xs ys c"
  shows "wp (cursor_iter D c) (\<lambda>(c', item). item = first_opt ys \<and> cu_did_seek c' \<and>
    cursor_at S D (xs @ take 1 ys) (drop 1 ys) c')"
proof -
  have "wp (if cu_did_seek c then Some c else cursor_next D c) (\<lambda>c. cu_did_seek c \<and> cursor_at S D xs ys c)"
    using wp_cursor_next [OF assms] assms by (auto elim!: wp_mono)
  moreover have "wp (Option.bind (cursor_item c) (\<lambda>item. case item of
       Some x \<Rightarrow> map_option (\<lambda>c. (c, Some x)) (cursor_next D c) | None \<Rightarrow> Some (c, None)))
     (\<lambda>(c', item). item = first_opt ys \<and> cu_did_seek c' \<and> cursor_at S D (xs @ take 1 ys) (drop 1 ys) c')"
    if "cu_did_seek c \<and> cursor_at S D xs ys c" for c
    using that cursor_at_item(1) [of S D xs ys c] wp_cursor_next [of xs ys c]
    by (auto simp: first_opt_def split: list.splits elim!: wp_mono)
  ultimately show ?thesis unfolding cursor_iter_def wp_bind by (auto elim!: wp_mono)
qed

end

text \<open>Summing up another dimension on the way.\<close>

locale two_dimensions = dimension_laws S D + out: dimension_laws S E
  for S :: "('a, 's) summaries" and D :: "('s, 'd) dimension" and E :: "('s, 'o) dimension"
begin

sublocale summing: aggregate_laws S D "summary_aggregate E" "\<lambda>ws g. g = after S E (dm_zero E) ws"
    "\<lambda>ws bs g. g = after S E (dm_zero E) (ws @ bs)"
  by unfold_locales (simp_all add: summary_aggregate_def out.dim_tree)

lemma wp_cursor_summary:
  assumes "cursor_at S D xs ys c" "length ys < 2 ^ 64" "cmp (cu_position c) \<noteq> Less" "falling cmp (ends S D (cu_position c) ys)"
  shows "wp (cursor_summary D E cmp b c) (\<lambda>(c', d). \<exists>us vs. seek_split S D cmp b (cu_position c) ys = (us, vs) \<and>
    cursor_at S D (xs @ us) vs c' \<and> d = after S E (dm_zero E) us)"
  using summing.wp_seek_internal [OF assms(1) refl, where ws = "[]" and cmp = cmp and b = b] assms(2-4)
  by (fastforce simp: cursor_summary_def elim!: wp_mono)

end

section \<open>Searching without a cursor\<close>

definition found_at :: "('a, 's) summaries \<Rightarrow> ('s, 'd) dimension \<Rightarrow> 'd \<Rightarrow> 'a list \<times> 'a list \<Rightarrow> 'd \<times> ('a \<times> 'd) option" where
  "found_at S D pos = (\<lambda>(us, vs). (after S D pos us,
     case vs of [] \<Rightarrow> None | v # _ \<Rightarrow> Some (v, after S D pos (us @ [v]))))"

lemma entry_found_past: "entry_found False b c = (\<not> past b c)"
  by (cases c) (auto simp: entry_found_def past_def dest: bias.exhaust intro: bias.exhaust [of b])

lemma in_child_past: "(c = Less \<or> c = Equal \<and> b = BiasLeft) = (\<not> past b c)"
  using entry_found_past [of b c] by (simp add: entry_found_def)

lemma find_items_split:
  "find_items False D cmp b pos (zip xs (map (sm_item S) xs)) = found_at S D pos (seek_split S D cmp b pos xs)"
  by (induction xs arbitrary: pos) (auto simp: Let_def entry_found_past found_at_def split: prod.splits list.splits)

lemma found_at_append:
  "(\<forall>d\<in>set (ends S D pos xs). past b (cmp d)) \<Longrightarrow> found_at S D pos (seek_split S D cmp b pos (xs @ ys)) =
     found_at S D (after S D pos xs) (seek_split S D cmp b (after S D pos xs) ys)"
  by (auto simp: seek_split_all found_at_def split: prod.splits list.splits)

lemma seek_split_inside:
  assumes "\<not> past b (cmp (after S D pos xs))" "xs \<noteq> []"
  obtains us v vs where "seek_split S D cmp b pos xs = (us, v # vs)"
proof -
  obtain us vs where s: "seek_split S D cmp b pos xs = (us, vs)" by (metis surj_pair)
  have "vs \<noteq> []"
  proof
    assume "vs = []"
    with s seek_split_none [of S D cmp b pos xs us] have "\<forall>d\<in>set (ends S D pos xs). past b (cmp d)" by simp
    with ends_last [OF assms(2), of S D pos] assms(1) show False using last_in_set by fastforce
  qed
  with s that show ?thesis by (cases vs) auto
qed

text \<open>\<open>find_exact\<close> with the left bias: the first item that ends at the target.\<close>

fun exact_item :: "('a, 's) summaries \<Rightarrow> ('s, 'd) dimension \<Rightarrow> ('d \<Rightarrow> ordering) \<Rightarrow> 'd \<Rightarrow> 'a list \<Rightarrow> 'a option" where
  "exact_item S D cmp pos [] = None"
| "exact_item S D cmp pos (x # xs) =
     (let e = dm_add D pos (sm_item S x) in if cmp e = Equal then Some x else exact_item S D cmp e xs)"

lemma exact_item_append: "exact_item S D cmp pos (xs @ ys) = (case exact_item S D cmp pos xs of
    Some x \<Rightarrow> Some x | None \<Rightarrow> exact_item S D cmp (after S D pos xs) ys)"
  by (induction xs arbitrary: pos) (auto simp: Let_def split: option.splits)

lemma exact_item_None: "(\<forall>d\<in>set (ends S D pos xs). cmp d \<noteq> Equal) \<longleftrightarrow> exact_item S D cmp pos xs = None"
  by (induction xs arbitrary: pos) (auto simp: Let_def)

lemma find_items_exact:
  "map_option fst (snd (find_items True D cmp b pos (zip xs (map (sm_item S) xs)))) = exact_item S D cmp pos xs"
  by (induction xs arbitrary: pos) (auto simp: Let_def entry_found_def)

lemma rank_less [simp]: "rank c = 0 \<longleftrightarrow> c = Less"
  by (cases c) auto

text \<open>Past the target nothing ends at it.\<close>

lemma exact_stop:
  assumes "falling cmp (ends S D pos (xs @ ys))" "xs \<noteq> []" "cmp (after S D pos xs) \<noteq> Greater"
  shows "exact_item S D cmp pos (xs @ ys) = exact_item S D cmp pos xs"
proof (cases "exact_item S D cmp pos xs")
  case None
  let ?e = "after S D pos xs"
  have e: "?e \<in> set (ends S D pos xs)" using ends_last [OF assms(2), of S D pos] last_in_set by metis
  have "cmp ?e \<noteq> Equal" using None e exact_item_None [of S D pos xs cmp] by auto
  then have "cmp ?e = Less" using assms(3) by (cases "cmp ?e") auto
  then have "\<forall>d\<in>set (ends S D ?e ys). cmp d = Less"
  proof -
    assume l: "cmp ?e = Less"
    have "rank (cmp d) \<le> rank (cmp ?e)" if "d \<in> set (ends S D ?e ys)" for d
      using assms(1) e that unfolding ends_append falling_append by blast
    with l show ?thesis by simp
  qed
  then have "exact_item S D cmp ?e ys = None" using exact_item_None [of S D ?e ys cmp] by auto
  with None show ?thesis by (simp add: exact_item_append)
qed (simp add: exact_item_append)

context dimension_laws
begin

lemma find_iterate_split:
  assumes "tree_ok S t" "falling cmp (ends S D pos (tree_items t))"
  shows "find_iterate False D cmp b pos t = found_at S D pos (seek_split S D cmp b pos (tree_items t))"
  using assms
proof (induction t arbitrary: pos)
  case (Leaf s "is" iss)
  then show ?case by (simp add: find_items_split)
next
  case (Internal h s css cts)
  have "find_children False D cmp b pos cts (map summary cts) =
      found_at S D pos (seek_split S D cmp b pos (concat (map tree_items cts)))"
    if "\<forall>t\<in>set cts. tree_ok S t \<and> \<not> is_empty t" "falling cmp (ends S D pos (concat (map tree_items cts)))"
      "\<And>t pos. t \<in> set cts \<Longrightarrow> tree_ok S t \<Longrightarrow> falling cmp (ends S D pos (tree_items t)) \<Longrightarrow>
        find_iterate False D cmp b pos t = found_at S D pos (seek_split S D cmp b pos (tree_items t))"
    for cts pos
    using that
  proof (induction cts arbitrary: pos)
    case Nil
    then show ?case by (simp add: found_at_def)
  next
    case (Cons t ts)
    let ?e = "after S D pos (tree_items t)"
    have t: "tree_ok S t" "\<not> is_empty t" "tree_items t \<noteq> []" using Cons.prems(1) tree_items_nonempty by auto
    have f: "falling cmp (ends S D pos (tree_items t))" "falling cmp (ends S D ?e (concat (map tree_items ts)))"
      using Cons.prems(2) by (auto simp: falling_append)
    have e: "dm_add D pos (summary t) = ?e" using dim_tree t by simp
    show ?case
    proof (cases "past b (cmp ?e)")
      case True
      from falling_past [OF f(1) t(3) True] Cons.IH [OF _ f(2)] Cons.prems e True show ?thesis
        by (simp add: Let_def in_child_past found_at_append)
    next
      case False
      obtain us v vs where sp: "seek_split S D cmp b pos (tree_items t) = (us, v # vs)"
        using seek_split_inside [where b = b and cmp = cmp and pos = pos and xs = "tree_items t"] False t(3) by metis
      from seek_split_stop [OF sp] Cons.prems(3) [OF _ t(1) f(1)] e False sp show ?thesis
        by (simp add: Let_def in_child_past found_at_def)
    qed
  qed
  from this [of cts pos] Internal show ?case by (auto simp: tree_ok.simps(2))
qed

lemma tree_end: "tree_ok S t \<Longrightarrow> dm_add D (dm_zero D) (summary t) = after S D (dm_zero D) (tree_items t)"
  by (cases "is_empty t") (auto simp: dim_tree summary_sum_def dim_zero elim!: is_empty.elims)

lemma tree_find_split:
  assumes "tree_ok S t" "falling cmp (ends S D (dm_zero D) (tree_items t))"
  shows "tree_find D cmp b t = (let (us, vs) = seek_split S D cmp b (dm_zero D) (tree_items t) in
    (after S D (dm_zero D) us, after S D (dm_zero D) (us @ take 1 vs), first_opt vs))"
proof (cases "past b (cmp (after S D (dm_zero D) (tree_items t)))")
  case True
  have "seek_split S D cmp b (dm_zero D) (tree_items t) = (tree_items t, [])"
  proof (cases "tree_items t = []")
    case False
    from seek_split_all [OF falling_past [OF assms(2) False True], of "[]"] show ?thesis by simp
  qed simp
  with True show ?thesis by (simp add: find_tree_def tree_end [OF assms(1)] Let_def past_def first_opt_def)
next
  case False
  then show ?thesis
    using find_iterate_split [OF assms, of b]
    by (auto simp: find_tree_def tree_end [OF assms(1)] Let_def past_def found_at_def first_opt_def
      split: prod.splits list.splits)
qed

lemma find_iterate_exact:
  assumes "tree_ok S t" "falling cmp (ends S D pos (tree_items t))"
  shows "map_option fst (snd (find_iterate True D cmp BiasLeft pos t)) = exact_item S D cmp pos (tree_items t)"
  using assms
proof (induction t arbitrary: pos)
  case (Leaf s "is" iss)
  then show ?case by (simp add: find_items_exact)
next
  case (Internal h s css cts)
  have "map_option fst (snd (find_children True D cmp BiasLeft pos cts (map summary cts))) =
      exact_item S D cmp pos (concat (map tree_items cts))"
    if "\<forall>t\<in>set cts. tree_ok S t \<and> \<not> is_empty t" "falling cmp (ends S D pos (concat (map tree_items cts)))"
      "\<And>t pos. t \<in> set cts \<Longrightarrow> tree_ok S t \<Longrightarrow> falling cmp (ends S D pos (tree_items t)) \<Longrightarrow>
        map_option fst (snd (find_iterate True D cmp BiasLeft pos t)) = exact_item S D cmp pos (tree_items t)"
    for cts pos
    using that
  proof (induction cts arbitrary: pos)
    case (Cons t ts)
    let ?e = "after S D pos (tree_items t)"
    have t: "tree_ok S t" "\<not> is_empty t" "tree_items t \<noteq> []" using Cons.prems(1) tree_items_nonempty by auto
    have f: "falling cmp (ends S D pos (tree_items t))" "falling cmp (ends S D ?e (concat (map tree_items ts)))"
      using Cons.prems(2) by (auto simp: falling_append)
    have e: "dm_add D pos (summary t) = ?e" using dim_tree t by simp
    show ?case
    proof (cases "cmp ?e = Greater")
      case True
      then have "\<forall>d\<in>set (ends S D pos (tree_items t)). past BiasLeft (cmp d)"
        using falling_past [OF f(1) t(3), of BiasLeft] by (simp add: past_def)
      then have "exact_item S D cmp pos (tree_items t) = None"
        using exact_item_None [of S D pos "tree_items t" cmp] by (auto simp: past_def)
      with True Cons.IH [OF _ f(2)] Cons.prems e show ?thesis by (simp add: Let_def exact_item_append)
    next
      case False
      then have "cmp ?e = Less \<or> cmp ?e = Equal" by (cases "cmp ?e") auto
      moreover have "exact_item S D cmp pos (concat (map tree_items (t # ts))) = exact_item S D cmp pos (tree_items t)"
        using exact_stop [of cmp S D pos "tree_items t"] Cons.prems(2) t(3) False by simp
      ultimately show ?thesis using Cons.prems(3) [OF _ t(1) f(1)] e by (auto simp: Let_def)
    qed
  qed simp
  from this [of cts pos] Internal show ?case by (auto simp: tree_ok.simps(2))
qed

lemma find_exact_item:
  assumes "tree_ok S t" "falling cmp (ends S D (dm_zero D) (tree_items t))"
  shows "snd (snd (find_exact D cmp BiasLeft t)) = exact_item S D cmp (dm_zero D) (tree_items t)"
proof (cases "cmp (after S D (dm_zero D) (tree_items t)) = Greater")
  case True
  have "exact_item S D cmp (dm_zero D) (tree_items t) = None"
  proof (cases "tree_items t = []")
    case False
    have "past BiasLeft (cmp (after S D (dm_zero D) (tree_items t)))" using True by (simp add: past_def)
    from falling_past [OF assms(2) False this] show ?thesis
      using exact_item_None [of S D "dm_zero D" "tree_items t" cmp] by (auto simp: past_def)
  qed simp
  with True show ?thesis by (simp add: find_tree_def tree_end [OF assms(1)] Let_def)
next
  case False
  with find_iterate_exact [OF assms] show ?thesis
    by (auto simp: find_tree_def tree_end [OF assms(1)] Let_def split: prod.splits option.splits)
qed

end

section \<open>What the cursor does\<close>

text \<open>The keys as a dimension, and a key as a target.\<close>

definition key_dimension :: "(nat option, nat option) dimension" where
  "key_dimension = \<lparr>dm_zero = None, dm_add = (\<lambda>d s. s)\<rparr>"

definition key_cmp :: "nat \<Rightarrow> nat option \<Rightarrow> ordering" where
  "key_cmp k d = (case d of None \<Rightarrow> Greater | Some k' \<Rightarrow> if k < k' then Less else if k = k' then Equal else Greater)"

interpretation last_key: dimension_laws last_key key_dimension
  by unfold_locales (simp_all add: last_key_def key_dimension_def)

interpretation last_key: two_dimensions last_key key_dimension key_dimension
  by unfold_locales

text \<open>C28. Seeking forward and collecting the tree of what is passed (\<open>slice\<close>) never panics on a tree of
  height at most 15, the capacity of the stack of the cursor. It cuts the items that are left at the first
  one whose end the target is not past: the slice is a well-formed tree of the items before, the
  cursor stands at that item with the position of everything before it, and \<open>item\<close> returns it.
  \<open>suffix\<close> is the tree of all that is left.\<close>

theorem slice_cuts:
  assumes "dimension_laws S D" "cursor_at S D xs ys c" "length ys < 2 ^ 64"
    "cmp (cu_position c) \<noteq> Less" "falling cmp (ends S D (cu_position c) ys)"
  shows "\<exists>c' t us vs. slice S D cmp b c = Some (c', t) \<and> ys = us @ vs \<and> tree_ok S t \<and> tree_items t = us \<and>
    (\<forall>d\<in>set (ends S D (cu_position c) us). past b (cmp d)) \<and>
    (vs \<noteq> [] \<longrightarrow> \<not> past b (cmp (after S D (cu_position c) (us @ [hd vs])))) \<and>
    cursor_at S D (xs @ us) vs c' \<and> cursor_item c' = Some (first_opt vs) \<and>
    (\<exists>c'' u. suffix_tree S D c' = Some (c'', u) \<and> tree_ok S u \<and> tree_items u = vs)"
proof -
  obtain c' t us vs where s: "slice S D cmp b c = Some (c', t)" "seek_split S D cmp b (cu_position c) ys = (us, vs)"
      "cursor_at S D (xs @ us) vs c'" "cu_did_seek c'" "grown S 15 us t"
    using dimension_laws.wp_slice [OF assms(1-5), of b] by (auto simp: wp_iff)
  have ys: "ys = us @ vs" using seek_split_append [OF s(2)] .
  have "(\<forall>d\<in>set (ends S D pos us). past b (cmp d)) \<and> (vs \<noteq> [] \<longrightarrow> \<not> past b (cmp (after S D pos (us @ [hd vs]))))"
    if "seek_split S D cmp b pos ys = (us, vs)" for pos us
    using that by (induction ys arbitrary: pos us) (auto simp: Let_def split: if_splits prod.splits)
  from this [OF s(2)] s ys cursor_at_item(1) [OF s(3,4)] show ?thesis
    using dimension_laws.wp_suffix [OF assms(1) s(3)] assms(3) by (fastforce simp: wp_iff grown_def)
qed

lemma large_cursor: "cursor_at last_key key_dimension [] [4..<40] (cursor_new key_dimension large_tree)"
  using cursor_at_new [OF tree_examples(2)] tree_examples(4,6) by simp

lemma key_ends: "ends last_key key_dimension pos xs = map Some xs"
  by (induction xs arbitrary: pos) (simp_all add: last_key_def key_dimension_def)

lemma key_falling: "sorted xs \<Longrightarrow> falling (key_cmp k) (map Some xs)"
  by (induction xs) (auto simp: falling_def key_cmp_def)

theorem slice_cuts_witness:
  "\<exists>c' t. slice last_key key_dimension (key_cmp 17) BiasLeft (cursor_new key_dimension large_tree) = Some (c', t) \<and>
     [4..<40] = tree_items t @ drop (length (tree_items t)) [4..<40]"
proof -
  have "key_cmp 17 (cu_position (cursor_new key_dimension large_tree)) \<noteq> Less"
    by (simp add: cursor_new_def key_dimension_def key_cmp_def)
  moreover have "falling (key_cmp 17) (ends last_key key_dimension (cu_position (cursor_new key_dimension large_tree)) [4..<40])"
    unfolding key_ends by (intro key_falling) simp
  ultimately show ?thesis
    using slice_cuts [OF last_key.dimension_laws_axioms large_cursor, of "key_cmp 17" BiasLeft] by (fastforce simp del: upt_conv_Cons)
qed

text \<open>The searches without a cursor find what a scan over the items finds: \<open>find\<close> the first item whose
  end the target is not past, with the positions around it, and \<open>find_exact\<close> the first item that ends
  exactly at the target.\<close>

lemma find_scans:
  assumes "dimension_laws S D" "tree_ok S t" "falling cmp (ends S D (dm_zero D) (tree_items t))"
  shows "tree_find D cmp b t = (let (us, vs) = seek_split S D cmp b (dm_zero D) (tree_items t) in
      (after S D (dm_zero D) us, after S D (dm_zero D) (us @ take 1 vs), first_opt vs)) \<and>
    snd (snd (find_exact D cmp BiasLeft t)) = exact_item S D cmp (dm_zero D) (tree_items t)"
  using dimension_laws.tree_find_split [OF assms] dimension_laws.find_exact_item [OF assms] by blast

lemma find_scans_witness: "snd (snd (find_exact key_dimension (key_cmp 17) BiasLeft large_tree)) = Some 17"
proof -
  have "falling (key_cmp 17) (ends last_key key_dimension (dm_zero key_dimension) (tree_items large_tree))"
    unfolding key_ends by (intro key_falling) (simp add: tree_examples(6))
  from find_scans [OF last_key.dimension_laws_axioms tree_examples(2) this]
  have "snd (snd (find_exact key_dimension (key_cmp 17) BiasLeft large_tree)) =
      exact_item last_key key_dimension (key_cmp 17) (dm_zero key_dimension) [4..<40]" by (simp add: tree_examples(6))
  also have "\<dots> = Some 17" by code_simp
  finally show ?thesis .
qed

end
