(* ===== verification/TreeMap.thy ===== *)
theory TreeMap
  imports SumTreeCursor "HOL-Library.Option_ord"
begin

text \<open>
  Sum trees of keyed items: \<open>insert_or_replace\<close>, \<open>remove\<close>, \<open>edit\<close> and \<open>get\<close> of
  \<open>crates/sum_tree/src/sum_tree.rs\<close>, and the ordered map on top of them
  (\<open>crates/sum_tree/src/tree_map.rs\<close>). The items are kept sorted by their keys; the operations are
  shown to be those of a finite map.

  A tree of keyed items has the summaries of its items, the dimension of the keys and the key of
  an item; the comparison of keys is the order of their type. The cursor has room for trees of height
  at most 15.
\<close>

section \<open>Keyed items\<close>

record ('a, 's, 'k) keyed =
  ky_summaries :: "('a, 's) summaries"
  ky_dimension :: "('s, 'k) dimension"
  ky_key :: "'a \<Rightarrow> 'k"

definition ord_cmp :: "'k :: linorder \<Rightarrow> 'k \<Rightarrow> ordering" where
  "ord_cmp k d = (if k < d then Less else if k = d then Equal else Greater)"

text \<open>\<open>if let Some(item) = cursor.item() \<and> item.key() == key\<close>: the item, and the cursor behind it.\<close>

definition take_item ::
  "('a, 's, 'k) keyed \<Rightarrow> 'k \<Rightarrow> ('a, 's, 'k) cursor \<Rightarrow> (('a, 's, 'k) cursor \<times> 'a option) option" where
  "take_item K k c = Option.bind (cursor_item c) (\<lambda>item. case item of
     Some x \<Rightarrow> if ky_key K x = k then map_option (\<lambda>c. (c, Some x)) (cursor_next (ky_dimension K) c) else Some (c, None)
   | None \<Rightarrow> Some (c, None))"

definition insert_or_replace ::
  "('a, 's, 'k :: linorder) keyed \<Rightarrow> 'a \<Rightarrow> ('a, 's) node \<Rightarrow> (('a, 's) node \<times> 'a option) option" where
  "insert_or_replace K item self =
     (let S = ky_summaries K; D = ky_dimension K in
      Option.bind (slice S D (ord_cmp (ky_key K item)) BiasLeft (cursor_new D self)) (\<lambda>(c, new_tree).
      Option.bind (take_item K (ky_key K item) c) (\<lambda>(c, replaced).
      Option.bind (tree_push S item new_tree) (\<lambda>new_tree.
      Option.bind (suffix_tree S D c) (\<lambda>(c, rest).
      Option.bind (tree_append S new_tree rest) (\<lambda>new_tree.
      Some (new_tree, replaced)))))))"

definition remove_key ::
  "('a, 's, 'k :: linorder) keyed \<Rightarrow> 'k \<Rightarrow> ('a, 's) node \<Rightarrow> (('a, 's) node \<times> 'a option) option" where
  "remove_key K key self =
     (let S = ky_summaries K; D = ky_dimension K in
      Option.bind (slice S D (ord_cmp key) BiasLeft (cursor_new D self)) (\<lambda>(c, new_tree).
      Option.bind (take_item K key c) (\<lambda>(c, removed).
      Option.bind (suffix_tree S D c) (\<lambda>(c, rest).
      Option.bind (tree_append S new_tree rest) (\<lambda>new_tree.
      Some (new_tree, removed))))))"

definition get_item :: "('a, 's, 'k :: linorder) keyed \<Rightarrow> 'k \<Rightarrow> ('a, 's) node \<Rightarrow> 'a option" where
  "get_item K key self = snd (snd (find_exact (ky_dimension K) (ord_cmp key) BiasLeft self))"

datatype ('a, 'k) edit = Insert 'a | Remove 'k

fun edit_key :: "('a, 's, 'k) keyed \<Rightarrow> ('a, 'k) edit \<Rightarrow> 'k" where
  "edit_key K (Insert x) = ky_key K x"
| "edit_key K (Remove k) = k"

fun edit_items :: "('a, 'k) edit \<Rightarrow> 'a list" where
  "edit_items (Insert x) = [x]"
| "edit_items (Remove k) = []"

record ('a, 's, 'k) edit_state =
  es_cursor :: "('a, 's, 'k) cursor"
  es_tree :: "('a, 's) node"
  es_buffered :: "'a list"
  es_removed :: "'a list"

text \<open>The turn of the loop for one edit.\<close>

definition edit_step ::
  "('a, 's, 'k :: linorder) keyed \<Rightarrow> ('a, 'k) edit \<Rightarrow> ('a, 's, 'k) edit_state \<Rightarrow> ('a, 's, 'k) edit_state option" where
  "edit_step K e st =
     (let S = ky_summaries K; D = ky_dimension K; new_key = edit_key K e in
      Option.bind (cursor_item (es_cursor st)) (\<lambda>old_item.
      Option.bind
        (if (case old_item of Some x \<Rightarrow> ky_key K x < new_key | None \<Rightarrow> False) then
           Option.bind (tree_extend S (es_buffered st) (es_tree st)) (\<lambda>new_tree.
           Option.bind (slice S D (ord_cmp new_key) BiasLeft (es_cursor st)) (\<lambda>(c, sl).
           Option.bind (tree_append S new_tree sl) (\<lambda>new_tree.
           Some (st\<lparr>es_cursor := c, es_tree := new_tree, es_buffered := []\<rparr>))))
         else Some st) (\<lambda>st.
      Option.bind (take_item K new_key (es_cursor st)) (\<lambda>(c, removed).
      Some (st\<lparr>es_cursor := c, es_removed := es_removed st @ option_list removed,
        es_buffered := es_buffered st @ edit_items e\<rparr>)))))"

fun edit_loop ::
  "('a, 's, 'k :: linorder) keyed \<Rightarrow> ('a, 'k) edit list \<Rightarrow> ('a, 's, 'k) edit_state \<Rightarrow> ('a, 's, 'k) edit_state option" where
  "edit_loop K [] st = Some st"
| "edit_loop K (e # es) st = Option.bind (edit_step K e st) (\<lambda>st. edit_loop K es st)"

text \<open>The edits are sorted by their keys first; the order of edits with equal keys is not specified by
  \<open>sort_unstable_by_key\<close> and is the given one here.\<close>

definition edit_tree ::
  "('a, 's, 'k :: linorder) keyed \<Rightarrow> ('a, 'k) edit list \<Rightarrow> ('a, 's) node \<Rightarrow> (('a, 's) node \<times> 'a list) option" where
  "edit_tree K edits self =
     (if edits = [] then Some (self, [])
      else
        let S = ky_summaries K; D = ky_dimension K in
        Option.bind (seek D (ord_cmp (dm_zero D)) BiasLeft (cursor_new D self)) (\<lambda>(c, _).
        Option.bind (edit_loop K (sort_key (edit_key K) edits)
          \<lparr>es_cursor = c, es_tree = tree_new S, es_buffered = [], es_removed = []\<rparr>) (\<lambda>st.
        Option.bind (tree_extend S (es_buffered st) (es_tree st)) (\<lambda>new_tree.
        Option.bind (suffix_tree S D (es_cursor st)) (\<lambda>(c, rest).
        Option.bind (tree_append S new_tree rest) (\<lambda>new_tree.
        Some (new_tree, es_removed st)))))))"

section \<open>Sorted lists of items\<close>

definition sorted_keys :: "('a, 's, 'k :: linorder) keyed \<Rightarrow> 'a list \<Rightarrow> bool" where
  "sorted_keys K xs = sorted_wrt (\<lambda>x y. ky_key K x < ky_key K y) xs"

definition below :: "('a, 's, 'k :: linorder) keyed \<Rightarrow> 'k \<Rightarrow> 'a list \<Rightarrow> 'a list" where
  "below K k xs = takeWhile (\<lambda>x. ky_key K x < k) xs"

definition above :: "('a, 's, 'k :: linorder) keyed \<Rightarrow> 'k \<Rightarrow> 'a list \<Rightarrow> 'a list" where
  "above K k xs = dropWhile (\<lambda>x. ky_key K x \<le> k) xs"

definition key_at :: "('a, 's, 'k :: linorder) keyed \<Rightarrow> 'k \<Rightarrow> 'a list \<Rightarrow> 'a option" where
  "key_at K k xs = List.find (\<lambda>x. ky_key K x = k) xs"

lemma sorted_keys_Cons: "sorted_keys K (x # xs) \<longleftrightarrow> (\<forall>y\<in>set xs. ky_key K x < ky_key K y) \<and> sorted_keys K xs"
  by (simp add: sorted_keys_def)

lemma sorted_keys_append: "sorted_keys K (xs @ ys) \<longleftrightarrow> sorted_keys K xs \<and> sorted_keys K ys \<and>
    (\<forall>x\<in>set xs. \<forall>y\<in>set ys. ky_key K x < ky_key K y)"
  by (auto simp: sorted_keys_def sorted_wrt_append)

lemma set_below: "x \<in> set (below K k xs) \<Longrightarrow> x \<in> set xs \<and> ky_key K x < k"
  unfolding below_def by (auto dest: set_takeWhileD)

lemma set_above: "sorted_keys K xs \<Longrightarrow> x \<in> set (above K k xs) \<Longrightarrow> x \<in> set xs \<and> k < ky_key K x"
  unfolding above_def by (induction xs) (auto simp: sorted_keys_Cons not_le split: if_splits)

lemma sorted_split:
  assumes "sorted_keys K xs"
  shows "xs = below K k xs @ option_list (key_at K k xs) @ above K k xs"
  using assms
proof (induction xs)
  case (Cons x xs)
  have gt: "below K k xs = []" "key_at K k xs = None" "above K k xs = xs" if "k \<le> ky_key K x"
    using Cons.prems that
    by (cases xs; force simp: below_def above_def key_at_def sorted_keys_Cons find_None_iff)+
  consider "ky_key K x < k" | "ky_key K x = k" | "k < ky_key K x" by fastforce
  then show ?case
    using Cons gt by cases (auto simp: below_def above_def key_at_def sorted_keys_Cons option_list_def)
qed (simp add: below_def above_def key_at_def option_list_def)

lemma key_at_key: "key_at K k xs = Some x \<Longrightarrow> x \<in> set xs \<and> ky_key K x = k"
  by (auto simp: key_at_def find_Some_iff in_set_conv_nth)

text \<open>What the edits make of a sorted list, and what they replace or remove.\<close>

fun merge_edits :: "('a, 's, 'k :: linorder) keyed \<Rightarrow> ('a, 'k) edit list \<Rightarrow> 'a list \<Rightarrow> 'a list" where
  "merge_edits K [] ys = ys"
| "merge_edits K (e # es) ys =
     below K (edit_key K e) ys @ edit_items e @ merge_edits K es (above K (edit_key K e) ys)"

fun merge_removed :: "('a, 's, 'k :: linorder) keyed \<Rightarrow> ('a, 'k) edit list \<Rightarrow> 'a list \<Rightarrow> 'a list" where
  "merge_removed K [] ys = []"
| "merge_removed K (e # es) ys =
     option_list (key_at K (edit_key K e) ys) @ merge_removed K es (above K (edit_key K e) ys)"

lemma sorted_above: "sorted_keys K xs \<Longrightarrow> sorted_keys K (above K k xs)"
  unfolding above_def by (induction xs) (auto simp: sorted_keys_Cons)

lemma length_edit_items: "length (edit_items e) \<le> 1"
  by (cases e) simp_all

locale keyed_laws = dimension_laws "ky_summaries K" "ky_dimension K"
  for K :: "('a, 's, 'k :: linorder) keyed" +
  assumes key_end: "d \<le> ky_key K x \<Longrightarrow> dm_add (ky_dimension K) d (sm_item (ky_summaries K) x) = ky_key K x"
    and zero_least: "dm_zero (ky_dimension K) \<le> k"
begin

abbreviation "S \<equiv> ky_summaries K"
abbreviation "D \<equiv> ky_dimension K"

lemma ends_keys: "sorted_keys K xs \<Longrightarrow> (\<forall>x\<in>set xs. d \<le> ky_key K x) \<Longrightarrow> ends S D d xs = map (ky_key K) xs"
  by (induction xs arbitrary: d) (simp_all add: key_end sorted_keys_Cons less_imp_le)

lemma after_keys: "sorted_keys K xs \<Longrightarrow> (\<forall>x\<in>set xs. d \<le> ky_key K x) \<Longrightarrow>
    after S D d xs = (if xs = [] then d else ky_key K (last xs))"
  by (induction xs arbitrary: d) (simp_all add: key_end sorted_keys_Cons less_imp_le)

lemma falling_keys: "sorted_keys K xs \<Longrightarrow> falling (ord_cmp k) (map (ky_key K) xs)"
  by (induction xs) (force simp: falling_def sorted_keys_Cons ord_cmp_def)+

lemma seek_split_keys:
  "sorted_keys K xs \<Longrightarrow> (\<forall>x\<in>set xs. d \<le> ky_key K x) \<Longrightarrow>
     seek_split S D (ord_cmp k) BiasLeft d xs = (below K k xs, drop (length (below K k xs)) xs)"
  by (induction xs arbitrary: d) (auto simp: key_end sorted_keys_Cons less_imp_le below_def ord_cmp_def past_def Let_def)

text \<open>Cutting at a key, and taking the item with it.\<close>

lemma wp_slice_key:
  assumes c: "cursor_at S D xs ys c" and s: "sorted_keys K (xs @ ys)" and len: "length ys < 2 ^ 64"
    and k: "\<forall>x\<in>set xs. ky_key K x \<le> k"
  shows "wp (slice S D (ord_cmp k) BiasLeft c) (\<lambda>(c', t). grown S 15 (below K k ys) t \<and> cu_did_seek c' \<and>
    cursor_at S D (xs @ below K k ys) (option_list (key_at K k ys) @ above K k ys) c')"
proof -
  have sx: "sorted_keys K xs" "sorted_keys K ys" and xy: "\<forall>x\<in>set xs. \<forall>y\<in>set ys. ky_key K x < ky_key K y"
    using s by (auto simp: sorted_keys_append)
  have pos: "cu_position c = (if xs = [] then dm_zero D else ky_key K (last xs))"
    using c after_keys [OF sx(1)] zero_least by (auto simp: cursor_at_def)
  then have lo: "\<forall>y\<in>set ys. cu_position c \<le> ky_key K y" using xy zero_least by (auto simp: less_imp_le)
  have fwd: "ord_cmp k (cu_position c) \<noteq> Less" using pos k zero_least by (auto simp: ord_cmp_def not_less)
  have fall: "falling (ord_cmp k) (ends S D (cu_position c) ys)"
    using ends_keys [OF sx(2) lo] falling_keys [OF sx(2)] by simp
  have "drop (length (below K k ys)) ys = option_list (key_at K k ys) @ above K k ys"
    using sorted_split [OF sx(2), of k] by (metis append_eq_conv_conj)
  with wp_slice [OF c len fwd fall, of BiasLeft] seek_split_keys [OF sx(2) lo, of k] show ?thesis
    by (auto elim!: wp_mono)
qed

lemma wp_seek_key:
  assumes t: "tree_ok S t" "height t \<le> 15" "length (tree_items t) < 2 ^ 64" "sorted_keys K (tree_items t)"
  shows "wp (seek D (ord_cmp k) BiasLeft (cursor_new D t)) (\<lambda>(c, _). cu_did_seek c \<and>
    cursor_at S D (below K k (tree_items t)) (option_list (key_at K k (tree_items t)) @ above K k (tree_items t)) c)"
proof -
  let ?xs = "tree_items t"
  have lo: "\<forall>x\<in>set ?xs. dm_zero D \<le> ky_key K x" using zero_least by simp
  have fall: "falling (ord_cmp k) (ends S D (dm_zero D) ([] @ ?xs))"
    using ends_keys [OF t(4) lo] falling_keys [OF t(4)] by simp
  have fwd: "ord_cmp k (dm_zero D) \<noteq> Less" using zero_least by (auto simp: ord_cmp_def not_less)
  have "drop (length (below K k ?xs)) ?xs = option_list (key_at K k ?xs) @ above K k ?xs"
    using sorted_split [OF t(4), of k] by (metis append_eq_conv_conj)
  with wp_seek [OF cursor_at_new [OF t(1,2)] _ fwd fall, of BiasLeft] t(3) seek_split_keys [OF t(4) lo, of k]
  show ?thesis by (auto elim!: wp_mono)
qed

lemma wp_take_item:
  assumes c: "cursor_at S D xs (option_list (key_at K k ys) @ above K k ys) c" and d: "cu_did_seek c" and s: "sorted_keys K ys"
  shows "wp (take_item K k c) (\<lambda>(c', r). r = key_at K k ys \<and> cu_did_seek c' \<and>
    cursor_at S D (xs @ option_list (key_at K k ys)) (above K k ys) c')"
proof (cases "key_at K k ys")
  case None
  have "first_opt (above K k ys) = Some x \<Longrightarrow> ky_key K x \<noteq> k" for x
    using set_above [OF s, of x k] by (auto simp: first_opt_def split: list.splits)
  with None cursor_at_item(1) [OF c d] c d show ?thesis
    by (auto simp: take_item_def option_list_def split: option.splits)
next
  case (Some x)
  with wp_cursor_next [OF c] cursor_at_item(1) [OF c d] key_at_key [OF Some] d show ?thesis
    by (auto simp: take_item_def option_list_def first_opt_def elim!: wp_mono)
qed

lemma wp_push_grown:
  assumes "grown S k xs t" "k \<le> 200" "length xs < 2 ^ 64"
  shows "wp (tree_push S x t) (grown S k (xs @ [x]))"
proof -
  have "tree_ok S (Leaf (sm_item S x) [x] [sm_item S x])" by (simp add: TREE_BASE_def)
  from wp_append_grown [OF assms(1) this _ assms(2,3)] show ?thesis by (simp add: tree_push_def)
qed

lemma grown_le: "grown S k xs t \<Longrightarrow> length xs < 2 ^ 64 \<Longrightarrow> tree_ok S t \<and> height t \<le> k + 25 \<and> tree_items t = xs"
  using grown_height by (auto simp: grown_def)

lemma grown_raise: "grown S k xs t \<Longrightarrow> length xs < 2 ^ 64 \<Longrightarrow> grown S (k + 25) xs t"
  using grown_low grown_le by metis

text \<open>The common end of the updates: what is left is appended.\<close>

lemma append_suffix:
  assumes "cursor_at S D xs ys c" "grown S 40 us t" "length ys < 2 ^ 64" "length us < 2 ^ 64"
  obtains c' rest t' where "suffix_tree S D c = Some (c', rest)" "tree_append S t rest = Some t'" "grown S 40 (us @ ys) t'"
proof -
  obtain c' rest where r: "suffix_tree S D c = Some (c', rest)" "grown S 15 ys rest"
    using wp_suffix [OF assms(1,3)] by (auto simp: wp_iff)
  have "wp (tree_append S t rest) (grown S 40 (us @ tree_items rest))"
    using wp_append_grown [OF assms(2), of rest] grown_le [OF r(2) assms(3)] assms(4) by simp
  with r grown_le [OF r(2) assms(3)] that show ?thesis by (auto simp: wp_iff)
qed

lemma wp_insert_or_replace:
  assumes "tree_ok S t" "height t \<le> 15" "length (tree_items t) < 2 ^ 64 - 1" "sorted_keys K (tree_items t)"
  shows "wp (insert_or_replace K item t) (\<lambda>(t', replaced). replaced = key_at K (ky_key K item) (tree_items t) \<and>
    grown S 40 (below K (ky_key K item) (tree_items t) @ item # above K (ky_key K item) (tree_items t)) t')"
proof -
  let ?k = "ky_key K item" and ?xs = "tree_items t"
  have len: "length ?xs < 2 ^ 64" using assms(3) by simp
  obtain c u where c: "slice S D (ord_cmp ?k) BiasLeft (cursor_new D t) = Some (c, u)" "grown S 15 (below K ?k ?xs) u"
      "cursor_at S D (below K ?k ?xs) (option_list (key_at K ?k ?xs) @ above K ?k ?xs) c" "cu_did_seek c"
    using wp_slice_key [OF cursor_at_new [OF assms(1,2)] _ len, of ?k] assms(4) by (auto simp: wp_iff)
  obtain c' where c': "take_item K ?k c = Some (c', key_at K ?k ?xs)"
      "cursor_at S D (below K ?k ?xs @ option_list (key_at K ?k ?xs)) (above K ?k ?xs) c'"
    using wp_take_item [OF c(3,4) assms(4)] by (auto simp: wp_iff)
  have parts: "length ?xs = length (below K ?k ?xs) + length (option_list (key_at K ?k ?xs)) + length (above K ?k ?xs)"
    using sorted_split [OF assms(4), of ?k] by (metis add.assoc length_append)
  have u: "grown S 40 (below K ?k ?xs) u" using grown_raise [OF c(2)] parts len by simp
  have "wp (tree_push S item u) (grown S 40 (below K ?k ?xs @ [item]))"
    using wp_push_grown [OF u] parts len by simp
  then obtain u' where u': "tree_push S item u = Some u'" "grown S 40 (below K ?k ?xs @ [item]) u'" by (auto simp: wp_iff)
  obtain c2 rest t' where "suffix_tree S D c' = Some (c2, rest)" "tree_append S u' rest = Some t'"
      "grown S 40 ((below K ?k ?xs @ [item]) @ above K ?k ?xs) t'"
    using append_suffix [OF c'(2) u'(2)] parts assms(3) by auto
  with c(1) c'(1) u'(1) show ?thesis by (simp add: insert_or_replace_def Let_def)
qed

lemma wp_remove_key:
  assumes "tree_ok S t" "height t \<le> 15" "length (tree_items t) < 2 ^ 64" "sorted_keys K (tree_items t)"
  shows "wp (remove_key K k t) (\<lambda>(t', removed). removed = key_at K k (tree_items t) \<and>
    grown S 40 (below K k (tree_items t) @ above K k (tree_items t)) t')"
proof -
  let ?xs = "tree_items t"
  obtain c u where c: "slice S D (ord_cmp k) BiasLeft (cursor_new D t) = Some (c, u)" "grown S 15 (below K k ?xs) u"
      "cursor_at S D (below K k ?xs) (option_list (key_at K k ?xs) @ above K k ?xs) c" "cu_did_seek c"
    using wp_slice_key [OF cursor_at_new [OF assms(1,2)] _ assms(3), of k] assms(4) by (auto simp: wp_iff)
  obtain c' where c': "take_item K k c = Some (c', key_at K k ?xs)"
      "cursor_at S D (below K k ?xs @ option_list (key_at K k ?xs)) (above K k ?xs) c'"
    using wp_take_item [OF c(3,4) assms(4)] by (auto simp: wp_iff)
  have parts: "length ?xs = length (below K k ?xs) + length (option_list (key_at K k ?xs)) + length (above K k ?xs)"
    using sorted_split [OF assms(4), of k] by (metis add.assoc length_append)
  have u: "grown S 40 (below K k ?xs) u" using grown_raise [OF c(2)] parts assms(3) by simp
  obtain c2 rest t' where "suffix_tree S D c' = Some (c2, rest)" "tree_append S u rest = Some t'"
      "grown S 40 (below K k ?xs @ above K k ?xs) t'"
    using append_suffix [OF c'(2) u] parts assms(3) by auto
  with c(1) c'(1) show ?thesis by (simp add: remove_key_def Let_def)
qed

lemma wp_extend_grown:
  assumes "grown S 40 us t" "length (us @ xs) < 2 ^ 64"
  shows "wp (tree_extend S xs t) (grown S 40 (us @ xs))"
proof -
  obtain u where u: "from_iter S xs = Some u" "tree_ok S u" "tree_items u = xs" "height u \<le> 18"
    using wp_from_iter [of xs] assms(2) by (auto simp: wp_iff)
  from wp_append_grown [OF assms(1) u(2)] u assms(2) show ?thesis by (simp add: tree_extend_def)
qed

text \<open>The state of the edit loop: \<open>us\<close> is done, \<open>ys\<close> is left.\<close>

definition editing :: "'a list \<Rightarrow> 'a list \<Rightarrow> ('a, 's, 'k) edit_state \<Rightarrow> bool" where
  "editing us ys st = (cu_did_seek (es_cursor st) \<and>
     (\<exists>xs vs. cursor_at S D xs ys (es_cursor st) \<and> sorted_keys K (xs @ ys) \<and>
       grown S 40 vs (es_tree st) \<and> us = vs @ es_buffered st))"

definition behind :: "'k \<Rightarrow> ('a, 's, 'k) edit_state \<Rightarrow> bool" where
  "behind k st = (\<forall>xs ys. cursor_at S D xs ys (es_cursor st) \<longrightarrow> (\<forall>x\<in>set xs. ky_key K x \<le> k))"

lemma below_Nil: "first_opt ys = None \<or> (\<exists>y. first_opt ys = Some y \<and> \<not> ky_key K y < k) \<Longrightarrow> below K k ys = []"
  by (cases ys) (auto simp: below_def first_opt_def)

lemma cursor_at_unique: "cursor_at S D xs ys c \<Longrightarrow> cursor_at S D xs' ys' c \<Longrightarrow> xs = xs' \<and> ys = ys'"
  by (auto simp: cursor_at_def split: if_splits)

lemma wp_edit_step:
  assumes st: "editing us ys st" and b: "behind (edit_key K e) st" and len: "length (us @ ys) < 2 ^ 64"
  shows "wp (edit_step K e st) (\<lambda>st'. editing (us @ below K (edit_key K e) ys @ edit_items e) (above K (edit_key K e) ys) st' \<and>
    es_removed st' = es_removed st @ option_list (key_at K (edit_key K e) ys) \<and> behind (edit_key K e) st')"
proof -
  let ?k = "edit_key K e"
  obtain xs vs where c: "cursor_at S D xs ys (es_cursor st)" "cu_did_seek (es_cursor st)" and s: "sorted_keys K (xs @ ys)"
    and g: "grown S 40 vs (es_tree st)" "us = vs @ es_buffered st" using st by (auto simp: editing_def)
  have k: "\<forall>x\<in>set xs. ky_key K x \<le> ?k" using b c by (auto simp: behind_def)
  have sy: "sorted_keys K ys" using s by (simp add: sorted_keys_append)
  have split: "ys = below K ?k ys @ option_list (key_at K ?k ys) @ above K ?k ys" using sorted_split [OF sy] .
  let ?cond = "case first_opt ys of Some x \<Rightarrow> ky_key K x < ?k | None \<Rightarrow> False"
  let ?mid = "if ?cond then
       Option.bind (tree_extend S (es_buffered st) (es_tree st)) (\<lambda>new_tree.
       Option.bind (slice S D (ord_cmp ?k) BiasLeft (es_cursor st)) (\<lambda>(c, sl).
       Option.bind (tree_append S new_tree sl) (\<lambda>new_tree.
       Some (st\<lparr>es_cursor := c, es_tree := new_tree, es_buffered := []\<rparr>))))
     else Some st"
  have "wp ?mid (\<lambda>st'. cu_did_seek (es_cursor st') \<and> es_removed st' = es_removed st \<and>
      cursor_at S D (xs @ below K ?k ys) (option_list (key_at K ?k ys) @ above K ?k ys) (es_cursor st') \<and>
      (\<exists>vs. grown S 40 vs (es_tree st') \<and> us @ below K ?k ys = vs @ es_buffered st'))"
  proof (cases ?cond)
    case True
    have len2: "length ys < 2 ^ 64" "length (below K ?k ys) \<le> length ys" using len split by (auto, metis le_add1 length_append)
    obtain t1 where t1: "tree_extend S (es_buffered st) (es_tree st) = Some t1" "grown S 40 us t1"
      using wp_extend_grown [OF g(1), of "es_buffered st"] g(2) len by (auto simp: wp_iff)
    obtain c' sl where sl: "slice S D (ord_cmp ?k) BiasLeft (es_cursor st) = Some (c', sl)" "grown S 15 (below K ?k ys) sl"
        "cu_did_seek c'" "cursor_at S D (xs @ below K ?k ys) (option_list (key_at K ?k ys) @ above K ?k ys) c'"
      using wp_slice_key [OF c(1) s len2(1) k] by (auto simp: wp_iff)
    have "wp (tree_append S t1 sl) (grown S 40 (us @ below K ?k ys))"
      using wp_append_grown [OF t1(2), of sl] grown_le [OF sl(2)] len len2 by simp
    with t1 sl True show ?thesis by (auto simp: wp_iff)
  next
    case False
    then have "below K ?k ys = []" by (intro below_Nil) (auto split: option.splits)
    with False c g split show ?thesis by auto
  qed
  then obtain st1 where st1: "?mid = Some st1" "cu_did_seek (es_cursor st1)" "es_removed st1 = es_removed st"
      "cursor_at S D (xs @ below K ?k ys) (option_list (key_at K ?k ys) @ above K ?k ys) (es_cursor st1)"
      "\<exists>vs. grown S 40 vs (es_tree st1) \<and> us @ below K ?k ys = vs @ es_buffered st1" by (auto simp: wp_iff)
  obtain c' where c': "take_item K ?k (es_cursor st1) = Some (c', key_at K ?k ys)" "cu_did_seek c'"
      "cursor_at S D ((xs @ below K ?k ys) @ option_list (key_at K ?k ys)) (above K ?k ys) c'"
    using wp_take_item [OF st1(4,2) sy] by (auto simp: wp_iff)
  let ?st = "st1\<lparr>es_cursor := c', es_removed := es_removed st1 @ option_list (key_at K ?k ys),
      es_buffered := es_buffered st1 @ edit_items e\<rparr>"
  have eq: "edit_step K e st = Some ?st"
    using cursor_at_item(1) [OF c] st1(1) c'(1) by (simp add: edit_step_def Let_def)
  have "editing (us @ below K ?k ys @ edit_items e) (above K ?k ys) ?st"
    using c' st1(5) s split by (auto simp: editing_def intro!: exI [of _ "(xs @ below K ?k ys) @ option_list (key_at K ?k ys)"])
  moreover have "behind ?k ?st"
    unfolding behind_def using c'(3) k set_below [of _ K ?k ys] key_at_key [of K ?k ys]
    by (auto dest!: cursor_at_unique [OF c'(3)] simp: option_list_def less_imp_le split: option.splits)
  ultimately show ?thesis using eq st1(3) by simp
qed

lemma behind_mono: "behind k st \<Longrightarrow> k \<le> k' \<Longrightarrow> behind k' st"
  by (meson behind_def order_trans)

lemma wp_edit_loop:
  assumes "editing us ys st" "es \<noteq> [] \<Longrightarrow> behind (edit_key K (hd es)) st" "sorted (map (edit_key K) es)"
    "length (us @ ys) + length es < 2 ^ 64"
  shows "wp (edit_loop K es st) (\<lambda>st'. \<exists>us' ys'. editing us' ys' st' \<and> us' @ ys' = us @ merge_edits K es ys \<and>
    length (us' @ ys') \<le> length (us @ ys) + length es \<and> es_removed st' = es_removed st @ merge_removed K es ys)"
  using assms
proof (induction es arbitrary: us ys st)
  case (Cons e es)
  let ?k = "edit_key K e" and ?us = "us @ below K (edit_key K e) ys @ edit_items e" and ?ys = "above K (edit_key K e) ys"
  obtain st1 where st1: "edit_step K e st = Some st1" "editing ?us ?ys st1"
      "es_removed st1 = es_removed st @ option_list (key_at K ?k ys)" "behind ?k st1"
    using wp_edit_step [OF Cons.prems(1), of e] Cons.prems(2,4) by (auto simp: wp_iff)
  have "sorted_keys K ys" using Cons.prems(1) by (auto simp: editing_def sorted_keys_append)
  from sorted_split [OF this, of ?k] have "length ys = length (below K ?k ys) + length (option_list (key_at K ?k ys)) + length ?ys"
    by (metis add.assoc length_append)
  then have len: "length (?us @ ?ys) \<le> length (us @ ys) + 1" using length_edit_items [of e] by simp
  have "es \<noteq> [] \<Longrightarrow> behind (edit_key K (hd es)) st1"
    using Cons.prems(3) st1(4) behind_mono by (cases es) auto
  from Cons.IH [OF st1(2) this] Cons.prems(3,4) len st1(1,3) show ?case
    by (fastforce elim!: wp_mono)
qed (auto simp: wp_iff)

lemma wp_edit_tree:
  assumes t: "tree_ok S t" "height t \<le> 15" "length (tree_items t) + length es < 2 ^ 64" "sorted_keys K (tree_items t)"
  shows "wp (edit_tree K es t) (\<lambda>(t', removed). tree_ok S t' \<and>
    tree_items t' = merge_edits K (sort_key (edit_key K) es) (tree_items t) \<and>
    removed = merge_removed K (sort_key (edit_key K) es) (tree_items t))"
proof (cases "es = []")
  case True
  then show ?thesis using t by (simp add: edit_tree_def)
next
  case False
  let ?xs = "tree_items t" and ?es = "sort_key (edit_key K) es" and ?z = "dm_zero D"
  have lo: "\<forall>x\<in>set ?xs. ?z \<le> ky_key K x" using zero_least by simp
  have sp: "seek_split S D (ord_cmp ?z) BiasLeft ?z ?xs = ([], ?xs)"
    using seek_split_keys [OF t(4) lo, of ?z] below_Nil [of ?xs ?z] zero_least
    by (auto simp: first_opt_def not_less split: list.splits)
  obtain c b where c: "seek D (ord_cmp ?z) BiasLeft (cursor_new D t) = Some (c, b)" "cursor_at S D [] ?xs c" "cu_did_seek c"
    using wp_seek [OF cursor_at_new [OF t(1,2)], of "ord_cmp ?z" BiasLeft] t(3) sp ends_keys [OF t(4) lo] falling_keys [OF t(4)]
    by (auto simp: wp_iff ord_cmp_def)
  let ?st = "\<lparr>es_cursor = c, es_tree = tree_new S, es_buffered = [], es_removed = []\<rparr>"
  have "editing [] ?xs ?st"
    using c t(4) grown_new [of S 40] by (auto simp: editing_def intro!: exI [of _ "[]"])
  moreover have "behind k ?st" for k by (auto simp: behind_def dest!: cursor_at_unique [OF c(2)])
  ultimately obtain st us ys where st: "edit_loop K ?es ?st = Some st" "editing us ys st" "us @ ys = merge_edits K ?es ?xs"
      "length us + length ys \<le> length ?xs + length es" "es_removed st = merge_removed K ?es ?xs"
    using wp_edit_loop [of "[]" ?xs ?st ?es] t(3) by (auto simp: wp_iff)
  then obtain zs vs where at: "cursor_at S D zs ys (es_cursor st)" and g: "grown S 40 vs (es_tree st)" "us = vs @ es_buffered st"
    by (auto simp: editing_def)
  have len: "length us < 2 ^ 64" "length ys < 2 ^ 64" using st(4) t(3) by auto
  obtain t1 where t1: "tree_extend S (es_buffered st) (es_tree st) = Some t1" "grown S 40 us t1"
    using wp_extend_grown [OF g(1), of "es_buffered st"] g(2) len by (auto simp: wp_iff)
  obtain c2 rest t' where "suffix_tree S D (es_cursor st) = Some (c2, rest)" "tree_append S t1 rest = Some t'" "grown S 40 (us @ ys) t'"
    using append_suffix [OF at t1(2) len(2,1)] by blast
  with False c(1) st t1(1) show ?thesis by (simp add: edit_tree_def Let_def grown_def)
qed

lemma get_item_key:
  assumes "tree_ok S t" "sorted_keys K (tree_items t)"
  shows "get_item K k t = key_at K k (tree_items t)"
proof -
  have "exact_item S D (ord_cmp k) d xs = key_at K k xs" if "sorted_keys K xs" "\<forall>x\<in>set xs. d \<le> ky_key K x" for d xs
    using that by (induction xs arbitrary: d)
      (auto simp: key_end sorted_keys_Cons less_imp_le key_at_def ord_cmp_def Let_def split: if_splits)
  moreover have "falling (ord_cmp k) (ends S D (dm_zero D) (tree_items t))"
    using ends_keys [OF assms(2)] falling_keys [OF assms(2)] zero_least by simp
  ultimately show ?thesis
    using find_exact_item [OF assms(1)] assms(2) zero_least by (simp add: get_item_def)
qed

end

section \<open>Keyed trees are finite maps\<close>

definition keyed_tree :: "('a, 's, 'k :: linorder) keyed \<Rightarrow> ('a, 's) node \<Rightarrow> bool" where
  "keyed_tree K t = (tree_ok (ky_summaries K) t \<and> sorted_keys K (tree_items t))"

definition item_map :: "('a, 's, 'k :: linorder) keyed \<Rightarrow> ('a, 's) node \<Rightarrow> 'k \<rightharpoonup> 'a" where
  "item_map K t = (\<lambda>k. key_at K k (tree_items t))"

lemma key_at_simps [simp]: "key_at K k [] = None" "key_at K k (x # xs) = (if ky_key K x = k then Some x else key_at K k xs)"
  by (simp_all add: key_at_def)

lemma key_at_append: "key_at K k (xs @ ys) = (case key_at K k xs of Some x \<Rightarrow> Some x | None \<Rightarrow> key_at K k ys)"
  by (induction xs) (auto simp: key_at_def)

lemma key_at_None: "key_at K k xs = None \<longleftrightarrow> (\<forall>x\<in>set xs. ky_key K x \<noteq> k)"
  by (auto simp: key_at_def find_None_iff)

lemma key_at_around:
  assumes "sorted_keys K xs" "k' \<noteq> k"
  shows "key_at K k' xs = (case key_at K k' (below K k xs) of Some x \<Rightarrow> Some x | None \<Rightarrow> key_at K k' (above K k xs))"
proof -
  have "key_at K k' (option_list (key_at K k xs)) = None"
    using assms(2) key_at_key [of K k xs] by (auto simp: key_at_None option_list_def split: option.splits)
  then show ?thesis using sorted_split [OF assms(1), of k] by (metis (no_types, lifting) key_at_append option.simps(4))
qed

lemma key_at_below_above: "sorted_keys K xs \<Longrightarrow> key_at K k (below K k xs) = None \<and> key_at K k (above K k xs) = None"
  by (auto simp: key_at_None dest: set_below set_above)

lemma sorted_around:
  assumes "sorted_keys K xs" "\<forall>y\<in>set ys. ky_key K y = k" "sorted_keys K ys"
  shows "sorted_keys K (below K k xs @ ys @ above K k xs)"
proof -
  have "sorted_keys K (below K k xs)" "sorted_keys K (above K k xs)"
    using sorted_split [OF assms(1), of k] assms(1) by (metis sorted_keys_append)+
  then show ?thesis using assms(2,3) set_below [of _ K k xs] set_above [OF assms(1), of _ k]
    by (auto simp: sorted_keys_append) fastforce+
qed

text \<open>The edits of a list with one edit per key.\<close>

definition edit_result :: "('a, 's, 'k :: linorder) keyed \<Rightarrow> ('a, 'k) edit list \<Rightarrow> ('k \<rightharpoonup> 'a) \<Rightarrow> 'k \<rightharpoonup> 'a" where
  "edit_result K es m = (\<lambda>k. case List.find (\<lambda>e. edit_key K e = k) es of
     Some (Insert x) \<Rightarrow> Some x
   | Some (Remove _) \<Rightarrow> None
   | None \<Rightarrow> m k)"

lemma edit_result_Cons: "k \<noteq> edit_key K e \<Longrightarrow> edit_result K (e # es) m k = edit_result K es m k"
  by (auto simp: edit_result_def)

lemma edit_result_cong: "m k = m' k \<Longrightarrow> edit_result K es m k = edit_result K es m' k"
  by (simp add: edit_result_def split: option.split edit.split)

lemma edit_items_keys: "y \<in> set (edit_items e) \<Longrightarrow> ky_key K y = edit_key K e"
  by (cases e) simp_all

lemma merge_edits_spec:
  assumes "sorted_keys K ys" "sorted_wrt (<) (map (edit_key K) es)"
  shows "sorted_keys K (merge_edits K es ys) \<and>
    (\<forall>z\<in>set (merge_edits K es ys). z \<in> set ys \<or> (\<exists>e\<in>set es. ky_key K z = edit_key K e)) \<and>
    (\<lambda>k. key_at K k (merge_edits K es ys)) = edit_result K es (\<lambda>k. key_at K k ys)"
  using assms
proof (induction es arbitrary: ys)
  case (Cons e es)
  let ?k = "edit_key K e" and ?r = "merge_edits K es (above K (edit_key K e) ys)"
  note IH = Cons.IH [OF sorted_above [OF Cons.prems(1)], of ?k]
  have later: "\<forall>e'\<in>set es. ?k < edit_key K e'" using Cons.prems(2) by auto
  have r: "sorted_keys K ?r" "\<forall>z\<in>set ?r. z \<in> set (above K ?k ys) \<or> (\<exists>e\<in>set es. ky_key K z = edit_key K e)"
    and map: "\<And>k. key_at K k ?r = edit_result K es (\<lambda>k. key_at K k (above K ?k ys)) k"
    using IH Cons.prems(2) by (auto dest: fun_cong)
  have big: "\<forall>z\<in>set ?r. ?k < ky_key K z" using r(2) later set_above [OF Cons.prems(1), of _ ?k] by fastforce
  have sb: "sorted_keys K (below K ?k ys)" using sorted_split [OF Cons.prems(1), of ?k] Cons.prems(1) by (metis sorted_keys_append)
  have "sorted_keys K (merge_edits K (e # es) ys)"
  proof -
    have lt: "\<forall>x\<in>set (below K ?k ys). ky_key K x < ?k" using set_below by fast
    have e: "sorted_keys K (edit_items e)" "\<forall>y\<in>set (edit_items e). ky_key K y = ?k"
      by (cases e; simp add: sorted_keys_def)+
    have "\<forall>y\<in>set (edit_items e @ ?r). ?k \<le> ky_key K y" using e(2) big by (auto simp: less_imp_le)
    then have "\<forall>x\<in>set (below K ?k ys). \<forall>y\<in>set (edit_items e @ ?r). ky_key K x < ky_key K y"
      using lt by (meson less_le_trans)
    moreover have "\<forall>x\<in>set (edit_items e). \<forall>y\<in>set ?r. ky_key K x < ky_key K y" using e(2) big by auto
    ultimately show ?thesis using sb r(1) e(1) unfolding merge_edits.simps sorted_keys_append by blast
  qed
  moreover have "\<forall>z\<in>set (merge_edits K (e # es) ys). z \<in> set ys \<or> (\<exists>e\<in>set (e # es). ky_key K z = edit_key K e)"
  proof
    fix z assume "z \<in> set (merge_edits K (e # es) ys)"
    then consider "z \<in> set (below K ?k ys)" | "z \<in> set (edit_items e)" | "z \<in> set ?r" by auto
    then show "z \<in> set ys \<or> (\<exists>e\<in>set (e # es). ky_key K z = edit_key K e)"
    proof cases
      case 3
      then show ?thesis using r(2) set_above [OF Cons.prems(1), of z ?k] by auto
    qed (use set_below [of z K ?k ys] edit_items_keys [of z e K] in auto)
  qed
  moreover have "key_at K k (merge_edits K (e # es) ys) = edit_result K (e # es) (\<lambda>k. key_at K k ys) k" for k
  proof (cases "k = ?k")
    case True
    have "key_at K k ?r = None" using big True by (auto simp: key_at_None)
    with True key_at_below_above [OF Cons.prems(1), of ?k] show ?thesis
      by (cases e) (auto simp: key_at_append edit_result_def)
  next
    case False
    then have "key_at K k (edit_items e) = None" using edit_items_keys [of _ e K] by (auto simp: key_at_None)
    moreover have "edit_result K es m k = m k" if "key_at K k (below K ?k ys) = Some x" for x m
    proof -
      have "k < ?k" using key_at_key [OF that] set_below [of x K ?k ys] by auto
      then have "List.find (\<lambda>e. edit_key K e = k) es = None" using later by (force simp: find_None_iff)
      then show ?thesis by (simp add: edit_result_def)
    qed
    ultimately show ?thesis
      using False map [of k] key_at_around [OF Cons.prems(1) False]
        edit_result_cong [of "\<lambda>k. key_at K k (above K ?k ys)" k "\<lambda>k. key_at K k ys" K es]
      by (cases "key_at K k (below K ?k ys)") (simp_all add: key_at_append edit_result_Cons)
  qed
  ultimately show ?case by blast
qed (simp add: edit_result_def)

lemma insert_items:
  assumes "sorted_keys K xs"
  shows "sorted_keys K (below K (ky_key K x) xs @ x # above K (ky_key K x) xs) \<and>
    (\<lambda>k. key_at K k (below K (ky_key K x) xs @ x # above K (ky_key K x) xs)) = (\<lambda>k. key_at K k xs)(ky_key K x \<mapsto> x)"
proof -
  have "edit_result K [Insert x] m = m(ky_key K x \<mapsto> x)" for m by (auto simp: edit_result_def fun_eq_iff)
  with merge_edits_spec [OF assms, of "[Insert x]"] show ?thesis by simp
qed

lemma remove_items:
  assumes "sorted_keys K xs"
  shows "sorted_keys K (below K k xs @ above K k xs) \<and>
    (\<lambda>k'. key_at K k' (below K k xs @ above K k xs)) = (\<lambda>k'. key_at K k' xs)(k := None)"
proof -
  have "edit_result K [Remove k] m = m(k := None)" for m by (auto simp: edit_result_def fun_eq_iff)
  with merge_edits_spec [OF assms, of "[Remove k]"] show ?thesis by simp
qed

context keyed_laws
begin

lemma keyed_insert:
  assumes "keyed_tree K t" "height t \<le> 15" "length (tree_items t) < 2 ^ 64 - 1"
  shows "\<exists>t'. insert_or_replace K x t = Some (t', item_map K t (ky_key K x)) \<and> keyed_tree K t' \<and>
    item_map K t' = (item_map K t)(ky_key K x \<mapsto> x)"
proof -
  have t: "tree_ok S t" "sorted_keys K (tree_items t)" using assms by (auto simp: keyed_tree_def)
  from wp_insert_or_replace [OF t(1) assms(2,3) t(2), of x] insert_items [OF t(2), of x] show ?thesis
    by (auto simp: wp_iff keyed_tree_def item_map_def grown_def)
qed

lemma keyed_remove:
  assumes "keyed_tree K t" "height t \<le> 15" "length (tree_items t) < 2 ^ 64 - 1"
  shows "\<exists>t'. remove_key K k t = Some (t', item_map K t k) \<and> keyed_tree K t' \<and> item_map K t' = (item_map K t)(k := None)"
proof -
  have t: "tree_ok S t" "sorted_keys K (tree_items t)" using assms by (auto simp: keyed_tree_def)
  from wp_remove_key [OF t(1) assms(2) _ t(2), of k] assms(3) remove_items [OF t(2), of k] show ?thesis
    by (auto simp: wp_iff keyed_tree_def item_map_def grown_def)
qed

lemma keyed_edit:
  assumes "keyed_tree K t" "height t \<le> 15" "distinct (map (edit_key K) es)" "length (tree_items t) + length es < 2 ^ 64"
  shows "\<exists>t' removed. edit_tree K es t = Some (t', removed) \<and> keyed_tree K t' \<and>
    item_map K t' = edit_result K (sort_key (edit_key K) es) (item_map K t)"
proof -
  have t: "tree_ok S t" "sorted_keys K (tree_items t)" using assms by (auto simp: keyed_tree_def)
  have "distinct (map (edit_key K) (sort_key (edit_key K) es))" using assms(3) by (simp add: distinct_map)
  then have "sorted_wrt (<) (map (edit_key K) (sort_key (edit_key K) es))" by (simp add: strict_sorted_iff)
  with merge_edits_spec [OF t(2) this] wp_edit_tree [OF t(1) assms(2,4) t(2)] show ?thesis
    by (auto simp: wp_iff keyed_tree_def item_map_def)
qed

lemma keyed_get: "keyed_tree K t \<Longrightarrow> get_item K k t = item_map K t k"
  by (simp add: keyed_tree_def item_map_def get_item_key)

end

text \<open>C22. A tree of keyed items, kept sorted, is a finite map: none of the operations panics on a tree the
  cursor has room for, each keeps the tree well formed and sorted, and inserting, removing, editing (with one
  edit per key) and getting do on the tree what they do on the map, returning the replaced or removed item.\<close>

theorem keyed_tree_refines:
  assumes "keyed_laws K" "keyed_tree K t" "height t \<le> 15" "length (tree_items t) < 2 ^ 64 - 1"
  shows "(\<exists>t'. insert_or_replace K x t = Some (t', item_map K t (ky_key K x)) \<and> keyed_tree K t' \<and>
      item_map K t' = (item_map K t)(ky_key K x \<mapsto> x)) \<and>
    (\<exists>t'. remove_key K k t = Some (t', item_map K t k) \<and> keyed_tree K t' \<and> item_map K t' = (item_map K t)(k := None)) \<and>
    (distinct (map (edit_key K) es) \<and> length (tree_items t) + length es < 2 ^ 64 \<longrightarrow>
      (\<exists>t' removed. edit_tree K es t = Some (t', removed) \<and> keyed_tree K t' \<and>
        item_map K t' = edit_result K (sort_key (edit_key K) es) (item_map K t))) \<and>
    get_item K k t = item_map K t k"
  using keyed_laws.keyed_insert [OF assms] keyed_laws.keyed_remove [OF assms] keyed_laws.keyed_edit [OF assms(1-3)]
    keyed_laws.keyed_get [OF assms(1,2)] by blast

section \<open>The ordered map\<close>

text \<open>An entry is a pair; its summary and its key are the key, and \<^const>\<open>None\<close> comes before every key.\<close>

definition map_summaries :: "('k \<times> 'v, 'k option) summaries" where
  "map_summaries = \<lparr>sm_zero = None, sm_add = (\<lambda>_ s. s), sm_item = (\<lambda>(k, _). Some k)\<rparr>"

definition map_dimension :: "('k option, 'k option) dimension" where
  "map_dimension = \<lparr>dm_zero = None, dm_add = (\<lambda>_ s. s)\<rparr>"

definition map_entries :: "('k \<times> 'v, 'k option, 'k option) keyed" where
  "map_entries = \<lparr>ky_summaries = map_summaries, ky_dimension = map_dimension, ky_key = (\<lambda>(k, _). Some k)\<rparr>"

type_synonym ('k, 'v) tree_map = "('k \<times> 'v, 'k option) node"

definition tm_new :: "('k :: linorder, 'v) tree_map" where
  "tm_new = tree_new map_summaries"

definition tm_from_ordered_entries :: "('k :: linorder \<times> 'v) list \<Rightarrow> ('k, 'v) tree_map option" where
  "tm_from_ordered_entries entries = from_iter map_summaries entries"

definition tm_get :: "('k :: linorder, 'v) tree_map \<Rightarrow> 'k \<Rightarrow> 'v option" where
  "tm_get t key = (case snd (snd (tree_find map_dimension (ord_cmp (Some key)) BiasLeft t)) of
     Some (k, v) \<Rightarrow> if Some key = Some k then Some v else None
   | None \<Rightarrow> None)"

definition tm_contains_key :: "('k :: linorder, 'v) tree_map \<Rightarrow> 'k \<Rightarrow> bool" where
  "tm_contains_key t key = (tm_get t key \<noteq> None)"

definition tm_insert_or_replace ::
  "'k :: linorder \<Rightarrow> 'v \<Rightarrow> ('k, 'v) tree_map \<Rightarrow> (('k, 'v) tree_map \<times> 'v option) option" where
  "tm_insert_or_replace key val t =
     map_option (\<lambda>(t, old). (t, map_option snd old)) (insert_or_replace map_entries (key, val) t)"

definition tm_insert :: "'k :: linorder \<Rightarrow> 'v \<Rightarrow> ('k, 'v) tree_map \<Rightarrow> ('k, 'v) tree_map option" where
  "tm_insert key val t = map_option fst (insert_or_replace map_entries (key, val) t)"

definition tm_extend :: "('k :: linorder \<times> 'v) list \<Rightarrow> ('k, 'v) tree_map \<Rightarrow> ('k, 'v) tree_map option" where
  "tm_extend entries t = map_option fst (edit_tree map_entries (map Insert entries) t)"

text \<open>\<open>if key.cmp(&cursor.end()) == Equal { cursor.item().unwrap() ... cursor.next() }\<close>.\<close>

definition tm_take ::
  "'k :: linorder \<Rightarrow> ('k \<times> 'v, 'k option, 'k option) cursor \<Rightarrow>
     (('k \<times> 'v, 'k option, 'k option) cursor \<times> ('k \<times> 'v) option) option" where
  "tm_take key c = Option.bind (cursor_end map_dimension c) (\<lambda>e.
     if ord_cmp (Some key) e = Equal then
       Option.bind (cursor_item c) (\<lambda>item. case item of
         None \<Rightarrow> None
       | Some entry \<Rightarrow> map_option (\<lambda>c. (c, Some entry)) (cursor_next map_dimension c))
     else Some (c, None))"

definition tm_remove :: "'k :: linorder \<Rightarrow> ('k, 'v) tree_map \<Rightarrow> (('k, 'v) tree_map \<times> 'v option) option" where
  "tm_remove key t =
     Option.bind (slice map_summaries map_dimension (ord_cmp (Some key)) BiasLeft (cursor_new map_dimension t)) (\<lambda>(c, new_tree).
     Option.bind (tm_take key c) (\<lambda>(c, removed).
     Option.bind (suffix_tree map_summaries map_dimension c) (\<lambda>(c, rest).
     Option.bind (tree_append map_summaries new_tree rest) (\<lambda>new_tree.
     Some (new_tree, map_option snd removed)))))"

text \<open>The function of \<open>update\<close> changes the value and returns a result.\<close>

definition tm_update ::
  "'k :: linorder \<Rightarrow> ('v \<Rightarrow> 'v \<times> 'r) \<Rightarrow> ('k, 'v) tree_map \<Rightarrow> (('k, 'v) tree_map \<times> 'r option) option" where
  "tm_update key f t =
     Option.bind (slice map_summaries map_dimension (ord_cmp (Some key)) BiasLeft (cursor_new map_dimension t)) (\<lambda>(c, new_tree).
     Option.bind (tm_take key c) (\<lambda>(c, entry).
     Option.bind (case entry of
         Some (k, v) \<Rightarrow> map_option (\<lambda>t. (t, Some (snd (f v)))) (tree_push map_summaries (k, fst (f v)) new_tree)
       | None \<Rightarrow> Some (new_tree, None)) (\<lambda>(new_tree, result).
     Option.bind (suffix_tree map_summaries map_dimension c) (\<lambda>(c, rest).
     Option.bind (tree_append map_summaries new_tree rest) (\<lambda>new_tree.
     Some (new_tree, result))))))"

partial_function (option) retain_loop ::
  "('k :: linorder \<Rightarrow> 'v \<Rightarrow> bool) \<Rightarrow> ('k \<times> 'v, 'k option, 'k option) cursor \<Rightarrow> ('k, 'v) tree_map \<Rightarrow> ('k, 'v) tree_map option" where
  "retain_loop predicate c new_map = Option.bind (cursor_item c) (\<lambda>item. case item of
     None \<Rightarrow> Some new_map
   | Some (k, v) \<Rightarrow>
       Option.bind (if predicate k v then tree_push map_summaries (k, v) new_map else Some new_map) (\<lambda>new_map.
       Option.bind (cursor_next map_dimension c) (\<lambda>c. retain_loop predicate c new_map)))"

definition tm_retain ::
  "('k :: linorder \<Rightarrow> 'v \<Rightarrow> bool) \<Rightarrow> ('k, 'v) tree_map \<Rightarrow> ('k, 'v) tree_map option" where
  "tm_retain predicate t = Option.bind (cursor_next map_dimension (cursor_new map_dimension t)) (\<lambda>c.
     retain_loop predicate c tm_new)"

definition tm_first :: "('k, 'v) tree_map \<Rightarrow> ('k \<times> 'v) option option" where
  "tm_first t = tree_first t"

definition tm_last :: "('k, 'v) tree_map \<Rightarrow> ('k \<times> 'v) option option" where
  "tm_last t = tree_last t"

lemma map_entries_simps [simp]:
  "ky_summaries map_entries = map_summaries" "ky_dimension map_entries = map_dimension"
  "ky_key map_entries = (\<lambda>(k, _). Some k)"
  by (simp_all add: map_entries_def)

interpretation entries: keyed_laws "map_entries :: ('k :: linorder \<times> 'v, 'k option, 'k option) keyed"
  rewrites "ky_summaries (map_entries :: ('k \<times> 'v, 'k option, 'k option) keyed) = map_summaries"
    and "ky_dimension (map_entries :: ('k \<times> 'v, 'k option, 'k option) keyed) = map_dimension"
  by (unfold_locales) (auto simp: map_summaries_def map_dimension_def)

definition tm_map :: "('k, 'v) tree_map \<Rightarrow> 'k \<rightharpoonup> 'v" where
  "tm_map t = map_of (tree_items t)"

text \<open>A map the cursor has room for.\<close>

definition tm_ok :: "('k :: linorder, 'v) tree_map \<Rightarrow> bool" where
  "tm_ok t = (keyed_tree map_entries t \<and> height t \<le> 15 \<and> length (tree_items t) < 2 ^ 64 - 1)"

lemma key_at_entries: "key_at map_entries (Some k) xs = map_option (Pair k) (map_of xs k)"
  by (induction xs) auto

lemma tm_map_item: "tm_map t k = map_option snd (item_map map_entries t (Some k))"
  by (simp add: tm_map_def item_map_def key_at_entries option.map_comp comp_def option.map_ident)

lemma sorted_stop:
  assumes "sorted_keys map_entries (xs @ ys)"
  shows "stop_position map_summaries map_dimension BiasLeft xs ys =
    (case ys of (k, _) # _ \<Rightarrow> Some k | [] \<Rightarrow> if xs = [] then None else Some (fst (last xs)))"
proof -
  have "after map_summaries map_dimension None zs = (if zs = [] then None else Some (fst (last zs)))" for zs :: "('a \<times> 'b) list"
    by (induction zs rule: rev_induct) (auto simp: map_summaries_def map_dimension_def)
  then show ?thesis by (auto simp: stop_position_def map_dimension_def map_summaries_def split: list.splits)
qed

lemma tm_take_item:
  assumes c: "cursor_at map_summaries map_dimension (below map_entries (Some key) xs)
      (option_list (key_at map_entries (Some key) xs) @ above map_entries (Some key) xs) c"
    and d: "cu_did_seek c" and s: "sorted_keys map_entries xs"
  shows "tm_take key c = take_item map_entries (Some key) c"
proof -
  let ?b = "below map_entries (Some key) xs"
  let ?ys = "option_list (key_at map_entries (Some key) xs) @ above map_entries (Some key) xs"
  have "?b @ ?ys = xs" using sorted_split [OF s] by metis
  then have "sorted_keys map_entries (?b @ ?ys)" using s by simp
  from sorted_stop [OF this] have e: "cursor_end map_dimension c = Some (case ?ys of (k, _) # _ \<Rightarrow> Some k
      | [] \<Rightarrow> if ?b = [] then None else Some (fst (last ?b)))" using cursor_at_end [OF c d] by simp
  show ?thesis
  proof (cases ?ys)
    case Nil
    have "?b \<noteq> [] \<Longrightarrow> fst (last ?b) < key" using set_below [of "last ?b" map_entries "Some key" xs] by (auto split: prod.splits)
    with Nil e cursor_at_item(1) [OF c d] show ?thesis
      by (auto simp: tm_take_def take_item_def ord_cmp_def first_opt_def)
  next
    case (Cons y ys)
    with e cursor_at_item(1) [OF c d] show ?thesis
      by (cases y) (auto simp: tm_take_def take_item_def ord_cmp_def first_opt_def)
  qed
qed

lemma tm_slice:
  assumes "tm_ok t"
  obtains c u where "slice map_summaries map_dimension (ord_cmp (Some key)) BiasLeft (cursor_new map_dimension t) = Some (c, u)"
    "grown map_summaries 15 (below map_entries (Some key) (tree_items t)) u"
    "cursor_at map_summaries map_dimension (below map_entries (Some key) (tree_items t))
       (option_list (key_at map_entries (Some key) (tree_items t)) @ above map_entries (Some key) (tree_items t)) c"
    "cu_did_seek c"
proof -
  have t: "tree_ok map_summaries t" "height t \<le> 15" "length (tree_items t) < 2 ^ 64" "sorted_keys map_entries (tree_items t)"
    using assms by (auto simp: tm_ok_def keyed_tree_def)
  from entries.wp_slice_key [OF cursor_at_new [OF t(1,2)] _ t(3), of "Some key"] t(4) that show ?thesis by (auto simp: wp_iff)
qed

lemma tm_remove_eq:
  assumes "tm_ok t"
  shows "tm_remove key t = map_option (\<lambda>(t, r). (t, map_option snd r)) (remove_key map_entries (Some key) t)"
proof -
  obtain c u where c: "slice map_summaries map_dimension (ord_cmp (Some key)) BiasLeft (cursor_new map_dimension t) = Some (c, u)"
    "cursor_at map_summaries map_dimension (below map_entries (Some key) (tree_items t))
       (option_list (key_at map_entries (Some key) (tree_items t)) @ above map_entries (Some key) (tree_items t)) c" "cu_did_seek c"
    using tm_slice [OF assms] by metis
  have "sorted_keys map_entries (tree_items t)" using assms by (simp add: tm_ok_def keyed_tree_def)
  from tm_take_item [OF c(2,3) this] c(1) show ?thesis
    by (simp add: tm_remove_def remove_key_def) (auto split: Option.bind_split)
qed

lemma wp_retain_loop:
  assumes "cursor_at map_summaries map_dimension xs ys c" "cu_did_seek c" "grown map_summaries 40 us t" "length (us @ ys) < 2 ^ 64"
  shows "wp (retain_loop p c t) (grown map_summaries 40 (us @ filter (\<lambda>(k, v). p k v) ys))"
  using assms
proof (induction ys arbitrary: xs us c t)
  case Nil
  then show ?case using cursor_at_item(1) [OF Nil(1,2)] by (subst retain_loop.simps) (simp add: first_opt_def)
next
  case (Cons y ys)
  obtain k v where y: "y = (k, v)" by (cases y)
  obtain c' where c': "cursor_next map_dimension c = Some c'" "cursor_at map_summaries map_dimension (xs @ [y]) ys c'" "cu_did_seek c'"
    using entries.wp_cursor_next [OF Cons.prems(1)] Cons.prems(2) by (auto simp: wp_iff)
  obtain t' where t': "(if p k v then tree_push map_summaries (k, v) t else Some t) = Some t'"
      "grown map_summaries 40 (us @ filter (\<lambda>(k, v). p k v) [y]) t'"
    using entries.wp_push_grown [OF Cons.prems(3), of "(k, v)"] Cons.prems(3,4) y by (cases "p k v") (auto simp: wp_iff)
  have "wp (retain_loop p c' t') (grown map_summaries 40 ((us @ filter (\<lambda>(k, v). p k v) [y]) @ filter (\<lambda>(k, v). p k v) ys))"
    using Cons.prems(4) by (intro Cons.IH [OF c'(2,3) t'(2)]) simp
  moreover have "(us @ filter (\<lambda>(k, v). p k v) [y]) @ filter (\<lambda>(k, v). p k v) ys = us @ filter (\<lambda>(k, v). p k v) (y # ys)" by simp
  ultimately show ?case using cursor_at_item(1) [OF Cons.prems(1,2)] c'(1) t'(1) y
    by (subst retain_loop.simps) (simp add: first_opt_def)
qed

lemma tm_get_map: "tm_ok t \<Longrightarrow> tm_get t k = tm_map t k"
proof -
  assume "tm_ok t"
  then have t: "tree_ok map_summaries t" "sorted_keys map_entries (tree_items t)" by (auto simp: tm_ok_def keyed_tree_def)
  let ?xs = "tree_items t" and ?k = "Some k"
  have lo: "\<forall>x\<in>set ?xs. dm_zero map_dimension \<le> ky_key map_entries x" by (simp add: map_dimension_def)
  have f: "falling (ord_cmp ?k) (ends map_summaries map_dimension (dm_zero map_dimension) ?xs)"
    using entries.ends_keys [OF t(2) lo] entries.falling_keys [OF t(2)] by simp
  have "snd (snd (tree_find map_dimension (ord_cmp ?k) BiasLeft t)) = first_opt (drop (length (below map_entries ?k ?xs)) ?xs)"
    using entries.tree_find_split [OF t(1) f, of BiasLeft] entries.seek_split_keys [OF t(2) lo, of ?k] by simp
  moreover have "drop (length (below map_entries ?k ?xs)) ?xs = option_list (key_at map_entries ?k ?xs) @ above map_entries ?k ?xs"
    using sorted_split [OF t(2), of ?k] by (metis append_eq_conv_conj)
  moreover have "first_opt (above map_entries ?k ?xs) = Some x \<Longrightarrow> fst x \<noteq> k" for x
    using set_above [OF t(2), of x ?k] by (cases x) (auto simp: first_opt_def split: list.splits)
  ultimately show ?thesis
    by (auto simp: tm_get_def tm_map_def key_at_entries option_list_def first_opt_def split: option.splits list.splits)
qed

lemma tm_map_upd:
  assumes "item_map map_entries t' = (item_map map_entries t)(Some k := map_option (Pair k) r)"
  shows "tm_map t' = (tm_map t)(k := r)"
  using assms by (auto simp: tm_map_item fun_eq_iff option.map_comp comp_def option.map_ident)

lemma filter_entries:
  assumes "sorted_keys map_entries xs"
  shows "sorted_keys map_entries (filter (\<lambda>(k, v). p k v) xs) \<and> map_of (filter (\<lambda>(k, v). p k v) xs) k =
      (case map_of xs k of Some v \<Rightarrow> if p k v then Some v else None | None \<Rightarrow> None)"
  using assms
proof (induction xs)
  case (Cons x xs)
  obtain k' v where x: "x = (k', v)" by (cases x)
  have lt: "\<forall>y\<in>set xs. k' < fst y" using Cons.prems x by (auto simp: sorted_keys_Cons)
  then have "map_of xs k' = None" by (auto simp: map_of_eq_None_iff)
  with Cons x lt show ?case by (auto simp: sorted_keys_Cons)
qed (simp add: sorted_keys_def)

text \<open>The ordered map behaves as a finite map: getting, inserting, removing, updating and retaining do on the
  tree what they do on the map it stands for, never panic while the cursor has room for the tree, keep
  it sorted by the keys, and removing or replacing returns the old value.\<close>

lemma tree_map_refines:
  assumes t: "tm_ok t"
  shows "tm_get t k = tm_map t k \<and>
    (\<exists>t'. tm_insert_or_replace k v t = Some (t', tm_map t k) \<and> keyed_tree map_entries t' \<and> tm_map t' = (tm_map t)(k \<mapsto> v)) \<and>
    (\<exists>t'. tm_remove k t = Some (t', tm_map t k) \<and> keyed_tree map_entries t' \<and> tm_map t' = (tm_map t)(k := None)) \<and>
    (\<exists>t'. tm_retain p t = Some t' \<and> keyed_tree map_entries t' \<and>
      tm_map t' = (\<lambda>k. case tm_map t k of Some v \<Rightarrow> if p k v then Some v else None | None \<Rightarrow> None))"
proof -
  have ok: "keyed_tree map_entries t" "height t \<le> 15" "length (tree_items t) < 2 ^ 64 - 1" using t by (auto simp: tm_ok_def)
  have get: "\<exists>t'. tm_insert_or_replace k v t = Some (t', tm_map t k) \<and> keyed_tree map_entries t' \<and> tm_map t' = (tm_map t)(k \<mapsto> v)"
    using entries.keyed_insert [OF ok, of "(k, v)"] tm_map_upd [of _ t k "Some v"]
    by (auto simp: tm_insert_or_replace_def tm_map_item)
  have rem: "\<exists>t'. tm_remove k t = Some (t', tm_map t k) \<and> keyed_tree map_entries t' \<and> tm_map t' = (tm_map t)(k := None)"
    using entries.keyed_remove [OF ok, of "Some k"] tm_map_upd [of _ t k None]
    by (auto simp: tm_remove_eq [OF t] tm_map_item)
  have s: "tree_ok map_summaries t" "sorted_keys map_entries (tree_items t)" using ok(1) by (auto simp: keyed_tree_def)
  obtain c where c: "cursor_next map_dimension (cursor_new map_dimension t) = Some c" "cu_did_seek c"
      "cursor_at map_summaries map_dimension [] (tree_items t) c"
    using entries.wp_cursor_next [OF cursor_at_new [OF s(1) ok(2)]] by (auto simp: wp_iff cursor_new_def)
  have "wp (retain_loop p c tm_new) (grown map_summaries 40 ([] @ filter (\<lambda>(k, v). p k v) (tree_items t)))"
    using ok(3) grown_new by (intro wp_retain_loop [OF c(3,2)]) (auto simp: tm_new_def)
  then obtain t' where t': "tm_retain p t = Some t'" "tree_ok map_summaries t'" "tree_items t' = filter (\<lambda>(k, v). p k v) (tree_items t)"
    using c(1) by (auto simp: tm_retain_def wp_iff grown_def)
  have "sorted_keys map_entries (filter (\<lambda>(k, v). p k v) xs) \<and> map_of (filter (\<lambda>(k, v). p k v) xs) k =
      (case map_of xs k of Some v \<Rightarrow> if p k v then Some v else None | None \<Rightarrow> None)"
    if "sorted_keys map_entries xs" for xs :: "('a \<times> 'b) list" and k
    using that by (rule filter_entries)
  with t' s(2) have "keyed_tree map_entries t' \<and>
      tm_map t' = (\<lambda>k. case tm_map t k of Some v \<Rightarrow> if p k v then Some v else None | None \<Rightarrow> None)"
    by (auto simp: keyed_tree_def tm_map_def)
  with t'(1) get rem tm_get_map [OF t] show ?thesis by blast
qed

definition example_map :: "(nat, string) tree_map" where
  "example_map = the (tm_from_ordered_entries (map (\<lambda>k. (k, nat_to_string k)) [4..<40]))"

lemma example_map_items: "tree_items example_map = map (\<lambda>k. (k, nat_to_string k)) [4..<40]"
    "tree_ok map_summaries example_map" "height example_map \<le> 15" "map_of (map (\<lambda>k. (k, nat_to_string k)) [4..<40]) 17 = Some ''17''"
  by code_simp+

lemma example_map_ok: "tm_ok example_map" "tm_map example_map 17 = Some ''17''"
proof -
  have "sorted_keys map_entries (tree_items example_map)"
    by (simp add: example_map_items(1) sorted_keys_def sorted_wrt_map del: upt_conv_Cons upt_rec_numeral)
  then show "tm_ok example_map" "tm_map example_map 17 = Some ''17''"
    using example_map_items by (simp_all add: tm_ok_def keyed_tree_def tm_map_def del: upt_conv_Cons upt_rec_numeral)
qed

lemma tree_map_refines_witness:
  "tm_get example_map 17 = Some ''17'' \<and> (\<exists>t'. tm_remove 17 example_map = Some (t', Some ''17'') \<and> tm_map t' 17 = None)"
  using tree_map_refines [OF example_map_ok(1), of 17 "''x''" "\<lambda>_ _. True"] example_map_ok(2) by auto

theorem keyed_tree_refines_witness:
  "\<exists>t'. insert_or_replace map_entries (17, ''x'') example_map = Some (t', Some (17, ''17'')) \<and> keyed_tree map_entries t'"
proof -
  have ok: "keyed_tree map_entries example_map" "height example_map \<le> 15" "length (tree_items example_map) < 2 ^ 64 - 1"
    using example_map_ok(1) by (auto simp: tm_ok_def)
  have "item_map map_entries example_map (Some 17) = Some (17, ''17'')"
    using example_map_ok(2) by (simp add: item_map_def key_at_entries tm_map_def)
  with keyed_tree_refines [OF entries.keyed_laws_axioms ok, of "(17, ''x'')" None "[]"] show ?thesis by auto
qed

end
