(* ===== verification/Locator.thy ===== *)
theory Locator
  imports Prelude "HOL-Library.List_Lexorder"
begin

text \<open>
  Locators (\<open>crates/text/src/locator.rs\<close>), the identifiers by which the fragments of a buffer are
  ordered: lists of 64-bit numbers compared lexicographically, with \<open>between\<close> making a new one
  between two others. The loop of \<open>between\<close> runs over two endless sequences, one padded with the
  least number and one with the greatest; it is a recursion on what is left of the two lists and
  stops at the latest when both are used up.
\<close>

type_synonym locator = "u64 list"

definition locator_min :: locator where
  "locator_min = [0]"

definition locator_max :: locator where
  "locator_max = [- 1]"

text \<open>\<open>assign\<close> resizes to the length of the other and copies it over.\<close>

definition locator_assign :: "locator \<Rightarrow> locator \<Rightarrow> locator" where
  "locator_assign other self =
     (let self = take (length other) self @ replicate (length other - length self) 0
      in map (\<lambda>(_, b). b) (zip self other))"

definition saturating_sub :: "u64 \<Rightarrow> u64 \<Rightarrow> u64" where
  "saturating_sub r l = (if l \<le> r then r - l else 0)"

definition mid_point :: "u64 \<Rightarrow> u64 \<Rightarrow> u64" where
  "mid_point l r = l + drop_bit 48 (saturating_sub r l)"

definition next_or :: "u64 \<Rightarrow> locator \<Rightarrow> u64" where
  "next_or pad xs = (case xs of x # _ \<Rightarrow> x | [] \<Rightarrow> pad)"

function between_loop :: "locator \<Rightarrow> locator \<Rightarrow> locator" where
  "between_loop ls rs =
     (let l = next_or 0 ls; mid = mid_point l (next_or (- 1) rs) in
      if mid > l then [mid] else mid # between_loop (tl ls) (tl rs))"
  by pat_completeness auto

lemma unat_drop_48: "unat (drop_bit 48 (w :: u64)) = unat w div 2 ^ 48"
  unfolding unat_drop_bit_eq by (rule drop_bit_eq_div)

lemma unat_less_64: "unat (w :: u64) < 2 ^ 64"
  using unsigned_less [of w] by simp

lemma unat_max_64: "unat (- 1 :: u64) = 2 ^ 64 - 1"
  by (simp add: unsigned_minus_1_eq_mask mask_eq_exp_minus_1)

lemma mid_of_padding: "0 < mid_point 0 (- 1)"
proof -
  have "unat (drop_bit 48 (- 1 :: u64)) = 65535" by (simp only: unat_drop_48 unat_max_64) simp
  then have "0 < drop_bit 48 (- 1 :: u64)" by (metis unat_0 unat_eq_0 word_neq_0_conv zero_neq_numeral)
  then show ?thesis by (simp only: mid_point_def saturating_sub_def) simp
qed

termination between_loop
proof (relation "measure (\<lambda>(ls, rs). length ls + length rs)")
  fix ls rs and l mid :: u64 assume "l = next_or 0 ls" "mid = mid_point l (next_or (- 1) rs)" "\<not> l < mid"
  then have "ls \<noteq> [] \<or> rs \<noteq> []" using mid_of_padding by (auto simp: next_or_def)
  then show "((tl ls, tl rs), ls, rs) \<in> measure (\<lambda>(ls, rs). length ls + length rs)"
    by (cases ls; cases rs) auto
qed simp

declare between_loop.simps [simp del]

definition between :: "locator \<Rightarrow> locator \<Rightarrow> locator" where
  "between lhs rhs = between_loop lhs rhs"

section \<open>The midpoint\<close>

lemma drop_bit_48_less: "(w :: u64) \<noteq> 0 \<Longrightarrow> drop_bit 48 w < w"
proof -
  assume "w \<noteq> 0"
  then have "unat w div 2 ^ 48 < unat w" by (intro div_less_dividend) (auto simp: unat_gt_0)
  then show ?thesis by (simp add: word_less_nat_alt unat_drop_48 del: drop_bit_eq_div)
qed

lemma mid_ge: "l \<le> mid_point l r"
proof (cases "l \<le> r")
  case True
  have "unat (drop_bit 48 (r - l)) \<le> unat (r - l)" by (simp only: unat_drop_48 div_le_dividend)
  moreover have "unat (r - l) = unat r - unat l" using True by (simp add: unat_sub)
  ultimately have "unat l + unat (drop_bit 48 (r - l)) < 2 ^ 64" using unat_less_64 [of r] True
    by (simp add: word_le_nat_alt)
  with True show ?thesis by (simp add: mid_point_def saturating_sub_def word_le_nat_alt unat_word_ariths)
qed (simp add: mid_point_def saturating_sub_def)

lemma mid_less: "l < r \<Longrightarrow> mid_point l r < r"
proof -
  assume lr: "l < r"
  have "drop_bit 48 (r - l) < r - l" using lr by (intro drop_bit_48_less) auto
  then have "unat (drop_bit 48 (r - l)) < unat (r - l)" by (simp add: word_less_nat_alt)
  moreover have "unat (r - l) = unat r - unat l" using lr by (simp add: unat_sub less_imp_le)
  ultimately have "unat l + unat (drop_bit 48 (r - l)) < unat r" by simp
  moreover from this have "unat l + unat (drop_bit 48 (r - l)) < 2 ^ 64" using unat_less_64 [of r] by simp
  ultimately show ?thesis using lr
    by (simp add: mid_point_def saturating_sub_def word_less_nat_alt unat_word_ariths less_imp_le word_le_nat_alt)
qed

lemma mid_same: "r \<le> l \<Longrightarrow> mid_point l r = l"
  by (auto simp: mid_point_def saturating_sub_def)

section \<open>The loop\<close>

lemma between_Cons: "\<exists>m zs. between_loop ls rs = m # zs"
  by (subst between_loop.simps) (simp add: Let_def)

lemma between_greater: "ls < between_loop ls rs"
proof (induction ls rs rule: between_loop.induct)
  case (1 ls rs)
  let ?l = "next_or 0 ls" and ?m = "mid_point (next_or 0 ls) (next_or (- 1) rs)"
  show ?case
  proof (cases "?m > ?l")
    case True
    then show ?thesis by (subst between_loop.simps) (cases ls; simp add: Let_def next_or_def)
  next
    case False
    then have "?m = ?l" using mid_ge [of ?l "next_or (- 1) rs"] by simp
    with 1 False show ?thesis
      by (subst between_loop.simps) (cases ls; simp add: Let_def next_or_def)
  qed
qed

lemma between_last: "last (between_loop ls rs) \<noteq> 0"
proof (induction ls rs rule: between_loop.induct)
  case (1 ls rs)
  obtain m zs where "between_loop (tl ls) (tl rs) = m # zs" using between_Cons by blast
  with 1 show ?case by (subst between_loop.simps) (auto simp: Let_def)
qed

lemma between_length: "length (between_loop ls rs) \<le> max (length ls) (length rs) + 1"
proof (induction ls rs rule: between_loop.induct)
  case (1 ls rs)
  show ?case
  proof (cases "ls = [] \<and> rs = []")
    case True
    then show ?thesis using mid_of_padding by (subst between_loop.simps) (simp add: Let_def next_or_def)
  next
    case False
    then have "max (length (tl ls)) (length (tl rs)) + 1 \<le> max (length ls) (length rs)"
      by (cases ls; cases rs) auto
    with 1 [OF refl refl] show ?thesis by (subst between_loop.simps) (auto simp: Let_def simp del: length_tl)
  qed
qed

lemma between_less: "ls < rs \<Longrightarrow> rs \<noteq> [] \<Longrightarrow> last rs \<noteq> 0 \<Longrightarrow> between_loop ls rs < rs"
proof (induction ls rs rule: between_loop.induct)
  case (1 ls rs)
  obtain r rs' where rs: "rs = r # rs'" using 1 by (cases rs) auto
  let ?l = "next_or 0 ls" and ?m = "mid_point (next_or 0 ls) r"
  have le: "?l \<le> r" using 1(2) rs by (cases ls) (auto simp: next_or_def)
  have step: "between_loop ls rs = (if ?m > ?l then [?m] else ?m # between_loop (tl ls) rs')"
    using rs by (subst between_loop.simps) (simp add: Let_def next_or_def)
  show ?case
  proof (cases "?l < r")
    case True
    then show ?thesis using mid_less [OF True] step rs by simp
  next
    case False
    then have eq: "?l = r" using le by simp
    then have m: "?m = r" using mid_same by simp
    have "tl ls < rs'" "rs' \<noteq> []"
      using 1(2,4) rs eq by (cases ls; cases rs'; auto simp: next_or_def)+
    with 1(1) [OF refl refl] 1(4) rs eq m step show ?thesis by (simp add: next_or_def)
  qed
qed

text \<open>C30. A locator made between two others lies strictly between them when the right one does not end in
  zero, and does not end in zero itself, so that there is always room for another; it is at most
  one longer than the longer of the two, and it is beyond the left one in any case.\<close>

theorem between_orders:
  "lhs < between lhs rhs \<and> last (between lhs rhs) \<noteq> 0 \<and> between lhs rhs \<noteq> [] \<and>
   length (between lhs rhs) \<le> max (length lhs) (length rhs) + 1 \<and>
   (lhs < rhs \<and> last rhs \<noteq> 0 \<longrightarrow> between lhs rhs < rhs)"
proof -
  have "lhs < rhs \<Longrightarrow> rhs \<noteq> []" by auto
  then show ?thesis using between_greater between_last between_length between_less between_Cons [of lhs rhs]
    unfolding between_def by (metis list.distinct(1))
qed

theorem between_orders_witness:
  "locator_min < between locator_min locator_max \<and> between locator_min locator_max < locator_max"
  using between_orders [of locator_min locator_max] by (simp add: locator_min_def locator_max_def word_less_nat_alt unat_max_64)

end
