(* ===== verification/UndoMap.thy ===== *)
theory UndoMap
  imports TreeMap Clock
begin

text \<open>
  The undo map of a buffer (\<open>crates/text/src/undo_map.rs\<close>): how often each edit was undone, as told by
  each undo operation. It is a sum tree of entries keyed by the edit and the undo; the keys are
  their own summaries, added by taking the larger one. An edit is undone when the largest of its
  counts is odd, so that replicas agree whatever the order the undo operations reach them in.
\<close>

section \<open>Entries\<close>

datatype undo_key = UndoKey (uk_edit: lamport) (uk_undo: lamport)

text \<open>The derived order compares the fields in their order.\<close>

instantiation undo_key :: linorder
begin

definition less_eq_undo_key :: "undo_key \<Rightarrow> undo_key \<Rightarrow> bool" where
  "less_eq_undo_key a b = (uk_edit a < uk_edit b \<or> uk_edit a = uk_edit b \<and> uk_undo a \<le> uk_undo b)"

definition less_undo_key :: "undo_key \<Rightarrow> undo_key \<Rightarrow> bool" where
  "less_undo_key a b = (uk_edit a < uk_edit b \<or> uk_edit a = uk_edit b \<and> uk_undo a < uk_undo b)"

instance
  by standard (auto simp: less_eq_undo_key_def less_undo_key_def undo_key.expand)

end

record undo_entry =
  ue_key :: undo_key
  ue_count :: u32

definition undo_zero :: undo_key where
  "undo_zero = UndoKey lamport_MIN lamport_MIN"

definition undo_summaries :: "(undo_entry, undo_key) summaries" where
  "undo_summaries = \<lparr>sm_zero = undo_zero, sm_add = max, sm_item = ue_key\<rparr>"

definition undo_dimension :: "(undo_key, undo_key) dimension" where
  "undo_dimension = \<lparr>dm_zero = undo_zero, dm_add = max\<rparr>"

definition undo_keyed :: "(undo_entry, undo_key, undo_key) keyed" where
  "undo_keyed = \<lparr>ky_summaries = undo_summaries, ky_dimension = undo_dimension, ky_key = ue_key\<rparr>"

type_synonym undo_map = "(undo_entry, undo_key) node"

section \<open>Operations\<close>

text \<open>The counts of an operation are a hash map: its entries in some order, one for each edit.\<close>

record undo_operation =
  uo_timestamp :: lamport
  uo_version :: global
  uo_counts :: "(lamport \<times> u32) list"

definition undo_edits :: "undo_operation \<Rightarrow> (undo_entry, undo_key) edit list" where
  "undo_edits undo = map (\<lambda>(edit_id, count).
     Insert \<lparr>ue_key = UndoKey edit_id (uo_timestamp undo), ue_count = count\<rparr>) (uo_counts undo)"

definition um_insert :: "undo_operation \<Rightarrow> undo_map \<Rightarrow> undo_map option" where
  "um_insert undo t = map_option fst (edit_tree undo_keyed (undo_edits undo) t)"

text \<open>The loop over the entries of an edit, taking the largest of the counts that count.\<close>

partial_function (option) undo_loop ::
  "(lamport \<Rightarrow> bool) \<Rightarrow> lamport \<Rightarrow> (undo_entry, undo_key, undo_key) cursor \<Rightarrow> u32 \<Rightarrow> u32 option" where
  "undo_loop counted edit_id c undo_count =
     Option.bind (cursor_iter undo_dimension c) (\<lambda>(c, item). case item of
       None \<Rightarrow> Some undo_count
     | Some entry \<Rightarrow>
         if uk_edit (ue_key entry) \<noteq> edit_id then Some undo_count
         else undo_loop counted edit_id c
           (if counted (uk_undo (ue_key entry)) then max undo_count (ue_count entry) else undo_count))"

definition largest_count :: "(lamport \<Rightarrow> bool) \<Rightarrow> lamport \<Rightarrow> undo_map \<Rightarrow> u32 option" where
  "largest_count counted edit_id t =
     Option.bind (seek undo_dimension (ord_cmp (UndoKey edit_id lamport_MIN)) BiasLeft (cursor_new undo_dimension t))
       (\<lambda>(c, _). undo_loop counted edit_id c 0)"

definition undo_count :: "undo_map \<Rightarrow> lamport \<Rightarrow> u32 option" where
  "undo_count t edit_id = largest_count (\<lambda>_. True) edit_id t"

definition is_undone :: "undo_map \<Rightarrow> lamport \<Rightarrow> bool option" where
  "is_undone t edit_id = map_option (\<lambda>n. n mod 2 = 1) (undo_count t edit_id)"

definition was_undone :: "undo_map \<Rightarrow> lamport \<Rightarrow> global \<Rightarrow> bool option" where
  "was_undone t edit_id version = map_option (\<lambda>n. n mod 2 = 1) (largest_count (observed version) edit_id t)"

section \<open>The entries as a map\<close>

lemma undo_keyed_simps [simp]:
  "ky_summaries undo_keyed = undo_summaries" "ky_dimension undo_keyed = undo_dimension" "ky_key undo_keyed = ue_key"
  by (simp_all add: undo_keyed_def)

lemma lamport_MIN_least [simp]: "lamport_MIN \<le> t"
  by (auto simp: less_eq_lamport_def lamport_le_def lamport_MIN_def word_gt_0)

lemma undo_zero_least: "undo_zero \<le> k"
  using le_imp_less_or_eq [OF lamport_MIN_least] by (auto simp: less_eq_undo_key_def undo_zero_def)

interpretation undos: keyed_laws undo_keyed
  rewrites "ky_summaries undo_keyed = undo_summaries" and "ky_dimension undo_keyed = undo_dimension"
  by unfold_locales
    (auto simp: undo_summaries_def undo_dimension_def undo_zero_least max.assoc max_absorb2)

definition um_ok :: "undo_map \<Rightarrow> bool" where
  "um_ok t = (keyed_tree undo_keyed t \<and> height t \<le> 15 \<and> length (tree_items t) < 2 ^ 64)"

definition um_counts :: "undo_map \<Rightarrow> lamport \<times> lamport \<rightharpoonup> u32" where
  "um_counts t = (\<lambda>(e, u). map_option ue_count (item_map undo_keyed t (UndoKey e u)))"

definition counts_of :: "(lamport \<Rightarrow> bool) \<Rightarrow> lamport \<Rightarrow> (lamport \<times> lamport \<rightharpoonup> u32) \<Rightarrow> u32 set" where
  "counts_of counted e m = {n. \<exists>u. counted u \<and> m (e, u) = Some n}"

lemma key_at_iff: "sorted_keys K xs \<Longrightarrow> key_at K k xs = Some x \<longleftrightarrow> x \<in> set xs \<and> ky_key K x = k"
  by (induction xs) (auto simp: key_at_def sorted_keys_Cons)

lemma undo_prefix:
  assumes "sorted_keys undo_keyed ys" "\<forall>y\<in>set ys. e \<le> uk_edit (ue_key y)"
  shows "takeWhile (\<lambda>y. uk_edit (ue_key y) = e) ys = filter (\<lambda>y. uk_edit (ue_key y) = e) ys"
  using assms
proof (induction ys)
  case (Cons y ys)
  have "uk_edit (ue_key y) \<noteq> e \<Longrightarrow> z \<in> set ys \<Longrightarrow> uk_edit (ue_key z) \<noteq> e" for z
    using Cons.prems by (auto simp: sorted_keys_Cons less_undo_key_def)
  with Cons show ?case by (auto simp: sorted_keys_Cons filter_empty_conv)
qed simp

lemma wp_undo_loop:
  assumes "cursor_at undo_summaries undo_dimension xs ys c"
  shows "undo_loop counted e c n = Some (foldl max n (map ue_count
    (filter (\<lambda>y. counted (uk_undo (ue_key y))) (takeWhile (\<lambda>y. uk_edit (ue_key y) = e) ys))))"
  using assms
proof (induction ys arbitrary: xs c n)
  case Nil
  then obtain c' where "cursor_iter undo_dimension c = Some (c', None)"
    using undos.wp_cursor_iter [OF Nil] by (auto simp: wp_iff first_opt_def)
  then show ?case by (subst undo_loop.simps) simp
next
  case (Cons y ys)
  then obtain c' where "cursor_iter undo_dimension c = Some (c', Some y)"
      "cursor_at undo_summaries undo_dimension (xs @ [y]) ys c'"
    using undos.wp_cursor_iter [OF Cons.prems] by (auto simp: wp_iff first_opt_def)
  with Cons.IH [of "xs @ [y]" c'] show ?case by (subst undo_loop.simps) simp
qed

lemma foldl_max: "foldl max n ns = Max (insert n (set ns))"
proof (induction ns arbitrary: n)
  case (Cons m ns)
  have "Max (insert n (insert m (set ns))) = Max (insert (max n m) (set ns))"
    by (cases "set ns = {}") (simp_all add: max.assoc)
  with Cons show ?case by simp
qed simp

lemma largest_count_entries:
  assumes "um_ok t"
  shows "largest_count counted e t = Some (foldl max 0 (map ue_count
    (filter (\<lambda>y. counted (uk_undo (ue_key y))) (filter (\<lambda>y. uk_edit (ue_key y) = e) (tree_items t)))))"
proof -
  let ?xs = "tree_items t" and ?k = "UndoKey e lamport_MIN"
  let ?ys = "option_list (key_at undo_keyed ?k ?xs) @ above undo_keyed ?k ?xs"
  have t: "tree_ok undo_summaries t" "height t \<le> 15" "length ?xs < 2 ^ 64" and s: "sorted_keys undo_keyed ?xs"
    using assms by (auto simp: um_ok_def keyed_tree_def)
  obtain c f where c: "seek undo_dimension (ord_cmp ?k) BiasLeft (cursor_new undo_dimension t) = Some (c, f)"
      "cursor_at undo_summaries undo_dimension (below undo_keyed ?k ?xs) ?ys c"
    using undos.wp_seek_key [OF t, of ?k] s by (auto simp: wp_iff)
  have split: "?xs = below undo_keyed ?k ?xs @ ?ys" by (rule sorted_split [OF s])
  have before: "filter (\<lambda>y. uk_edit (ue_key y) = e) (below undo_keyed ?k ?xs) = []"
  proof -
    have "uk_edit (ue_key y) < e" if "y \<in> set (below undo_keyed ?k ?xs)" for y
      using set_below [OF that] leD [OF lamport_MIN_least] by (auto simp: less_undo_key_def)
    then show ?thesis by (fastforce simp: filter_empty_conv)
  qed
  have ge: "\<forall>y\<in>set ?ys. e \<le> uk_edit (ue_key y)"
    using key_at_key [of undo_keyed ?k ?xs] set_above [OF s, of _ ?k]
    by (fastforce simp: option_list_def less_undo_key_def split: option.splits)
  have "sorted_keys undo_keyed ?ys" using s split by (metis sorted_keys_append)
  from undo_prefix [OF this ge] have "takeWhile (\<lambda>y. uk_edit (ue_key y) = e) ?ys = filter (\<lambda>y. uk_edit (ue_key y) = e) ?xs"
    using split before by (metis append_Nil filter_append)
  with c wp_undo_loop [OF c(2), of counted e 0] show ?thesis by (simp add: largest_count_def)
qed

lemma largest_count_max:
  assumes "um_ok t"
  shows "largest_count counted e t = Some (Max (insert 0 (counts_of counted e (um_counts t))))"
proof -
  have s: "sorted_keys undo_keyed (tree_items t)" using assms by (simp add: um_ok_def keyed_tree_def)
  have "um_counts t (e, u) = Some n \<longleftrightarrow> (\<exists>y\<in>set (tree_items t). ue_key y = UndoKey e u \<and> ue_count y = n)" for u n
    by (auto simp: um_counts_def item_map_def key_at_iff [OF s])
  then have "counts_of counted e (um_counts t) = set (map ue_count
      (filter (\<lambda>y. counted (uk_undo (ue_key y))) (filter (\<lambda>y. uk_edit (ue_key y) = e) (tree_items t))))"
    by (auto simp: counts_of_def image_iff) (metis undo_key.collapse)+
  then show ?thesis by (simp add: largest_count_entries [OF assms] foldl_max)
qed

text \<open>What an operation adds.\<close>

definition undo_told :: "undo_operation \<Rightarrow> lamport \<times> lamport \<rightharpoonup> u32" where
  "undo_told undo = (\<lambda>(e, u). if u = uo_timestamp undo then map_of (uo_counts undo) e else None)"

lemma undo_edit_key: "map (edit_key undo_keyed) (undo_edits undo) = map (\<lambda>e. UndoKey e (uo_timestamp undo)) (map fst (uo_counts undo))"
  by (auto simp: undo_edits_def)

lemma find_sort_key:
  assumes "distinct (map f es)"
  shows "List.find (\<lambda>e. f e = k) (sort_key f es) = List.find (\<lambda>e. f e = k) es"
proof -
  have inj: "inj_on f (set es)" using assms by (simp add: distinct_map)
  have hit: "List.find (\<lambda>e. f e = k) zs = Some z \<longleftrightarrow> z \<in> set zs \<and> f z = k" if "inj_on f (set zs)" for zs z
    using that by (induction zs) (auto simp: inj_on_def)
  have "List.find (\<lambda>e. f e = k) (sort_key f es) = Some z \<longleftrightarrow> List.find (\<lambda>e. f e = k) es = Some z" for z
    using hit [of es] hit [of "sort_key f es"] inj by simp
  then show ?thesis by (cases "List.find (\<lambda>e. f e = k) es") auto
qed

lemma find_undo_edit:
  "List.find (\<lambda>e. edit_key undo_keyed e = UndoKey e' u) (undo_edits undo) =
     map_option (\<lambda>n. Insert \<lparr>ue_key = UndoKey e' u, ue_count = n\<rparr>) (undo_told undo (e', u))"
proof -
  have "List.find (\<lambda>e. edit_key undo_keyed e = UndoKey e' u)
      (map (\<lambda>(e, n). Insert \<lparr>ue_key = UndoKey e v, ue_count = n\<rparr>) counts) =
    map_option (\<lambda>n. Insert \<lparr>ue_key = UndoKey e' u, ue_count = n\<rparr>) (if u = v then map_of counts e' else None)" for v counts
    by (induction counts) auto
  then show ?thesis by (simp add: undo_edits_def undo_told_def)
qed

lemma um_insert_told:
  assumes "um_ok t" "distinct (map fst (uo_counts undo))" "length (tree_items t) + length (uo_counts undo) < 2 ^ 64"
  shows "\<exists>t'. um_insert undo t = Some t' \<and> keyed_tree undo_keyed t' \<and> um_counts t' = um_counts t ++ undo_told undo"
proof -
  have d: "distinct (map (edit_key undo_keyed) (undo_edits undo))"
    using assms(2) unfolding undo_edit_key by (simp add: distinct_map inj_on_def)
  have t: "keyed_tree undo_keyed t" "height t \<le> 15" using assms(1) by (auto simp: um_ok_def)
  obtain t' removed where t': "edit_tree undo_keyed (undo_edits undo) t = Some (t', removed)" "keyed_tree undo_keyed t'"
      "item_map undo_keyed t' = edit_result undo_keyed (sort_key (edit_key undo_keyed) (undo_edits undo)) (item_map undo_keyed t)"
    using undos.keyed_edit [OF t d] assms(3) by (auto simp: undo_edits_def)
  have "um_counts t' (e, u) = (um_counts t ++ undo_told undo) (e, u)" for e u
    by (simp add: um_counts_def t'(3) edit_result_def find_sort_key [OF d] find_undo_edit map_add_def split: option.splits)
  with t' show ?thesis by (auto simp: um_insert_def fun_eq_iff)
qed

section \<open>What the map tells\<close>

text \<open>C29. The undo map holds what the undo operations told: inserting one adds its counts, under its timestamp,
  to those that are there, and never panics while the cursor has room; the undo count of an edit is
  the largest count any undo operation told for it, zero when none did, and the edit was undone at a version when
  the largest count told by the operations the version has observed is odd.\<close>

theorem undo_map_refines:
  assumes "um_ok t" "distinct (map fst (uo_counts undo))" "length (tree_items t) + length (uo_counts undo) < 2 ^ 64"
  shows "(\<exists>t'. um_insert undo t = Some t' \<and> keyed_tree undo_keyed t' \<and> um_counts t' = um_counts t ++ undo_told undo) \<and>
    undo_count t e = Some (Max (insert 0 (counts_of (\<lambda>_. True) e (um_counts t)))) \<and>
    is_undone t e = Some (Max (insert 0 (counts_of (\<lambda>_. True) e (um_counts t))) mod 2 = 1) \<and>
    was_undone t e v = Some (Max (insert 0 (counts_of (observed v) e (um_counts t))) mod 2 = 1)"
  using um_insert_told [OF assms] largest_count_max [OF assms(1)]
  by (simp add: undo_count_def is_undone_def was_undone_def)

text \<open>Replicas that receive two undo operations in different orders agree: whatever one map tells after the one order,
  the other tells after the other, for every edit and at every version.\<close>

lemma undo_converges:
  assumes "uo_timestamp a \<noteq> uo_timestamp b" "distinct (map fst (uo_counts a))" "distinct (map fst (uo_counts b))"
    and "um_ok t" "um_insert a t = Some ta" "um_ok ta" "um_insert b ta = Some tab" "um_ok tab"
    and "um_insert b t = Some tb" "um_ok tb" "um_insert a tb = Some tba" "um_ok tba"
    and "length (tree_items t) + length (uo_counts a) < 2 ^ 64" "length (tree_items ta) + length (uo_counts b) < 2 ^ 64"
      "length (tree_items t) + length (uo_counts b) < 2 ^ 64" "length (tree_items tb) + length (uo_counts a) < 2 ^ 64"
  shows "undo_count tab e = undo_count tba e \<and> was_undone tab e v = was_undone tba e v"
proof -
  have "um_counts tab = (um_counts t ++ undo_told a) ++ undo_told b" "um_counts tba = (um_counts t ++ undo_told b) ++ undo_told a"
    using um_insert_told [of t a] um_insert_told [of ta b] um_insert_told [of t b] um_insert_told [of tb a] assms by auto
  moreover have "dom (undo_told a) \<inter> dom (undo_told b) = {}" using assms(1) by (auto simp: undo_told_def split: if_splits)
  ultimately have "um_counts tab = um_counts tba" by (metis map_add_assoc map_add_comm)
  then show ?thesis by (simp add: undo_count_def was_undone_def largest_count_max [OF assms(8)] largest_count_max [OF assms(12)])
qed

definition first_undo :: undo_operation where
  "first_undo = \<lparr>uo_timestamp = Lamport 5 1, uo_version = [], uo_counts = [(Lamport 3 0, 1), (Lamport 2 1, 2)]\<rparr>"

definition second_undo :: undo_operation where
  "second_undo = \<lparr>uo_timestamp = Lamport 5 2, uo_version = [], uo_counts = [(Lamport 3 0, 2)]\<rparr>"

definition no_undos :: undo_map where "no_undos = tree_new undo_summaries"

definition one_undo :: undo_map where "one_undo = the (um_insert first_undo no_undos)"

definition other_undo :: undo_map where "other_undo = the (um_insert second_undo no_undos)"

definition both_undos :: undo_map where "both_undos = the (um_insert second_undo one_undo)"

definition undos_both :: undo_map where "undos_both = the (um_insert first_undo other_undo)"

lemma undo_examples:
  "um_insert first_undo no_undos = Some one_undo" "um_insert second_undo no_undos = Some other_undo"
  "um_insert second_undo one_undo = Some both_undos" "um_insert first_undo other_undo = Some undos_both"
  by code_simp+

lemma undo_example_items:
  "length (tree_items no_undos) = 0" "length (tree_items one_undo) = 2" "length (tree_items other_undo) = 1"
  "length (tree_items both_undos) = 3" "length (tree_items undos_both) = 3"
  by code_simp+

lemma um_ok_small: "keyed_tree undo_keyed t \<Longrightarrow> height t = 0 \<Longrightarrow> length (tree_items t) \<le> 12 \<Longrightarrow> um_ok t"
  by (simp add: um_ok_def)

lemma undo_examples_ok: "um_ok no_undos" "um_ok one_undo" "um_ok other_undo" "um_ok both_undos" "um_ok undos_both"
  by (rule um_ok_small; code_simp)+

theorem undo_map_refines_witness:
  "undo_count both_undos (Lamport 3 0) = Some (Max (insert 0 (counts_of (\<lambda>_. True) (Lamport 3 0) (um_counts both_undos))))"
  using undo_map_refines [OF undo_examples_ok(4), of first_undo] undo_example_items by (simp add: first_undo_def)

lemma undo_converges_witness: "undo_count both_undos (Lamport 3 0) = undo_count undos_both (Lamport 3 0)"
  using undo_converges [of first_undo second_undo no_undos one_undo both_undos other_undo undos_both "Lamport 3 0" "[]"]
    undo_examples undo_examples_ok undo_example_items
  by (simp add: first_undo_def second_undo_def)

end
