(* ===== verification/Patch.thy ===== *)
theory Patch
  imports Prelude
begin

text \<open>
  Patches (\<open>crates/text/src/patch.rs\<close>): lists of edits, each replacing a range of an old text by a range
  of a new one, with \<open>push\<close>, \<open>invert\<close>, \<open>compose\<close> and the translation of positions. The positions
  are \<open>usize\<close>: numbers below \<open>2 ^ 64\<close>, where a sum beyond and a difference below zero panic; a panic is
  \<^const>\<open>None\<close>.

  A patch \<open>tracks\<close> two texts when they agree outside its ranges. Composing a patch from a first to a
  second text with a patch from the second to a third is shown to give a patch from the first to
  the third, whatever the texts are.
\<close>

section \<open>Edits\<close>

record text_edit =
  old_start :: nat
  old_end :: nat
  new_start :: nat
  new_end :: nat

definition checked_add :: "nat \<Rightarrow> nat \<Rightarrow> nat option" where
  "checked_add a b = (if a + b < 2 ^ 64 then Some (a + b) else None)"

definition checked_sub :: "nat \<Rightarrow> nat \<Rightarrow> nat option" where
  "checked_sub a b = (if b \<le> a then Some (a - b) else None)"

definition old_len :: "text_edit \<Rightarrow> nat option" where
  "old_len e = checked_sub (old_end e) (old_start e)"

definition new_len :: "text_edit \<Rightarrow> nat option" where
  "new_len e = checked_sub (new_end e) (new_start e)"

definition edit_is_empty :: "text_edit \<Rightarrow> bool" where
  "edit_is_empty e = (old_start e = old_end e \<and> new_start e = new_end e)"

type_synonym patch = "text_edit list"

section \<open>Operations\<close>

definition invert_edit :: "text_edit \<Rightarrow> text_edit" where
  "invert_edit e = \<lparr>old_start = new_start e, old_end = new_end e, new_start = old_start e, new_end = old_end e\<rparr>"

definition invert :: "patch \<Rightarrow> patch" where
  "invert p = map invert_edit p"

definition push_maybe_empty :: "text_edit \<Rightarrow> patch \<Rightarrow> patch" where
  "push_maybe_empty e p =
     (if p \<noteq> [] then
        if old_end (last p) \<ge> old_start e then
          butlast p @ [(last p)\<lparr>old_end := old_end e, new_end := new_end e\<rparr>]
        else p @ [e]
      else p @ [e])"

definition push :: "text_edit \<Rightarrow> patch \<Rightarrow> patch" where
  "push e p = (if edit_is_empty e then p else push_maybe_empty e p)"

text \<open>The state of \<open>compose\<close>: what is left of the two iterators, with the changes made to the edits
  at their heads, and the positions reached.\<close>

record composing =
  co_old :: patch
  co_new :: patch
  co_composed :: patch
  co_old_start :: nat
  co_new_start :: nat

text \<open>\<open>catchup\<close>: both positions advance by the distance of one of them to a target.\<close>

definition advance :: "nat \<Rightarrow> nat \<Rightarrow> composing \<Rightarrow> composing option" where
  "advance target orig st =
     Option.bind (checked_sub target orig) (\<lambda>catchup.
     Option.bind (checked_add (co_old_start st) catchup) (\<lambda>o_start.
     Option.bind (checked_add (co_new_start st) catchup) (\<lambda>n_start.
     Some (st\<lparr>co_old_start := o_start, co_new_start := n_start\<rparr>))))"

text \<open>\<open>composed.push\<close> of the edit from the positions to the given ends, where the positions are moved.\<close>

definition emit :: "nat \<Rightarrow> nat \<Rightarrow> composing \<Rightarrow> composing" where
  "emit o_end n_end st = st\<lparr>co_composed := push
       \<lparr>old_start = co_old_start st, old_end = o_end, new_start = co_new_start st, new_end = n_end\<rparr> (co_composed st),
     co_old_start := o_end, co_new_start := n_end\<rparr>"

text \<open>An edit of one side, before every edit of the other.\<close>

definition take_old :: "text_edit \<Rightarrow> patch \<Rightarrow> composing \<Rightarrow> composing option" where
  "take_old e rest st =
     Option.bind (advance (old_start e) (co_old_start st) st) (\<lambda>st.
     Option.bind (old_len e) (\<lambda>ol.
     Option.bind (checked_add (co_old_start st) ol) (\<lambda>o_end.
     Option.bind (new_len e) (\<lambda>nl.
     Option.bind (checked_add (co_new_start st) nl) (\<lambda>n_end.
     Some ((emit o_end n_end st)\<lparr>co_old := rest\<rparr>))))))"

definition take_new :: "text_edit \<Rightarrow> patch \<Rightarrow> composing \<Rightarrow> composing option" where
  "take_new e rest st =
     Option.bind (advance (new_start e) (co_new_start st) st) (\<lambda>st.
     Option.bind (old_len e) (\<lambda>ol.
     Option.bind (checked_add (co_old_start st) ol) (\<lambda>o_end.
     Option.bind (new_len e) (\<lambda>nl.
     Option.bind (checked_add (co_new_start st) nl) (\<lambda>n_end.
     Some ((emit o_end n_end st)\<lparr>co_new := rest\<rparr>))))))"

text \<open>Two edits that touch: first the part of the one before the other starts.\<close>

definition align :: "text_edit \<Rightarrow> text_edit \<Rightarrow> composing \<Rightarrow> (text_edit \<times> text_edit \<times> composing) option" where
  "align e f st =
     (if new_start e < old_start f then
        Option.bind (advance (old_start e) (co_old_start st) st) (\<lambda>st.
        Option.bind (checked_sub (old_start f) (new_start e)) (\<lambda>overshoot.
        Option.bind (checked_add (co_old_start st) overshoot) (\<lambda>reached.
        Option.bind (checked_add (co_new_start st) overshoot) (\<lambda>n_end.
        Option.bind (checked_add (new_start e) overshoot) (\<lambda>e_start.
        let o_end = min reached (old_end e) in
        Some (e\<lparr>old_start := o_end, new_start := e_start\<rparr>, f, emit o_end n_end st))))))
      else
        Option.bind (advance (new_start f) (co_new_start st) st) (\<lambda>st.
        Option.bind (checked_sub (new_start e) (old_start f)) (\<lambda>overshoot.
        Option.bind (checked_add (co_old_start st) overshoot) (\<lambda>o_end.
        Option.bind (checked_add (co_new_start st) overshoot) (\<lambda>reached.
        Option.bind (checked_add (old_start f) overshoot) (\<lambda>f_start.
        let n_end = min reached (new_end f) in
        Some (e, f\<lparr>old_start := f_start, new_start := n_end\<rparr>, emit o_end n_end st)))))))"

text \<open>Then the part they share.\<close>

definition overlap :: "text_edit \<Rightarrow> text_edit \<Rightarrow> patch \<Rightarrow> patch \<Rightarrow> composing \<Rightarrow> composing option" where
  "overlap e f olds news st =
     (if new_end e > old_end f then
        Option.bind (old_len e) (\<lambda>e_len.
        Option.bind (old_len f) (\<lambda>f_len.
        Option.bind (checked_add (co_old_start st) (min e_len f_len)) (\<lambda>o_end.
        Option.bind (new_len f) (\<lambda>f_new.
        Option.bind (checked_add (co_new_start st) f_new) (\<lambda>n_end.
        Some ((emit o_end n_end st)\<lparr>co_old := e\<lparr>old_start := o_end, new_start := old_end f\<rparr> # olds, co_new := news\<rparr>))))))
      else
        Option.bind (old_len e) (\<lambda>e_len.
        Option.bind (checked_add (co_old_start st) e_len) (\<lambda>o_end.
        Option.bind (new_len e) (\<lambda>e_new.
        Option.bind (new_len f) (\<lambda>f_new.
        Option.bind (checked_add (co_new_start st) (min e_new f_new)) (\<lambda>n_end.
        Some ((emit o_end n_end st)\<lparr>co_old := olds, co_new := f\<lparr>old_start := new_end e, new_start := n_end\<rparr> # news\<rparr>)))))))"

text \<open>One turn of the loop; \<^term>\<open>Some None\<close> is the \<open>break\<close>.\<close>

definition compose_turn :: "composing \<Rightarrow> composing option option" where
  "compose_turn st = (case (co_old st, co_new st) of
     (e # olds, []) \<Rightarrow> map_option Some (take_old e olds st)
   | ([], f # news) \<Rightarrow> map_option Some (take_new f news st)
   | ([], []) \<Rightarrow> Some None
   | (e # olds, f # news) \<Rightarrow>
       if new_end e < old_start f then map_option Some (take_old e olds st)
       else if old_end f < new_start e then map_option Some (take_new f news st)
       else Option.bind (align e f st) (\<lambda>(e, f, st). map_option Some (overlap e f olds news st)))"

lemma compose_turn_less:
  "compose_turn st = Some (Some st') \<Longrightarrow>
     length (co_old st') + length (co_new st') < length (co_old st) + length (co_new st)"
  by (auto simp: compose_turn_def take_old_def take_new_def align_def overlap_def advance_def emit_def Let_def
      split: list.splits if_splits Option.bind_splits)

function compose_loop :: "composing \<Rightarrow> patch option" where
  "compose_loop st = (case compose_turn st of
     None \<Rightarrow> None
   | Some None \<Rightarrow> Some (co_composed st)
   | Some (Some st') \<Rightarrow> compose_loop st')"
  by pat_completeness auto

termination compose_loop
  by (relation "measure (\<lambda>st. length (co_old st) + length (co_new st))") (auto dest: compose_turn_less)

declare compose_loop.simps [simp del]

definition compose :: "patch \<Rightarrow> patch \<Rightarrow> patch option" where
  "compose p new_edits = compose_loop \<lparr>co_old = p, co_new = new_edits, co_composed = [], co_old_start = 0, co_new_start = 0\<rparr>"

section \<open>Positions\<close>

text \<open>\<open>binary_search_by\<close> on the starts: the index of an equal one, or where one would be inserted.\<close>

definition search_start :: "nat \<Rightarrow> patch \<Rightarrow> nat + nat" where
  "search_start old p = (case position (\<lambda>e. old_start e = old) p of
     Some ix \<Rightarrow> Inl ix
   | None \<Rightarrow> Inr (length (takeWhile (\<lambda>e. old_start e < old) p)))"

definition edit_before :: "nat \<Rightarrow> patch \<Rightarrow> text_edit option" where
  "edit_before old p = (case search_start old p of
     Inl ix \<Rightarrow> nth_opt p ix
   | Inr ix \<Rightarrow> if ix = 0 then None else nth_opt p (ix - 1))"

definition old_to_new :: "patch \<Rightarrow> nat \<Rightarrow> nat option" where
  "old_to_new p old = (case edit_before old p of
     None \<Rightarrow> Some old
   | Some e \<Rightarrow>
       if old \<ge> old_end e then Option.bind (checked_sub old (old_end e)) (\<lambda>d. checked_add (new_end e) d)
       else Some (new_start e))"

definition edit_for_old_position :: "patch \<Rightarrow> nat \<Rightarrow> text_edit option" where
  "edit_for_old_position p old = (case edit_before old p of
     None \<Rightarrow> Some \<lparr>old_start = old, old_end = old, new_start = old, new_end = old\<rparr>
   | Some e \<Rightarrow>
       if old > old_end e then
         Option.bind (checked_sub old (old_end e)) (\<lambda>d.
         Option.bind (checked_add (new_end e) d) (\<lambda>translated.
         Some \<lparr>old_start = old, old_end = old, new_start = translated, new_end = translated\<rparr>))
       else Some e)"

section \<open>Texts\<close>

definition piece :: "nat \<Rightarrow> nat \<Rightarrow> 'a list \<Rightarrow> 'a list" where
  "piece i j xs = take (j - i) (drop i xs)"

text \<open>From the positions \<open>i\<close> and \<open>j\<close> on, the texts agree outside the ranges of the edits.\<close>

fun tracks :: "patch \<Rightarrow> nat \<Rightarrow> nat \<Rightarrow> 'a list \<Rightarrow> 'a list \<Rightarrow> bool" where
  "tracks [] i j xs ys = (i \<le> length xs \<and> j \<le> length ys \<and> drop i xs = drop j ys)"
| "tracks (e # es) i j xs ys = (i \<le> old_start e \<and> old_start e \<le> old_end e \<and> old_end e \<le> length xs \<and>
     j \<le> new_start e \<and> new_start e \<le> new_end e \<and> new_end e \<le> length ys \<and>
     piece i (old_start e) xs = piece j (new_start e) ys \<and> tracks es (old_end e) (new_end e) xs ys)"

text \<open>The edits are separate and none is empty.\<close>

definition separate :: "patch \<Rightarrow> bool" where
  "separate p = (successively (\<lambda>e f. old_end e < old_start f) p \<and> (\<forall>e\<in>set p. \<not> edit_is_empty e))"

lemma length_piece: "j \<le> length xs \<Longrightarrow> length (piece i j xs) = j - i"
  by (simp add: piece_def)

lemma piece_split: "i \<le> j \<Longrightarrow> j \<le> k \<Longrightarrow> piece i k xs = piece i j xs @ piece j k xs"
proof -
  assume "i \<le> j" "j \<le> k"
  then have k: "k - i = (j - i) + (k - j)" "i + (j - i) = j" by simp_all
  show ?thesis unfolding piece_def k(1) take_add drop_drop by (simp add: k(2) add.commute)
qed

lemma take_piece: "i \<le> j \<Longrightarrow> take j xs = take i xs @ piece i j xs"
  using take_add [of i "j - i" xs] by (simp add: piece_def)

lemma drop_piece: "i \<le> j \<Longrightarrow> drop i xs = piece i j xs @ drop j xs"
  using append_take_drop_id [of "j - i" "drop i xs"] by (simp add: piece_def)

lemma piece_same [simp]: "piece i i xs = []"
  by (simp add: piece_def)

lemma piece_end [simp]: "piece i (length xs) xs = drop i xs"
  by (simp add: piece_def)

lemma piece_append: "i \<le> length xs \<Longrightarrow> piece i (length xs) (xs @ zs) = drop i xs"
  by (simp add: piece_def)

lemma piece_prefix: "j \<le> length xs \<Longrightarrow> piece i j (xs @ zs) = piece i j xs"
  by (cases "i \<le> j") (simp_all add: piece_def)

lemma tracks_le: "tracks p i j xs ys \<Longrightarrow> i \<le> length xs \<and> j \<le> length ys"
  by (cases p) auto

lemma tracks_gap:
  assumes "tracks (e # es) i j xs ys"
  shows "old_start e - i = new_start e - j"
  using assms by (metis length_piece order_trans tracks.simps(2))

lemma tracks_tail: "tracks [] i j xs ys \<Longrightarrow> length xs - i = length ys - j"
  by (metis length_drop tracks.simps(1))

text \<open>Both sides advance over what they share.\<close>

lemma tracks_skip:
  assumes t: "tracks p i j xs ys" and k: "case p of e # _ \<Rightarrow> i + k \<le> old_start e | [] \<Rightarrow> i + k \<le> length xs"
  shows "tracks p (i + k) (j + k) xs ys \<and> piece i (i + k) xs = piece j (j + k) ys"
proof (cases p)
  case Nil
  then have len: "j + k \<le> length ys" "drop i xs = drop j ys" using t k tracks_tail [of i j xs ys] by auto
  then have "drop (i + k) xs = drop (j + k) ys" by (metis add.commute drop_drop)
  with Nil t k len show ?thesis by (simp add: piece_def)
next
  case (Cons e es)
  then have le: "i + k \<le> old_start e" "j + k \<le> new_start e" using t k tracks_gap [of e es i j xs ys] by auto
  have "piece i (i + k) xs @ piece (i + k) (old_start e) xs = piece j (j + k) ys @ piece (j + k) (new_start e) ys"
    using t Cons le by (simp flip: piece_split)
  moreover have "length (piece i (i + k) xs) = length (piece j (j + k) ys)"
    using t Cons le by (simp add: length_piece)
  ultimately show ?thesis using t Cons le by simp
qed

lemma tracks_append: "tracks p i j xs ys \<Longrightarrow> tracks p i j (xs @ zs) (ys @ zs)"
  by (induction p arbitrary: i j) (auto simp: piece_prefix)

lemma tracks_replace:
  "tracks p i j xs ys \<Longrightarrow> tracks (p @ [\<lparr>old_start = length xs, old_end = length (xs @ us),
     new_start = length ys, new_end = length (ys @ vs)\<rparr>]) i j (xs @ us) (ys @ vs)"
  by (induction p arbitrary: i j) (auto simp: piece_prefix piece_append)

lemma tracks_extend:
  "tracks (p @ [e]) i j xs ys \<Longrightarrow> length xs \<le> old_end e \<Longrightarrow>
     tracks (p @ [e\<lparr>old_end := length (xs @ us), new_end := length (ys @ vs)\<rparr>]) i j (xs @ us) (ys @ vs)"
  by (induction p arbitrary: i j) (auto simp: piece_prefix)

lemma tracks_last: "tracks (p @ [e]) i j xs ys \<Longrightarrow> old_start e \<le> old_end e \<and> old_end e \<le> length xs \<and>
    new_start e \<le> new_end e \<and> new_end e \<le> length ys \<and> drop (old_end e) xs = drop (new_end e) ys"
  by (induction p arbitrary: i j) auto

text \<open>Pushing an edit of everything that comes next.\<close>

lemma push_tracks:
  assumes "tracks p 0 0 xs ys" "separate p"
  shows "tracks (push \<lparr>old_start = length xs, old_end = length (xs @ us), new_start = length ys, new_end = length (ys @ vs)\<rparr> p) 0 0
      (xs @ us) (ys @ vs) \<and>
    separate (push \<lparr>old_start = length xs, old_end = length (xs @ us), new_start = length ys, new_end = length (ys @ vs)\<rparr> p)"
proof (cases "us = [] \<and> vs = []")
  case True
  then show ?thesis using assms by (simp add: push_def edit_is_empty_def)
next
  case False
  show ?thesis
  proof (cases p rule: rev_cases)
    case Nil
    then show ?thesis using assms False tracks_replace [OF assms(1), of us vs]
      by (auto simp: push_def push_maybe_empty_def separate_def edit_is_empty_def)
  next
    case (snoc q e)
    note l = tracks_last [OF assms(1) [unfolded snoc]]
    show ?thesis
    proof (cases "length xs \<le> old_end e")
      case True
      then have "new_end e = length ys" using l by auto
      with True snoc assms tracks_extend [where p = q and e = e and us = us and vs = vs and xs = xs and ys = ys] l show ?thesis
        by (auto simp: push_def push_maybe_empty_def separate_def edit_is_empty_def successively_append_iff)
    next
      case shut: False
      with snoc assms False tracks_replace [OF assms(1), of us vs] show ?thesis
        by (auto simp: push_def push_maybe_empty_def separate_def edit_is_empty_def successively_append_iff)
    qed
  qed
qed

section \<open>Composition\<close>

text \<open>The loop stands at \<open>a\<close>, \<open>b\<close> and \<open>c\<close> in the three texts: what is composed leads from the first to
  the third up to there, and what is left of the patches leads on from there.\<close>

definition composes ::
  "'a list \<Rightarrow> 'a list \<Rightarrow> 'a list \<Rightarrow> nat \<Rightarrow> composing \<Rightarrow> bool" where
  "composes A B C b st = (tracks (co_old st) (co_old_start st) b A B \<and> tracks (co_new st) b (co_new_start st) B C \<and>
     tracks (co_composed st) 0 0 (take (co_old_start st) A) (take (co_new_start st) C) \<and> separate (co_composed st))"

lemma composes_emit:
  assumes "composes A B C b st" "tracks p a' b' A B" "tracks q b' c' B C" "co_old_start st \<le> a'" "co_new_start st \<le> c'"
  shows "composes A B C b' ((emit a' c' st)\<lparr>co_old := p, co_new := q\<rparr>)"
proof -
  have le: "a' \<le> length A" "c' \<le> length C" "co_old_start st \<le> length A" "co_new_start st \<le> length C"
    using tracks_le [OF assms(2)] tracks_le [OF assms(3)] assms(4,5) by auto
  have t: "tracks (co_composed st) 0 0 (take (co_old_start st) A) (take (co_new_start st) C)" "separate (co_composed st)"
    using assms(1) by (auto simp: composes_def)
  from push_tracks [OF t, of "piece (co_old_start st) a' A" "piece (co_new_start st) c' C"] assms le show ?thesis
    by (simp add: composes_def emit_def length_piece flip: take_piece)
qed

lemma composes_emit_old:
  assumes "composes A B C b st" "tracks p a' b' A B" "tracks (co_new st) b' c' B C" "co_old_start st \<le> a'" "co_new_start st \<le> c'"
  shows "composes A B C b' ((emit a' c' st)\<lparr>co_old := p\<rparr>)"
  using composes_emit [OF assms] by (simp add: composes_def emit_def)

lemma composes_emit_new:
  assumes "composes A B C b st" "tracks (co_old st) a' b' A B" "tracks q b' c' B C" "co_old_start st \<le> a'" "co_new_start st \<le> c'"
  shows "composes A B C b' ((emit a' c' st)\<lparr>co_new := q\<rparr>)"
  using composes_emit [OF assms] by (simp add: composes_def emit_def)

lemma wp_advance:
  assumes c: "composes A B C b st" and len: "length A < 2 ^ 63" "length B < 2 ^ 63" "length C < 2 ^ 63"
    and k: "orig \<le> target" "case co_old st of e # _ \<Rightarrow> co_old_start st + (target - orig) \<le> old_start e | [] \<Rightarrow> True"
      "case co_new st of f # _ \<Rightarrow> b + (target - orig) \<le> old_start f | [] \<Rightarrow> b + (target - orig) \<le> length B"
  shows "wp (advance target orig st) (\<lambda>st'. composes A B C (b + (target - orig)) st' \<and>
    st' = st\<lparr>co_old_start := co_old_start st + (target - orig), co_new_start := co_new_start st + (target - orig)\<rparr>)"
proof -
  let ?k = "target - orig" and ?a = "co_old_start st" and ?c = "co_new_start st"
  have t: "tracks (co_old st) ?a b A B" "tracks (co_new st) b ?c B C" using c by (auto simp: composes_def)
  have new: "tracks (co_new st) (b + ?k) (?c + ?k) B C" "piece b (b + ?k) B = piece ?c (?c + ?k) C"
    using tracks_skip [OF t(2)] k(3) by auto
  have "b + ?k \<le> length B" using tracks_le [OF new(1)] by simp
  then have "case co_old st of e # _ \<Rightarrow> ?a + ?k \<le> old_start e | [] \<Rightarrow> ?a + ?k \<le> length A"
    using k(2) t(1) tracks_tail [of ?a b A B] by (auto split: list.splits)
  then have old: "tracks (co_old st) (?a + ?k) (b + ?k) A B" "piece ?a (?a + ?k) A = piece b (b + ?k) B"
    using tracks_skip [OF t(1)] by auto
  have le: "?a + ?k \<le> length A" "?c + ?k \<le> length C" using tracks_le [OF old(1)] tracks_le [OF new(1)] by auto
  have "tracks (co_composed st) 0 0 (take ?a A @ piece ?a (?a + ?k) A) (take ?c C @ piece ?a (?a + ?k) A)"
    using c by (intro tracks_append) (simp add: composes_def)
  then have "tracks (co_composed st) 0 0 (take (?a + ?k) A) (take (?c + ?k) C)"
    using old(2) new(2) take_piece [of ?a "?a + ?k" A] take_piece [of ?c "?c + ?k" C] by simp
  with c old(1) new(1) le len k(1) show ?thesis
    by (simp add: advance_def checked_add_def checked_sub_def composes_def)
qed

lemma emit_fields [simp]:
  "co_old (emit a c st) = co_old st" "co_new (emit a c st) = co_new st"
  "co_old_start (emit a c st) = a" "co_new_start (emit a c st) = c"
  by (simp_all add: emit_def)

lemma wp_take_old:
  assumes c: "composes A B C b st" and len: "length A < 2 ^ 63" "length B < 2 ^ 63" "length C < 2 ^ 63"
    and e: "co_old st = e # olds" "case co_new st of f # _ \<Rightarrow> new_end e < old_start f | [] \<Rightarrow> True"
  shows "wp (take_old e olds st) (\<lambda>st'. composes A B C (new_end e) st')"
proof -
  let ?k = "old_start e - co_old_start st"
  have t: "tracks (e # olds) (co_old_start st) b A B" using c e(1) by (simp add: composes_def)
  then have at: "co_old_start st + ?k = old_start e" "b + ?k = new_start e" using tracks_gap [OF t] by auto
  let ?st = "st\<lparr>co_old_start := old_start e, co_new_start := co_new_start st + ?k\<rparr>"
  have "wp (advance (old_start e) (co_old_start st) st) (\<lambda>st'. composes A B C (b + ?k) st' \<and> st' = ?st)"
    using wp_advance [OF c len, where target = "old_start e" and orig = "co_old_start st"] e t at by (auto split: list.splits)
  then have adv: "advance (old_start e) (co_old_start st) st = Some ?st" and c': "composes A B C (new_start e) ?st"
    using at by (auto simp: wp_iff)
  let ?n = "new_end e - new_start e"
  have "tracks (co_new st) (new_start e + ?n) (co_new_start ?st + ?n) B C"
    using c' t e(2) by (intro tracks_skip [THEN conjunct1]) (auto simp: composes_def split: list.splits)
  then have q: "tracks (co_new st) (new_end e) (co_new_start ?st + ?n) B C" using t by simp
  have p: "tracks olds (old_end e) (new_end e) A B" using t by simp
  have le: "old_end e \<le> length A" "co_new_start ?st + ?n \<le> length C" using tracks_le [OF p] tracks_le [OF q] by auto
  have "composes A B C (new_end e) ((emit (old_end e) (co_new_start ?st + ?n) ?st)\<lparr>co_old := olds\<rparr>)"
    using t p q by (intro composes_emit_old [OF c']) auto
  then show ?thesis using adv t le len
    by (simp add: take_old_def old_len_def new_len_def checked_sub_def checked_add_def)
qed

lemma wp_take_new:
  assumes c: "composes A B C b st" and len: "length A < 2 ^ 63" "length B < 2 ^ 63" "length C < 2 ^ 63"
    and f: "co_new st = f # news" "case co_old st of e # _ \<Rightarrow> old_end f < new_start e | [] \<Rightarrow> True"
  shows "wp (take_new f news st) (\<lambda>st'. composes A B C (old_end f) st')"
proof -
  let ?k = "new_start f - co_new_start st"
  have t: "tracks (f # news) b (co_new_start st) B C" and o: "tracks (co_old st) (co_old_start st) b A B"
    using c f(1) by (simp_all add: composes_def)
  then have at: "co_new_start st + ?k = new_start f" "b + ?k = old_start f" using tracks_gap [OF t] by auto
  let ?st = "st\<lparr>co_old_start := co_old_start st + ?k, co_new_start := new_start f\<rparr>"
  have before: "co_old_start st + ?k + (old_end f - old_start f) \<le> old_start e" if "co_old st = e # es" for e es
    using f(2) that at t tracks_gap [OF o [unfolded that]] o by auto
  have "wp (advance (new_start f) (co_new_start st) st) (\<lambda>st'. composes A B C (b + ?k) st' \<and> st' = ?st)"
    using wp_advance [OF c len, where target = "new_start f" and orig = "co_new_start st"] f t at before
    by (fastforce split: list.splits)
  then have adv: "advance (new_start f) (co_new_start st) st = Some ?st" and c': "composes A B C (old_start f) ?st"
    using at by (auto simp: wp_iff)
  let ?n = "old_end f - old_start f"
  have o': "tracks (co_old st) (co_old_start ?st) (old_start f) A B" using c' by (simp add: composes_def)
  have "case co_old st of e # _ \<Rightarrow> co_old_start ?st + ?n \<le> old_start e | [] \<Rightarrow> co_old_start ?st + ?n \<le> length A"
    using before o' t tracks_tail [of "co_old_start ?st" "old_start f" A B] by (auto split: list.splits)
  from tracks_skip [OF o' this] have p: "tracks (co_old st) (co_old_start ?st + ?n) (old_end f) A B" using t by simp
  have q: "tracks news (old_end f) (new_end f) B C" using t by simp
  have le: "co_old_start ?st + ?n \<le> length A" "new_end f \<le> length C" using tracks_le [OF p] tracks_le [OF q] by auto
  have "composes A B C (old_end f) ((emit (co_old_start ?st + ?n) (new_end f) ?st)\<lparr>co_new := news\<rparr>)"
    using t p q by (intro composes_emit_new [OF c']) auto
  then show ?thesis using adv t le len
    by (simp add: take_new_def old_len_def new_len_def checked_sub_def checked_add_def)
qed

text \<open>After \<open>align\<close> the two edits start at the place the loop has reached in the second text.\<close>

definition aligned :: "'a list \<Rightarrow> 'a list \<Rightarrow> 'a list \<Rightarrow> patch \<Rightarrow> patch \<Rightarrow> text_edit \<times> text_edit \<times> composing \<Rightarrow> bool" where
  "aligned A B C olds news = (\<lambda>(e, f, st). composes A B C (new_start e) (st\<lparr>co_old := e # olds, co_new := f # news\<rparr>) \<and>
     old_start f = new_start e)"

lemma wp_align:
  assumes c: "composes A B C b st" and len: "length A < 2 ^ 63" "length B < 2 ^ 63" "length C < 2 ^ 63"
    and h: "co_old st = e # olds" "co_new st = f # news" "old_start f \<le> new_end e" "new_start e \<le> old_end f"
  shows "wp (align e f st) (aligned A B C olds news)"
proof -
  have t: "tracks (e # olds) (co_old_start st) b A B" "tracks (f # news) b (co_new_start st) B C"
    using c h by (simp_all add: composes_def)
  show ?thesis
  proof (cases "new_start e < old_start f")
    case True
    let ?k = "old_start e - co_old_start st" and ?d = "old_start f - new_start e"
    have at: "co_old_start st + ?k = old_start e" "b + ?k = new_start e" using t tracks_gap [OF t(1)] by auto
    let ?st = "st\<lparr>co_old_start := old_start e, co_new_start := co_new_start st + ?k\<rparr>"
    have "wp (advance (old_start e) (co_old_start st) st) (\<lambda>st'. composes A B C (b + ?k) st' \<and> st' = ?st)"
      using wp_advance [OF c len, where target = "old_start e" and orig = "co_old_start st"] h t at True by auto
    then have adv: "advance (old_start e) (co_old_start st) st = Some ?st" and c': "composes A B C (new_start e) ?st"
      using at by (auto simp: wp_iff)
    let ?o = "min (old_start e + ?d) (old_end e)"
    have p: "tracks (e\<lparr>old_start := ?o, new_start := old_start f\<rparr> # olds) ?o (old_start f) A B" using t h True by simp
    have "tracks (f # news) (new_start e + ?d) (co_new_start ?st + ?d) B C"
      using c' h True by (intro tracks_skip [THEN conjunct1]) (auto simp: composes_def)
    then have q: "tracks (f # news) (old_start f) (co_new_start ?st + ?d) B C" using True by simp
    have "composes A B C (old_start f) ((emit ?o (co_new_start ?st + ?d) ?st)
        \<lparr>co_old := e\<lparr>old_start := ?o, new_start := old_start f\<rparr> # olds, co_new := f # news\<rparr>)"
      using t by (intro composes_emit [OF c' p q]) auto
    moreover have "co_new_start ?st + ?d \<le> length C" "old_start e + ?d < 2 ^ 64" "old_start f < 2 ^ 63"
      using tracks_le [OF q] t len by auto
    ultimately show ?thesis using adv True len
      by (simp add: align_def checked_sub_def checked_add_def Let_def aligned_def)
  next
    case False
    let ?k = "new_start f - co_new_start st" and ?d = "new_start e - old_start f"
    have at: "co_new_start st + ?k = new_start f" "b + ?k = old_start f" using t tracks_gap [OF t(2)] by auto
    then have before: "co_old_start st + ?k + ?d = old_start e" using t tracks_gap [OF t(1)] False by auto
    let ?st = "st\<lparr>co_old_start := co_old_start st + ?k, co_new_start := new_start f\<rparr>"
    have "wp (advance (new_start f) (co_new_start st) st) (\<lambda>st'. composes A B C (b + ?k) st' \<and> st' = ?st)"
      using wp_advance [OF c len, where target = "new_start f" and orig = "co_new_start st"] h t at before by auto
    then have adv: "advance (new_start f) (co_new_start st) st = Some ?st" and c': "composes A B C (old_start f) ?st"
      using at by (auto simp: wp_iff)
    let ?n = "min (new_start f + ?d) (new_end f)"
    have q: "tracks (f\<lparr>old_start := new_start e, new_start := ?n\<rparr> # news) (new_start e) ?n B C" using t h False by simp
    have p: "tracks (e # olds) (old_start e) (new_start e) A B" using t by simp
    have "composes A B C (new_start e) ((emit (old_start e) ?n ?st)
        \<lparr>co_old := e # olds, co_new := f\<lparr>old_start := new_start e, new_start := ?n\<rparr> # news\<rparr>)"
      using t before by (intro composes_emit [OF c' p q]) auto
    moreover have "new_start f + ?d < 2 ^ 64" "old_start f + ?d = new_start e" "co_old_start ?st + ?d = old_start e"
        "old_start e < 2 ^ 64" "new_start e < 2 ^ 64"
      using t len False before by auto
    ultimately show ?thesis using adv False
      by (simp add: align_def checked_sub_def checked_add_def Let_def aligned_def)
  qed
qed

lemma wp_overlap:
  assumes c: "aligned A B C olds news (e, f, st)" and len: "length A < 2 ^ 63" "length B < 2 ^ 63" "length C < 2 ^ 63"
  shows "wp (overlap e f olds news st) (\<lambda>st'. \<exists>b. composes A B C b st')"
proof -
  let ?st = "st\<lparr>co_old := e # olds, co_new := f # news\<rparr>"
  have c': "composes A B C (new_start e) ?st" and f: "old_start f = new_start e" using c by (auto simp: aligned_def)
  then have t: "tracks (e # olds) (co_old_start st) (new_start e) A B" "tracks (f # news) (new_start e) (co_new_start st) B C"
    by (simp_all add: composes_def)
  have at: "co_old_start st = old_start e" "co_new_start st = new_start f"
    using t tracks_gap [OF t(1)] tracks_gap [OF t(2)] f by auto
  show ?thesis
  proof (cases "new_end e > old_end f")
    case True
    let ?o = "old_start e + min (old_end e - old_start e) (old_end f - old_start f)"
    have p: "tracks (e\<lparr>old_start := ?o, new_start := old_end f\<rparr> # olds) ?o (old_end f) A B" using t True f by auto
    have q: "tracks news (old_end f) (new_end f) B C" using t by simp
    have "composes A B C (old_end f) ((emit ?o (new_end f) ?st)\<lparr>co_old := e\<lparr>old_start := ?o, new_start := old_end f\<rparr> # olds, co_new := news\<rparr>)"
      using t at by (intro composes_emit [OF c' p q]) auto
    then have "composes A B C (old_end f) ((emit ?o (new_end f) st)\<lparr>co_old := e\<lparr>old_start := ?o, new_start := old_end f\<rparr> # olds, co_new := news\<rparr>)"
      by (simp add: emit_def)
    moreover have "?o < 2 ^ 64" "new_end f < 2 ^ 64" using tracks_le [OF p] t len by auto
    ultimately show ?thesis using True t at
      by (auto simp: overlap_def old_len_def new_len_def checked_sub_def checked_add_def)
  next
    case False
    let ?n = "new_start f + min (new_end e - new_start e) (new_end f - new_start f)"
    have q: "tracks (f\<lparr>old_start := new_end e, new_start := ?n\<rparr> # news) (new_end e) ?n B C" using t False f by auto
    have p: "tracks olds (old_end e) (new_end e) A B" using t by simp
    have "composes A B C (new_end e) ((emit (old_end e) ?n ?st)\<lparr>co_old := olds, co_new := f\<lparr>old_start := new_end e, new_start := ?n\<rparr> # news\<rparr>)"
      using t at by (intro composes_emit [OF c' p q]) auto
    then have "composes A B C (new_end e) ((emit (old_end e) ?n st)\<lparr>co_old := olds, co_new := f\<lparr>old_start := new_end e, new_start := ?n\<rparr> # news\<rparr>)"
      by (simp add: emit_def)
    moreover have "?n < 2 ^ 64" "old_end e < 2 ^ 64" using tracks_le [OF q] t len by auto
    ultimately show ?thesis using False t at
      by (auto simp: overlap_def old_len_def new_len_def checked_sub_def checked_add_def)
  qed
qed

lemma wp_compose_turn:
  assumes c: "composes A B C b st" and len: "length A < 2 ^ 63" "length B < 2 ^ 63" "length C < 2 ^ 63"
  shows "wp (compose_turn st) (\<lambda>r. case r of None \<Rightarrow> co_old st = [] \<and> co_new st = [] | Some st' \<Rightarrow> \<exists>b. composes A B C b st')"
proof -
  consider "co_old st = []" "co_new st = []"
    | e olds where "co_old st = e # olds" "case co_new st of f # _ \<Rightarrow> new_end e < old_start f | [] \<Rightarrow> True"
        "compose_turn st = map_option Some (take_old e olds st)"
    | f news where "co_new st = f # news" "case co_old st of e # _ \<Rightarrow> old_end f < new_start e | [] \<Rightarrow> True"
        "compose_turn st = map_option Some (take_new f news st)"
    | e olds f news where "co_old st = e # olds" "co_new st = f # news" "old_start f \<le> new_end e" "new_start e \<le> old_end f"
        "compose_turn st = Option.bind (align e f st) (\<lambda>(e, f, st). map_option Some (overlap e f olds news st))"
    by (cases "co_old st"; cases "co_new st"; fastforce simp: compose_turn_def split: if_splits)
  then show ?thesis
  proof cases
    case 1
    then show ?thesis by (simp add: compose_turn_def)
  next
    case 2
    with wp_take_old [OF c len 2(1,2)] show ?thesis by (auto elim!: wp_mono)
  next
    case 3
    with wp_take_new [OF c len 3(1,2)] show ?thesis by (auto elim!: wp_mono)
  next
    case 4
    have "wp (overlap e f olds news st) (\<lambda>st'. \<exists>b. composes A B C b st')" if "aligned A B C olds news (e, f, st)" for e f st
      using wp_overlap [OF that len] .
    with wp_align [OF c len 4(1-4)] 4(5) show ?thesis by (auto elim!: wp_mono)
  qed
qed

lemma wp_compose_loop:
  assumes len: "length A < 2 ^ 63" "length B < 2 ^ 63" "length C < 2 ^ 63"
  shows "composes A B C b st \<Longrightarrow> wp (compose_loop st) (\<lambda>r. tracks r 0 0 A C \<and> separate r)"
proof (induction st arbitrary: b rule: compose_loop.induct)
  case (1 st)
  obtain r where r: "compose_turn st = Some r" "case r of None \<Rightarrow> co_old st = [] \<and> co_new st = [] | Some st' \<Rightarrow> \<exists>b. composes A B C b st'"
    using wp_compose_turn [OF 1(2) len] by (auto simp: wp_iff)
  show ?case
  proof (cases r)
    case None
    then have "drop (co_old_start st) A = drop (co_new_start st) C" using r 1(2) by (simp add: composes_def)
    moreover have s: "tracks (co_composed st) 0 0 (take (co_old_start st) A) (take (co_new_start st) C)" "separate (co_composed st)"
      using 1(2) by (auto simp: composes_def)
    note tracks_append [OF s(1), of "drop (co_new_start st) C"] s(2)
    ultimately show ?thesis using r None
      by (subst compose_loop.simps) (metis (no_types, lifting) append_take_drop_id option.case wp_Some)
  next
    case (Some st')
    with r 1(1) show ?thesis by (subst compose_loop.simps) auto
  qed
qed

section \<open>Translating positions\<close>

fun translate :: "patch \<Rightarrow> nat \<Rightarrow> nat \<Rightarrow> nat \<Rightarrow> nat" where
  "translate [] i j x = j + (x - i)"
| "translate (e # es) i j x = (if x < old_start e then j + (x - i) else if x < old_end e then new_start e
     else translate es (old_end e) (new_end e) x)"

definition covers :: "text_edit \<Rightarrow> nat \<Rightarrow> bool" where
  "covers e x = (old_start e \<le> x \<and> x < old_end e)"

lemma edit_before_none: "\<forall>f\<in>set p. x < old_start f \<Longrightarrow> edit_before x p = None"
proof -
  assume a: "\<forall>f\<in>set p. x < old_start f"
  then have "position (\<lambda>f. old_start f = x) p = None" by (auto simp: position_None)
  moreover have "takeWhile (\<lambda>f. old_start f < x) p = []" using a by (cases p) auto
  ultimately show ?thesis by (simp add: edit_before_def search_start_def)
qed

lemma edit_before_here: "old_start e = x \<Longrightarrow> edit_before x (e # p) = Some e"
  by (simp add: edit_before_def search_start_def nth_opt_def)

lemma edit_before_later:
  assumes "old_start e < x"
  shows "edit_before x (e # p) = Some (case edit_before x p of None \<Rightarrow> e | Some f \<Rightarrow> f)"
proof (cases "position (\<lambda>f. old_start f = x) p")
  case None
  have "length (takeWhile (\<lambda>f. old_start f < x) p) \<le> length p" by (rule length_takeWhile_le)
  with None assms show ?thesis
    by (cases "length (takeWhile (\<lambda>f. old_start f < x) p)") (simp_all add: edit_before_def search_start_def nth_opt_def)
next
  case (Some ix)
  with assms position_bound [OF Some] show ?thesis by (simp add: edit_before_def search_start_def nth_opt_def)
qed

lemma separate_starts:
  "separate (e # p) \<Longrightarrow> tracks (e # p) i j xs ys \<Longrightarrow> separate p \<and> (\<forall>f\<in>set p. old_end e < old_start f)"
proof (induction p arbitrary: e i j)
  case (Cons g p)
  have "separate (g # p)" "tracks (g # p) (old_end e) (new_end e) xs ys" "old_end e < old_start g"
    using Cons.prems by (auto simp: separate_def)
  with Cons.IH [OF this(1,2)] show ?case by (auto simp: separate_def)
qed (simp add: separate_def)

lemma old_to_new_translate:
  assumes "separate p" "tracks p i j xs ys" "i \<le> x"
  shows "(case edit_before x p of None \<Rightarrow> j + (x - i)
     | Some e \<Rightarrow> if old_end e \<le> x then new_end e + (x - old_end e) else new_start e) = translate p i j x"
  using assms
proof (induction p arbitrary: i j)
  case Nil
  then show ?case by (simp add: edit_before_def search_start_def)
next
  case (Cons e p)
  note s = separate_starts [OF Cons.prems(1,2)]
  have e: "old_start e \<le> old_end e" "tracks p (old_end e) (new_end e) xs ys" using Cons.prems by auto
  have none: "edit_before x p = None" if "x \<le> old_end e" using that s by (intro edit_before_none) auto
  consider "x < old_start e" | "x = old_start e" | "old_start e < x" by linarith
  then show ?case
  proof cases
    case 1
    then have "edit_before x (e # p) = None" using s e(1) by (intro edit_before_none) auto
    with 1 show ?thesis by simp
  next
    case 2
    with none Cons.IH [OF _ e(2)] s e(1) show ?thesis by (auto simp: edit_before_here)
  next
    case 3
    show ?thesis
    proof (cases "x < old_end e")
      case True
      with 3 none show ?thesis by (simp add: edit_before_later)
    next
      case False
      with 3 Cons.IH [OF _ e(2)] s show ?thesis by (auto simp: edit_before_later split: option.splits)
    qed
  qed
qed

lemma translate_bounds:
  "tracks p i j xs ys \<Longrightarrow> i \<le> x \<Longrightarrow> x \<le> length xs \<Longrightarrow> j \<le> translate p i j x \<and> translate p i j x \<le> length ys"
proof (induction p arbitrary: i j)
  case Nil
  then show ?case using tracks_tail [OF Nil(1)] by auto
next
  case (Cons e p)
  with tracks_gap [OF Cons.prems(1)] Cons.IH [of "old_end e" "new_end e"] show ?case by fastforce
qed

lemma translate_mono:
  "tracks p i j xs ys \<Longrightarrow> i \<le> x \<Longrightarrow> x \<le> y \<Longrightarrow> y \<le> length xs \<Longrightarrow> translate p i j x \<le> translate p i j y"
proof (induction p arbitrary: i j)
  case (Cons e p)
  have t: "tracks p (old_end e) (new_end e) xs ys" and le: "new_start e \<le> new_end e" using Cons.prems by auto
  have "x < old_start e \<Longrightarrow> j + (x - i) \<le> new_start e" using tracks_gap [OF Cons.prems(1)] Cons.prems by auto
  moreover have "old_end e \<le> y \<Longrightarrow> new_end e \<le> translate p (old_end e) (new_end e) y"
    using translate_bounds [OF t, of y] Cons.prems by simp
  ultimately show ?case using Cons.IH [OF t] Cons.prems le by (simp, linarith)
qed simp

lemma translate_content:
  "tracks p i j xs ys \<Longrightarrow> i \<le> x \<Longrightarrow> x < length xs \<Longrightarrow> \<forall>e\<in>set p. \<not> covers e x \<Longrightarrow>
     translate p i j x < length ys \<and> ys ! translate p i j x = xs ! x"
proof (induction p arbitrary: i j)
  case Nil
  have "j + (x - i) < length ys" using Nil tracks_tail [OF Nil(1)] by auto
  moreover have "drop i xs ! (x - i) = drop j ys ! (x - i)" using Nil by simp
  ultimately show ?case using Nil nth_drop [of j ys "x - i"] nth_drop [of i xs "x - i"] by simp
next
  case (Cons e p)
  show ?case
  proof (cases "x < old_start e")
    case True
    have "piece i (old_start e) xs ! (x - i) = piece j (new_start e) ys ! (x - i)" using Cons.prems by simp
    moreover have "piece i (old_start e) xs ! (x - i) = xs ! x"
    proof -
      have "i \<le> x" "x - i < old_start e - i" "x < length xs" using True Cons.prems by auto
      then show ?thesis by (simp add: piece_def)
    qed
    moreover have gap: "x - i < new_start e - j" "j + (x - i) < length ys"
      using True Cons.prems tracks_gap [OF Cons.prems(1)] by auto
    then have "piece j (new_start e) ys ! (x - i) = ys ! (j + (x - i))"
      using Cons.prems by (simp only: piece_def nth_take) (simp add: nth_drop)
    ultimately show ?thesis using True gap by simp
  next
    case False
    with Cons show ?thesis by (auto simp: covers_def)
  qed
qed

lemma translate_covered:
  "tracks p i j xs ys \<Longrightarrow> e \<in> set p \<Longrightarrow> covers e x \<Longrightarrow> separate p \<Longrightarrow> translate p i j x = new_start e"
proof (induction p arbitrary: i j)
  case (Cons f p)
  note s = separate_starts [OF Cons.prems(4,1)]
  have "e \<noteq> f \<Longrightarrow> old_end f < x" using Cons.prems s by (fastforce simp: covers_def)
  with Cons s show ?case by (auto simp: covers_def)
qed simp

lemma old_to_new_Some:
  assumes "tracks p 0 0 xs ys" "separate p" "x \<le> length xs" "length ys < 2 ^ 64"
  shows "old_to_new p x = Some (translate p 0 0 x)"
  using old_to_new_translate [OF assms(2,1), of x] translate_bounds [OF assms(1) _ assms(3)] assms(4)
  by (auto simp: old_to_new_def checked_sub_def checked_add_def split: option.splits if_splits)

lemma invert_fields [simp]:
  "old_start (invert_edit e) = new_start e" "old_end (invert_edit e) = new_end e"
  "new_start (invert_edit e) = old_start e" "new_end (invert_edit e) = old_end e" "invert_edit (invert_edit e) = e"
  by (simp_all add: invert_edit_def)

lemma invert_Cons [simp]: "invert [] = []" "invert (e # p) = invert_edit e # invert p"
  by (simp_all add: invert_def)

lemma invert_invert: "invert (invert p) = p"
  by (induction p) simp_all

lemma invert_tracks: "tracks p i j xs ys \<Longrightarrow> tracks (invert p) j i ys xs"
  by (induction p arbitrary: i j) auto

lemma invert_separate: "tracks p i j xs ys \<Longrightarrow> separate p \<Longrightarrow> separate (invert p)"
proof (induction p arbitrary: i j)
  case (Cons e p)
  have t: "tracks p (old_end e) (new_end e) xs ys" "separate p"
    using Cons.prems separate_starts [OF Cons.prems(2,1)] by auto
  have "old_end e < old_start f \<Longrightarrow> new_end e < new_start f" if "p = f # q" for f q
    using tracks_gap [OF t(1) [unfolded that]] t(1) that by auto
  with Cons.IH [OF t] Cons.prems(2) show ?case
    by (cases p) (auto simp: separate_def edit_is_empty_def)
qed (simp add: separate_def)

lemma translate_back:
  "tracks p i j xs ys \<Longrightarrow> i \<le> x \<Longrightarrow> x \<le> length xs \<Longrightarrow> \<forall>e\<in>set p. \<not> covers e x \<Longrightarrow>
     translate (invert p) j i (translate p i j x) = x"
proof (induction p arbitrary: i j)
  case (Cons e p)
  have t: "tracks p (old_end e) (new_end e) xs ys" "new_start e \<le> new_end e" using Cons.prems by auto
  show ?case
  proof (cases "x < old_start e")
    case True
    then have "j + (x - i) < new_start e" using tracks_gap [OF Cons.prems(1)] Cons.prems by auto
    with True Cons.prems(2) show ?thesis by simp
  next
    case False
    then have x: "old_end e \<le> x" using Cons.prems by (auto simp: covers_def)
    with translate_bounds [OF t(1) x Cons.prems(3)] Cons.IH [OF t(1) x Cons.prems(3)] False Cons.prems(4) t(2) show ?thesis by simp
  qed
qed simp

text \<open>C27. Composing never panics, on texts whose lengths are below \<open>2 ^ 63\<close>, and is right: when one patch leads from a text
  to a second and another from the second to a third, the composed patch leads from the first
  to the third; its edits are separate and none of them is empty.\<close>

theorem compose_tracks:
  assumes "tracks p 0 0 A B" "tracks q 0 0 B C" "length A < 2 ^ 63" "length B < 2 ^ 63" "length C < 2 ^ 63"
  shows "\<exists>r. compose p q = Some r \<and> tracks r 0 0 A C \<and> separate r"
proof -
  have "composes A B C 0 \<lparr>co_old = p, co_new = q, co_composed = [], co_old_start = 0, co_new_start = 0\<rparr>"
    using assms by (simp add: composes_def separate_def)
  from wp_compose_loop [OF assms(3-5) this] show ?thesis by (auto simp: wp_iff compose_def)
qed

theorem compose_tracks_witness:
  "\<exists>r. compose [\<lparr>old_start = 1, old_end = 3, new_start = 1, new_end = 4\<rparr>] [\<lparr>old_start = 0, old_end = 2, new_start = 0, new_end = 1\<rparr>] = Some r \<and>
     tracks r 0 0 ''abcd'' ''zyxd''"
  using compose_tracks [of "[\<lparr>old_start = 1, old_end = 3, new_start = 1, new_end = 4\<rparr>]" "''abcd''" "''awyxd''"
    "[\<lparr>old_start = 0, old_end = 2, new_start = 0, new_end = 1\<rparr>]" "''zyxd''"]
  by (auto simp: piece_def)

text \<open>C31. Translating positions: a position of the old text goes to one of the new text, in the same order; where no
  edit covers it, the same element is there, and inside an edit it goes to the start of what replaced it.
  The inverted patch leads back from the new text to the old one, and takes the positions no edit covers back.\<close>

theorem old_to_new_tracks:
  assumes "tracks p 0 0 A B" "separate p" "x \<le> y" "y \<le> length A" "length A < 2 ^ 64" "length B < 2 ^ 64"
  shows "\<exists>x' y'. old_to_new p x = Some x' \<and> old_to_new p y = Some y' \<and> x' \<le> y' \<and> y' \<le> length B \<and>
    (x < length A \<and> (\<forall>e\<in>set p. \<not> covers e x) \<longrightarrow> x' < length B \<and> B ! x' = A ! x) \<and>
    (\<forall>e\<in>set p. covers e x \<longrightarrow> x' = new_start e) \<and>
    tracks (invert p) 0 0 B A \<and> invert (invert p) = p \<and>
    ((\<forall>e\<in>set p. \<not> covers e x) \<longrightarrow> old_to_new (invert p) x' = Some x)"
proof -
  have x: "x \<le> length A" using assms by simp
  have inv: "tracks (invert p) 0 0 B A" "separate (invert p)"
    using invert_tracks [OF assms(1)] invert_separate [OF assms(1,2)] by auto
  have "translate p 0 0 x \<le> length B" using translate_bounds [OF assms(1) _ x] by simp
  from old_to_new_Some [OF inv this assms(5)]
  have "\<forall>e\<in>set p. \<not> covers e x \<Longrightarrow> old_to_new (invert p) (translate p 0 0 x) = Some x"
    using translate_back [OF assms(1) _ x] by simp
  with old_to_new_Some [OF assms(1,2) x assms(6)] old_to_new_Some [OF assms(1,2,4,6)] inv(1) invert_invert
    translate_mono [OF assms(1) _ assms(3,4)] translate_bounds [OF assms(1) _ assms(4)]
    translate_content [OF assms(1)] translate_covered [OF assms(1) _ _ assms(2)]
  show ?thesis by auto
qed

theorem old_to_new_tracks_witness:
  "\<exists>x'. old_to_new [\<lparr>old_start = 1, old_end = 3, new_start = 1, new_end = 4\<rparr>] 3 = Some x' \<and> ''awyxd'' ! x' = CHR ''d''"
  using old_to_new_tracks [of "[\<lparr>old_start = 1, old_end = 3, new_start = 1, new_end = 4\<rparr>]" "''abcd''" "''awyxd''" 3 3]
  by (auto simp: piece_def separate_def edit_is_empty_def covers_def)

end
