(* ===== verification/SyncFiles.thy ===== *)
theory SyncFiles
  imports Prelude
begin

text \<open>
  The plan of a settings sync (\<open>crates/settings_sync/src/sync_plan.rs\<close>), which says what happens to every file, and the synced
  files with their names in the gist (\<open>crates/settings_sync/src/local_files.rs\<close>). The lemmas show that the plan decides
  every name by its three hashes alone, and that the sync reads under a name exactly what lies at the path of that name.
  The paths of the synced files are assumed to be different from each other. The hash of a content is a parameter
  of the theories that use the plan.
\<close>

section \<open>The plan\<close>

type_synonym files = "(string, string) btree"
type_synonym hashes = "(string, string) btree"

datatype sync_action =
    Upload
  | Download
  | DeleteRemote
  | DeleteLocal
  | UploadKeepingRemoteBackup
  | DownloadKeepingLocalBackup

datatype conflict_winner = WinnerLocal | WinnerRemote

definition plan_file ::
  "string option \<Rightarrow> string option \<Rightarrow> string option \<Rightarrow> conflict_winner \<Rightarrow> sync_action option" where
  "plan_file local_hash remote_hash base_hash winner =
     (if local_hash = remote_hash then None
      else Some
       (if local_hash = base_hash then if remote_hash \<noteq> None then Download else DeleteLocal
        else if remote_hash = base_hash then if local_hash \<noteq> None then Upload else DeleteRemote
        else case (local_hash, remote_hash) of
            (None, Some _) \<Rightarrow> Download
          | (Some _, None) \<Rightarrow> Upload
          | _ \<Rightarrow> (case winner of WinnerLocal \<Rightarrow> UploadKeepingRemoteBackup | WinnerRemote \<Rightarrow> DownloadKeepingLocalBackup)))"

definition plan_names :: "hashes \<Rightarrow> hashes \<Rightarrow> string list" where
  "plan_names local remote = remdups_adj (sort (bt_keys local @ bt_keys remote))"

definition plan_sync :: "hashes \<Rightarrow> hashes \<Rightarrow> hashes \<Rightarrow> conflict_winner \<Rightarrow> (string, sync_action) btree" where
  "plan_sync local remote base winner = List.map_filter (\<lambda>name.
     map_option (Pair name) (plan_file (bt_get local name) (bt_get remote name) (bt_get base name) winner))
     (plan_names local remote)"

section \<open>The synced files\<close>

definition MANIFEST_NAME :: string where
  "MANIFEST_NAME = ''asylum-sync.json''"

definition MANIFEST_CONTENT :: string where
  "MANIFEST_CONTENT = ''{'' @ [newline] @ ''  \"version\": 1'' @ [newline] @ ''}'' @ [newline]"

definition FOLDER_SEPARATOR :: string where
  "FOLDER_SEPARATOR = ''--''"

definition MAX_FILE_SIZE :: nat where
  "MAX_FILE_SIZE = 1024 * 1024"

datatype sync_scope = Shared | Profile

text \<open>A file by its name and path, or a folder by its prefix and the ending of its files. The path of a single file
  depends on the scope: both have a \<open>settings.json\<close>.\<close>

datatype sync_path = FilePath sync_scope string | FolderPath string string

datatype location = LocFile string sync_path | LocFolder string string

definition shared_locations :: "bool \<Rightarrow> location list" where
  "shared_locations shared_settings =
     (if shared_settings then [LocFile ''settings.json'' (FilePath Shared ''settings.json'')] else [])
     @ [LocFile ''keymap.json'' (FilePath Shared ''keymap.json''), LocFile ''profiles.json'' (FilePath Shared ''profiles.json''),
        LocFolder ''themes'' ''.json'']"

definition profile_locations :: "location list" where
  "profile_locations =
     [LocFile ''settings.json'' (FilePath Profile ''settings.json''), LocFile ''tasks.json'' (FilePath Profile ''tasks.json''),
      LocFile ''debug.json'' (FilePath Profile ''debug.json''), LocFile ''AGENTS.md'' (FilePath Profile ''AGENTS.md''),
      LocFolder ''snippets'' ''.json'', LocFolder ''agents'' ''.md'', LocFolder ''flows'' ''.flow.md'']"

definition locations :: "bool \<Rightarrow> sync_scope \<Rightarrow> location list" where
  "locations shared_settings scope = (case scope of
     Shared \<Rightarrow> shared_locations shared_settings
   | Profile \<Rightarrow> profile_locations)"

definition is_syncable_file_name :: "string \<Rightarrow> string \<Rightarrow> bool" where
  "is_syncable_file_name file_name ending =
     (suffix ending file_name \<and> \<not> prefix ''.'' file_name \<and> \<not> str_contains file_name FOLDER_SEPARATOR \<and>
      CHR ''/'' \<notin> set file_name \<and> CHR 0x5C \<notin> set file_name)"

text \<open>A file on disk: its length in bytes, and its text when it is UTF-8.\<close>

record local_file =
  lf_len :: nat
  lf_text :: "string option"

type_synonym file_store = "(sync_path \<times> local_file) list"

definition read_text_file :: "local_file \<Rightarrow> string option" where
  "read_text_file f =
     (if lf_len f > MAX_FILE_SIZE then None
      else case lf_text f of
        None \<Rightarrow> None
      | Some content \<Rightarrow> if trim content \<noteq> [] then Some content else None)"

text \<open>What one location contributes; a path that does not exist is skipped.\<close>

definition read_entry :: "string \<Rightarrow> string \<Rightarrow> sync_path \<times> local_file \<Rightarrow> (string \<times> string) option" where
  "read_entry folder ending = (\<lambda>(path, f). case path of
     FolderPath p file_name \<Rightarrow>
       if p = folder \<and> is_syncable_file_name file_name ending
       then map_option (Pair (folder @ FOLDER_SEPARATOR @ file_name)) (read_text_file f)
       else None
   | FilePath _ _ \<Rightarrow> None)"

fun read_location :: "file_store \<Rightarrow> location \<Rightarrow> (string \<times> string) list" where
  "read_location store (LocFile name path) = (case Option.bind (map_of store path) read_text_file of
     Some content \<Rightarrow> [(name, content)]
   | None \<Rightarrow> [])"
| "read_location store (LocFolder folder ending) = List.map_filter (read_entry folder ending) store"

definition read_local_files :: "location list \<Rightarrow> file_store \<Rightarrow> files" where
  "read_local_files locs store = bt_extend [] (concat (map (read_location store) locs))"

fun location_path :: "location \<Rightarrow> string \<Rightarrow> sync_path option" where
  "location_path (LocFile file_name path) name = (if file_name = name then Some path else None)"
| "location_path (LocFolder folder ending) name =
     Option.bind (strip_prefix folder name) (\<lambda>rest.
     Option.bind (strip_prefix FOLDER_SEPARATOR rest) (\<lambda>file_name.
     if is_syncable_file_name file_name ending then Some (FolderPath folder file_name) else None))"

fun local_path :: "location list \<Rightarrow> string \<Rightarrow> sync_path option" where
  "local_path [] name = None"
| "local_path (l # ls) name = (case location_path l name of Some p \<Rightarrow> Some p | None \<Rightarrow> local_path ls name)"

definition text_file :: "string \<Rightarrow> local_file" where
  "text_file content = \<lparr>lf_len = utf8_len content, lf_text = Some content\<rparr>"

definition put_file :: "'k \<Rightarrow> 'v \<Rightarrow> ('k \<times> 'v) list \<Rightarrow> ('k \<times> 'v) list" where
  "put_file path f store = (path, f) # filter (\<lambda>(p, _). p \<noteq> path) store"

definition remove_file :: "'k \<Rightarrow> ('k \<times> 'v) list \<Rightarrow> ('k \<times> 'v) list" where
  "remove_file path store = filter (\<lambda>(p, _). p \<noteq> path) store"

record sync_record =
  sr_gist_id :: "string option"
  sr_owner :: "string option"
  sr_base :: hashes

definition record_default :: sync_record where
  "record_default = \<lparr>sr_gist_id = None, sr_owner = None, sr_base = []\<rparr>"

definition file_hashes :: "(string \<Rightarrow> string) \<Rightarrow> files \<Rightarrow> hashes" where
  "file_hashes h fs = map (\<lambda>(name, content). (name, h content)) fs"

text \<open>An equation that evaluates without counting to the maximum.\<close>

lemma larger_than_maximum [code_unfold]: "MAX_FILE_SIZE < n \<longleftrightarrow> 0 < (n - 1) div 32 div 32 div 32 div 32"
proof -
  have "MAX_FILE_SIZE < n \<longleftrightarrow> 1048576 \<le> n - 1" by (auto simp: MAX_FILE_SIZE_def)
  also have "\<dots> \<longleftrightarrow> 0 < (n - 1) div 1048576" by (simp add: div_greater_zero_iff)
  finally show ?thesis by (simp add: div_mult2_eq [symmetric])
qed

section \<open>What the plan decides\<close>

lemma set_plan_names: "set (plan_names l r) = fst ` set l \<union> fst ` set r"
  by (simp add: plan_names_def bt_keys_def)

lemma distinct_plan_names: "distinct (plan_names l r)"
proof -
  have "sorted xs \<Longrightarrow> distinct (remdups_adj xs)" for xs :: "string list"
    by (induction xs rule: remdups_adj.induct) (auto simp: less_le)
  then show ?thesis by (simp add: plan_names_def)
qed

lemma map_filter_keys: "map fst (List.map_filter (\<lambda>k. map_option (Pair k) (f k)) ks) = filter (\<lambda>k. f k \<noteq> None) ks"
  by (induction ks) (auto split: option.splits)

lemma map_of_map_filter:
  "map_of (List.map_filter (\<lambda>k. map_option (Pair k) (f k)) ks) k = (if k \<in> set ks then f k else None)"
  by (induction ks) (auto split: option.splits)

lemma plan_sync_get:
  "map_of (plan_sync l r b winner) n = plan_file (bt_get l n) (bt_get r n) (bt_get b n) winner"
proof (cases "n \<in> set (plan_names l r)")
  case False
  then have "bt_get l n = None" "bt_get r n = None"
    by (auto simp: set_plan_names bt_get_def map_of_eq_None_iff)
  with False show ?thesis by (simp add: plan_sync_def map_of_map_filter plan_file_def)
qed (simp add: plan_sync_def map_of_map_filter)

lemma distinct_plan_sync: "distinct (map fst (plan_sync l r b winner))"
  by (simp add: plan_sync_def map_filter_keys distinct_plan_names)

lemma bt_get_hashes: "bt_get (file_hashes h fs) n = map_option h (bt_get fs n)"
  by (induction fs) (auto simp: file_hashes_def bt_get_def)

section \<open>Names and paths\<close>

fun path_name :: "sync_path \<Rightarrow> string" where
  "path_name (FilePath _ name) = name"
| "path_name (FolderPath folder file_name) = folder @ FOLDER_SEPARATOR @ file_name"

definition well_placed :: "location \<Rightarrow> bool" where
  "well_placed l = (case l of LocFile name path \<Rightarrow> path_name path = name | LocFolder _ _ \<Rightarrow> True)"

definition apart :: "location \<Rightarrow> location \<Rightarrow> bool" where
  "apart l k = (\<forall>n. location_path l n = None \<or> location_path k n = None)"

lemma location_path_name: "well_placed l \<Longrightarrow> location_path l n = Some p \<Longrightarrow> path_name p = n"
  by (cases l) (auto simp: well_placed_def strip_prefix_Some split: if_splits Option.bind_splits)

lemma locations_apart: "sorted_wrt apart (locations b scope)"
  by (cases scope) (auto simp: locations_def shared_locations_def profile_locations_def apart_def strip_prefix_Some
      FOLDER_SEPARATOR_def split: Option.bind_splits)

lemma locations_placed: "\<forall>l\<in>set (locations b scope). well_placed l"
  by (cases scope) (auto simp: locations_def shared_locations_def profile_locations_def well_placed_def)

lemma local_path_name: "local_path (locations b scope) n = Some p \<Longrightarrow> path_name p = n"
proof -
  have "local_path ls n = Some p \<Longrightarrow> \<forall>l\<in>set ls. well_placed l \<Longrightarrow> path_name p = n" for ls
    by (induction ls) (auto dest: location_path_name split: option.splits)
  with locations_placed show "local_path (locations b scope) n = Some p \<Longrightarrow> path_name p = n" by blast
qed

lemma manifest_not_synced: "local_path (locations b scope) MANIFEST_NAME = None"
  by (cases scope) (auto simp: locations_def shared_locations_def profile_locations_def MANIFEST_NAME_def strip_prefix_def)

definition reads :: "file_store \<Rightarrow> sync_path \<Rightarrow> string option" where
  "reads store p = Option.bind (map_of store p) read_text_file"

lemma keys_read_location: "(n, c) \<in> set (read_location store l) \<Longrightarrow> location_path l n \<noteq> None"
  by (cases l) (auto simp: set_map_filter read_entry_def strip_prefix_Some split: option.splits sync_path.splits if_splits)

lemma folder_path_iff:
  "location_path (LocFolder folder ending) n = Some q \<longleftrightarrow>
     (\<exists>f. q = FolderPath folder f \<and> n = folder @ FOLDER_SEPARATOR @ f \<and> is_syncable_file_name f ending)"
  by (auto simp: strip_prefix_Some split: Option.bind_splits)

lemma read_folder:
  assumes "distinct (map fst store)"
  shows "distinct (map fst (List.map_filter (read_entry folder ending) store)) \<and>
    map_of (List.map_filter (read_entry folder ending) store) n =
      Option.bind (location_path (LocFolder folder ending) n) (reads store)"
  using assms
proof (induction store)
  case (Cons e store)
  obtain path lf where e: "e = (path, lf)" by (cases e)
  let ?rest = "List.map_filter (read_entry folder ending) store"
  have IH: "distinct (map fst ?rest)" "map_of ?rest n = Option.bind (location_path (LocFolder folder ending) n) (reads store)"
    using Cons by (auto simp del: location_path.simps)
  have "map_of store path = None" using Cons.prems e by (simp add: map_of_eq_None_iff)
  then have new: "reads store path = None" by (simp add: reads_def)
  have old: "q \<noteq> path \<Longrightarrow> reads (e # store) q = reads store q" for q by (simp add: reads_def e)
  show ?case
  proof (cases "read_entry folder ending e")
    case None
    have "reads (e # store) q = reads store q" if "location_path (LocFolder folder ending) n = Some q" for q
      using that None new by (cases "q = path") (auto simp: folder_path_iff read_entry_def e reads_def simp del: location_path.simps)
    with None IH show ?thesis by (auto split: Option.bind_splits simp del: location_path.simps)
  next
    case (Some kc)
    then obtain f c where kc: "kc = (folder @ FOLDER_SEPARATOR @ f, c)" "path = FolderPath folder f" "is_syncable_file_name f ending"
        "read_text_file lf = Some c"
      by (auto simp: read_entry_def e split: sync_path.splits if_splits)
    have "folder @ FOLDER_SEPARATOR @ f \<notin> fst ` set ?rest"
    proof
      assume "folder @ FOLDER_SEPARATOR @ f \<in> fst ` set ?rest"
      then have "path \<in> fst ` set store"
        by (force simp: set_map_filter read_entry_def kc(2) split: sync_path.splits if_splits)
      with Cons.prems e show False by simp
    qed
    moreover have "reads (e # store) path = Some c" using kc by (simp add: reads_def e)
    moreover have "location_path (LocFolder folder ending) n = Some q \<Longrightarrow> n \<noteq> folder @ FOLDER_SEPARATOR @ f \<Longrightarrow> q \<noteq> path" for q
      using kc(2) by (auto simp: folder_path_iff simp del: location_path.simps)
    moreover have "location_path (LocFolder folder ending) (folder @ FOLDER_SEPARATOR @ f) = Some path"
      using kc by (simp add: folder_path_iff del: location_path.simps)
    ultimately show ?thesis using Some kc(1) IH old by (auto split: Option.bind_splits simp del: location_path.simps)
  qed
qed (simp add: reads_def split: Option.bind_splits)

lemma map_of_read_location:
  assumes "distinct (map fst store)"
  shows "distinct (map fst (read_location store l)) \<and>
    map_of (read_location store l) n = Option.bind (location_path l n) (reads store)"
  using read_folder [OF assms] by (cases l) (auto simp: reads_def split: option.splits simp del: location_path.simps(2))

lemma map_of_read_locations:
  assumes "distinct (map fst store)" "sorted_wrt apart ls"
  shows "distinct (map fst (concat (map (read_location store) ls))) \<and>
    map_of (concat (map (read_location store) ls)) n = Option.bind (local_path ls n) (reads store)"
  using assms(2)
proof (induction ls)
  case (Cons l ls)
  have "location_path l k \<noteq> None \<Longrightarrow> location_path m k = None" if "m \<in> set ls" for m k
    using Cons.prems that unfolding apart_def sorted_wrt.simps by (metis option.distinct(1))
  then have "fst ` set (read_location store l) \<inter> fst ` set (concat (map (read_location store) ls)) = {}"
    using keys_read_location by fastforce
  moreover have none: "location_path l n \<noteq> None \<Longrightarrow> local_path ls n = None"
  proof -
    assume l: "location_path l n \<noteq> None"
    have "\<forall>m\<in>set ls. location_path m n = None" using Cons.prems l unfolding apart_def sorted_wrt.simps by metis
    then show "local_path ls n = None" by (induction ls) auto
  qed
  moreover have "location_path l n = None \<Longrightarrow> map_of (read_location store l) n = None"
    using map_of_read_location [OF assms(1), of l n] by simp
  ultimately show ?case
    using Cons map_of_read_location [OF assms(1), of l n]
    by (auto simp: map_add_def split: option.splits)
qed simp

text \<open>What the sync reads under a name is what is at its path.\<close>

lemma read_local_files_get:
  assumes "distinct (map fst store)"
  shows "bt_get (read_local_files (locations b scope) store) n = Option.bind (local_path (locations b scope) n) (reads store)"
proof -
  let ?es = "concat (map (read_location store) (locations b scope))"
  have d: "distinct (map fst ?es)" "map_of ?es n = Option.bind (local_path (locations b scope) n) (reads store)"
    using map_of_read_locations [OF assms locations_apart] by auto
  have "map_of (rev ?es) n = Some c \<longleftrightarrow> map_of ?es n = Some c" for c using d(1) by (simp add: distinct_rev flip: rev_map)
  then have "map_of (rev ?es) n = map_of ?es n" by (cases "map_of ?es n") auto
  with d(2) show ?thesis by (simp add: read_local_files_def bt_get_extend split: option.splits)
qed

lemma read_local_files_wf: "bt_wf (read_local_files locs store)"
  by (simp add: read_local_files_def bt_wf_extend)

end
