(* ===== verification/Github.thy ===== *)
theory Github
  imports SyncFiles
begin

text \<open>
  The requests of the settings sync to GitHub (\<open>crates/settings_sync/src/github.rs\<close>). The service itself is a parameter, a record of
  its endpoints on a state of its own: each answers with a status and the body it parses to, or is not reached. On top of it are the
  functions of the file: \<open>send\<close> and \<open>api\<close> with their errors, the search over pages, reading the files of a gist with the
  raw contents of the files that come back cut short, creating and patching a gist, and reading the
  answer to a poll for the token. \<open>github_ok\<close> states what the code relies on of the service, and \<open>gist_api_ok\<close> what the sync relies on of this file; the lemma
  \<open>github_api_ok\<close> shows that the one gives the other.
\<close>

section \<open>Answers of the service\<close>

datatype sync_error = NotFound | Unauthorized | SyncFailed string

datatype 'a response = Unreachable | Response nat "'a option"

record gist_file =
  gf_content :: "string option"
  gf_truncated :: bool
  gf_raw_url :: "string option"

record gist =
  gi_id :: string
  gi_description :: "string option"
  gi_files :: "(string \<times> gist_file) list"

record 'w github =
  gh_list :: "nat \<Rightarrow> 'w \<Rightarrow> gist list response \<times> 'w"
  gh_get :: "string \<Rightarrow> 'w \<Rightarrow> gist response \<times> 'w"
  gh_raw :: "string \<Rightarrow> 'w \<Rightarrow> string response \<times> 'w"
  gh_post :: "string \<Rightarrow> files \<Rightarrow> 'w \<Rightarrow> gist response \<times> 'w"
  gh_patch :: "string \<Rightarrow> (string, string option) btree \<Rightarrow> 'w \<Rightarrow> gist response \<times> 'w"

definition send :: "'a response \<Rightarrow> sync_error + nat \<times> 'a option" where
  "send r = (case r of
     Unreachable \<Rightarrow> Inl (SyncFailed ''settings_sync.error.unreachable'')
   | Response status body \<Rightarrow> if status = 401 then Inl Unauthorized else Inr (status, body))"

definition is_success :: "nat \<Rightarrow> bool" where
  "is_success status = (200 \<le> status \<and> status < 300)"

definition api :: "'a response \<Rightarrow> sync_error + 'a" where
  "api r = (case send r of
     Inl e \<Rightarrow> Inl e
   | Inr (status, body) \<Rightarrow>
       if status = 404 then Inl NotFound
       else if \<not> is_success status then Inl (SyncFailed ''settings_sync.error.status'')
       else case body of
         Some x \<Rightarrow> Inr x
       | None \<Rightarrow> Inl (SyncFailed ''settings_sync.error.unexpected_response''))"

section \<open>Gists\<close>

definition MAX_PAGES :: nat where
  "MAX_PAGES = 20"

fun find_pages :: "'w github \<Rightarrow> string \<Rightarrow> nat list \<Rightarrow> 'w \<Rightarrow> (sync_error + string option) \<times> 'w" where
  "find_pages S description [] w = (Inr None, w)"
| "find_pages S description (page # pages) w = (case gh_list S page w of (r, w) \<Rightarrow>
     (case api r of
        Inl e \<Rightarrow> (Inl e, w)
      | Inr gists \<Rightarrow> (case find (\<lambda>gist. gi_description gist = Some description) gists of
          Some gist \<Rightarrow> (Inr (Some (gi_id gist)), w)
        | None \<Rightarrow> if length gists < 100 then (Inr None, w) else find_pages S description pages w)))"

definition find_gist :: "'w github \<Rightarrow> string \<Rightarrow> 'w \<Rightarrow> (sync_error + string option) \<times> 'w" where
  "find_gist S description = find_pages S description [1..<MAX_PAGES + 1]"

fun fetch_files :: "'w github \<Rightarrow> (string \<times> gist_file) list \<Rightarrow> files \<Rightarrow> 'w \<Rightarrow> (sync_error + files) \<times> 'w" where
  "fetch_files S [] files w = (Inr files, w)"
| "fetch_files S ((name, f) # rest) files w = (case (gf_truncated f, gf_raw_url f, gf_content f) of
     (True, Some raw_url, _) \<Rightarrow> (case gh_raw S raw_url w of (r, w) \<Rightarrow>
       (case send r of
          Inl e \<Rightarrow> (Inl e, w)
        | Inr (status, body) \<Rightarrow>
            if \<not> is_success status then (Inl (SyncFailed ''settings_sync.error.download_status''), w)
            else (case body of
              Some content \<Rightarrow> fetch_files S rest (bt_insert name content files) w
            | None \<Rightarrow> (Inl (SyncFailed ''settings_sync.error.unreachable''), w))))
   | (_, _, Some content) \<Rightarrow> fetch_files S rest (bt_insert name content files) w
   | (_, _, None) \<Rightarrow> fetch_files S rest files w)"

definition gist_files :: "'w github \<Rightarrow> string \<Rightarrow> 'w \<Rightarrow> (sync_error + files) \<times> 'w" where
  "gist_files S gist_id w = (case gh_get S gist_id w of (r, w) \<Rightarrow>
     (case api r of Inl e \<Rightarrow> (Inl e, w) | Inr gist \<Rightarrow> fetch_files S (gi_files gist) [] w))"

definition create_gist :: "'w github \<Rightarrow> string \<Rightarrow> files \<Rightarrow> 'w \<Rightarrow> (sync_error + string) \<times> 'w" where
  "create_gist S description files w = (case gh_post S description files w of (r, w) \<Rightarrow> (map_sum id gi_id (api r), w))"

definition update_gist :: "'w github \<Rightarrow> string \<Rightarrow> (string, string option) btree \<Rightarrow> 'w \<Rightarrow> (sync_error + unit) \<times> 'w" where
  "update_gist S gist_id files w = (case gh_patch S gist_id files w of (r, w) \<Rightarrow> (map_sum id (\<lambda>_. ()) (api r), w))"

text \<open>The four functions the sync calls.\<close>

record 'w gist_api =
  api_gist_files :: "string \<Rightarrow> 'w \<Rightarrow> (sync_error + files) \<times> 'w"
  api_find_gist :: "string \<Rightarrow> 'w \<Rightarrow> (sync_error + string option) \<times> 'w"
  api_create_gist :: "string \<Rightarrow> files \<Rightarrow> 'w \<Rightarrow> (sync_error + string) \<times> 'w"
  api_update_gist :: "string \<Rightarrow> (string, string option) btree \<Rightarrow> 'w \<Rightarrow> (sync_error + unit) \<times> 'w"

definition github_api :: "'w github \<Rightarrow> 'w gist_api" where
  "github_api S = \<lparr>api_gist_files = gist_files S, api_find_gist = find_gist S, api_create_gist = create_gist S,
     api_update_gist = update_gist S\<rparr>"

section \<open>Polling for the token\<close>

datatype token_poll = Pending | SlowDown | Authorized string

record poll_response =
  pr_access_token :: "string option"
  pr_error :: "string option"
  pr_error_description :: "string option"

definition poll_for_token :: "poll_response response \<Rightarrow> sync_error + token_poll" where
  "poll_for_token r = (case send r of
     Inl e \<Rightarrow> Inl e
   | Inr (_, None) \<Rightarrow> Inl (SyncFailed ''settings_sync.error.unexpected_poll_response'')
   | Inr (_, Some response) \<Rightarrow> (case pr_access_token response of
       Some token \<Rightarrow> Inr (Authorized token)
     | None \<Rightarrow>
         if pr_error response = Some ''authorization_pending'' then Inr Pending
         else if pr_error response = Some ''slow_down'' then Inr SlowDown
         else if pr_error response = Some ''expired_token'' then Inl (SyncFailed ''settings_sync.error.code_expired'')
         else if pr_error response = Some ''access_denied'' then Inl (SyncFailed ''settings_sync.error.cancelled'')
         else Inl (SyncFailed ''settings_sync.error.sign_in_failed'')))"

section \<open>What the code relies on\<close>

text \<open>\<open>gists\<close> tells the files a gist of the service has. Looking at gists changes none. A gist that is found has the
  files it has, each with its content, or cut short and with a URL that gives the whole content for as long as the gists
  stay as they are. A gist is not found only when there is none. Creating a gist leaves the
  others alone; a patch changes at most the one gist, and one that succeeds has changed it.\<close>

definition patched :: "(string, string option) btree \<Rightarrow> (string \<Rightarrow> string option) \<Rightarrow> string \<Rightarrow> string option" where
  "patched changes fs n = (case bt_get changes n of Some c \<Rightarrow> c | None \<Rightarrow> fs n)"

definition served :: "'w github \<Rightarrow> ('w \<Rightarrow> string \<Rightarrow> (string \<rightharpoonup> string) option) \<Rightarrow> ('w \<Rightarrow> bool) \<Rightarrow> gist_file \<Rightarrow> string \<Rightarrow> bool" where
  "served S gists now f content =
     (if gf_truncated f
      then (\<exists>url. gf_raw_url f = Some url \<and> (\<forall>w w' status body. now w \<and> gh_raw S url w = (Response status (Some body), w') \<and> is_success status \<longrightarrow> body = content))
      else gf_content f = Some content)"

definition gist_served :: "'w github \<Rightarrow> ('w \<Rightarrow> string \<Rightarrow> (string \<rightharpoonup> string) option) \<Rightarrow> string \<Rightarrow> 'w \<Rightarrow> gist \<Rightarrow> bool" where
  "gist_served S gists g w gist = (distinct (map fst (gi_files gist)) \<and> (\<exists>fs. gists w g = Some fs \<and>
     (\<forall>n. fs n = None \<longleftrightarrow> n \<notin> fst ` set (gi_files gist)) \<and>
     (\<forall>(n, f)\<in>set (gi_files gist). \<exists>c. fs n = Some c \<and> served S gists (\<lambda>v. gists v = gists w) f c)))"

definition github_ok :: "'w github \<Rightarrow> ('w \<Rightarrow> string \<Rightarrow> (string \<rightharpoonup> string) option) \<Rightarrow> bool" where
  "github_ok S gists =
     ((\<forall>page w. gists (snd (gh_list S page w)) = gists w) \<and> (\<forall>url w. gists (snd (gh_raw S url w)) = gists w) \<and>
      (\<forall>g w r w'. gh_get S g w = (r, w') \<longrightarrow> gists w' = gists w \<and>
        (\<forall>gist. api r = Inr gist \<longrightarrow> gist_served S gists g w gist) \<and> (api r = Inl NotFound \<longrightarrow> gists w g = None)) \<and>
      (\<forall>d fs w r w'. gh_post S d fs w = (r, w') \<longrightarrow>
        (\<forall>g fs. gists w g = Some fs \<longrightarrow> gists w' g = Some fs) \<and> (\<forall>gist. api r = Inr gist \<longrightarrow> gists w' (gi_id gist) = Some (bt_get fs))) \<and>
      (\<forall>g changes w r w'. gh_patch S g changes w = (r, w') \<longrightarrow>
        (\<forall>g'. g' \<noteq> g \<longrightarrow> gists w' g' = gists w g') \<and>
        (\<forall>fs. gists w g = Some fs \<longrightarrow> gists w' g = Some (patched changes fs) \<or> (\<forall>gist. api r \<noteq> Inr gist) \<and> gists w' g = Some fs)))"

definition gist_api_ok :: "'w gist_api \<Rightarrow> ('w \<Rightarrow> string \<Rightarrow> (string \<rightharpoonup> string) option) \<Rightarrow> bool" where
  "gist_api_ok A gists =
     ((\<forall>g w r w'. api_gist_files A g w = (r, w') \<longrightarrow> gists w' = gists w \<and>
        (\<forall>fs. r = Inr fs \<longrightarrow> bt_wf fs \<and> gists w g = Some (bt_get fs)) \<and> (r = Inl NotFound \<longrightarrow> gists w g = None)) \<and>
      (\<forall>d w r w'. api_find_gist A d w = (r, w') \<longrightarrow> gists w' = gists w) \<and>
      (\<forall>d fs w r w'. api_create_gist A d fs w = (r, w') \<longrightarrow>
        (\<forall>g fs. gists w g = Some fs \<longrightarrow> gists w' g = Some fs) \<and> (\<forall>g. r = Inr g \<longrightarrow> gists w' g = Some (bt_get fs))) \<and>
      (\<forall>g changes w r w'. api_update_gist A g changes w = (r, w') \<longrightarrow>
        (\<forall>g'. g' \<noteq> g \<longrightarrow> gists w' g' = gists w g') \<and>
        (\<forall>fs. gists w g = Some fs \<longrightarrow> gists w' g = Some (patched changes fs) \<or> r \<noteq> Inr () \<and> gists w' g = Some fs)))"

section \<open>The requests behave as the service does\<close>

lemma send_not_found [simp]: "send r \<noteq> Inl NotFound"
  by (auto simp: send_def split: response.splits)

lemma send_Inr: "send r = Inr (status, body) \<longleftrightarrow> r = Response status body \<and> status \<noteq> 401"
  by (auto simp: send_def split: response.splits)

lemma find_pages_gists:
  assumes "\<forall>page w. gists (snd (gh_list S page w)) = gists w"
  shows "gists (snd (find_pages S d pages w)) = gists w"
proof (induction pages arbitrary: w)
  case (Cons page pages)
  obtain r v where v: "gh_list S page w = (r, v)" by force
  have "gists v = gists w" using assms v by (metis snd_conv)
  with v Cons.IH [of v] show ?case by (auto split: sum.splits option.splits)
qed simp

text \<open>The files of a gist, the service staying as it is.\<close>

lemma fetch_files_served:
  assumes raw: "\<forall>url w. gists (snd (gh_raw S url w)) = gists w"
    and fs: "\<forall>(n, f)\<in>set rest. \<exists>c. fs n = Some c \<and> served S gists (\<lambda>v. gists v = G) f c" "distinct (map fst rest)"
    and w: "gists w = G" "bt_wf acc" and res: "fetch_files S rest acc w = (r, w')"
  shows "gists w' = G \<and> r \<noteq> Inl NotFound \<and>
    (\<forall>out. r = Inr out \<longrightarrow> bt_wf out \<and> (\<forall>n. bt_get out n = (if n \<in> fst ` set rest then fs n else bt_get acc n)))"
  using fs w res
proof (induction rest arbitrary: acc w)
  case Nil
  then show ?case by auto
next
  case (Cons x rest)
  obtain n f where x: "x = (n, f)" by (cases x)
  obtain c where c: "fs n = Some c" "served S gists (\<lambda>v. gists v = G) f c" using Cons.prems(1) x by auto
  have next_file: "gists w' = G \<and> r \<noteq> Inl NotFound \<and> (\<forall>out. r = Inr out \<longrightarrow> bt_wf out \<and>
      (\<forall>m. bt_get out m = (if m \<in> fst ` set (x # rest) then fs m else bt_get acc m)))"
    if "fetch_files S rest (bt_insert n c acc) v = (r, w')" "gists v = G" for v
    using Cons.IH [of v "bt_insert n c acc"] Cons.prems(1,2,4) that c(1) by (auto simp: bt_wf_insert x)
  show ?case
  proof (cases "gf_truncated f")
    case False
    then have "gf_content f = Some c" using c(2) by (simp add: served_def)
    with Cons.prems(3,5) False show ?thesis by (intro next_file [of w]) (auto simp: x)
  next
    case True
    then obtain url where url: "gf_raw_url f = Some url"
        "\<And>v v' status body. gists v = G \<Longrightarrow> gh_raw S url v = (Response status (Some body), v') \<Longrightarrow> is_success status \<Longrightarrow> body = c"
      using c(2) by (auto simp: served_def)
    obtain rr v where v: "gh_raw S url w = (rr, v)" by force
    have gv: "gists v = G" using raw v Cons.prems(3) by (metis snd_conv)
    show ?thesis
    proof (cases "\<exists>status body. send rr = Inr (status, Some body) \<and> is_success status")
      case True
      then obtain status body where b: "send rr = Inr (status, Some body)" "is_success status" by blast
      then have "body = c" using url(2) [of w status body v] v Cons.prems(3) by (simp add: send_Inr)
      with b Cons.prems(5) \<open>gf_truncated f\<close> url(1) v gv show ?thesis by (intro next_file [of v]) (auto simp: x)
    next
      case False
      with Cons.prems(5) \<open>gf_truncated f\<close> url(1) v gv send_not_found [of rr] show ?thesis
        by (auto simp: x split: sum.splits option.splits if_splits)
    qed
  qed
qed

lemma github_okD:
  assumes "github_ok S gists"
  shows "\<forall>page w. gists (snd (gh_list S page w)) = gists w" "\<forall>url w. gists (snd (gh_raw S url w)) = gists w"
    "gh_get S g w = (r, w') \<Longrightarrow> gists w' = gists w \<and>
       (\<forall>gist. api r = Inr gist \<longrightarrow> gist_served S gists g w gist) \<and> (api r = Inl NotFound \<longrightarrow> gists w g = None)"
    "gh_post S d new w = (r, w') \<Longrightarrow> (\<forall>g fs. gists w g = Some fs \<longrightarrow> gists w' g = Some fs) \<and>
       (\<forall>gist. api r = Inr gist \<longrightarrow> gists w' (gi_id gist) = Some (bt_get new))"
    "gh_patch S g changes w = (r, w') \<Longrightarrow> (\<forall>g'. g' \<noteq> g \<longrightarrow> gists w' g' = gists w g') \<and>
       (\<forall>fs. gists w g = Some fs \<longrightarrow> gists w' g = Some (patched changes fs) \<or> (\<forall>gist. api r \<noteq> Inr gist) \<and> gists w' g = Some fs)"
proof -
  note laws = assms [unfolded github_ok_def]
  show "\<forall>page w. gists (snd (gh_list S page w)) = gists w" by (rule laws [THEN conjunct1])
  show "\<forall>url w. gists (snd (gh_raw S url w)) = gists w" by (rule laws [THEN conjunct2, THEN conjunct1])
  show "gists w' = gists w \<and> (\<forall>gist. api r = Inr gist \<longrightarrow> gist_served S gists g w gist) \<and> (api r = Inl NotFound \<longrightarrow> gists w g = None)"
    if "gh_get S g w = (r, w')"
    using laws [THEN conjunct2, THEN conjunct2, THEN conjunct1] that by blast
  show "(\<forall>g fs. gists w g = Some fs \<longrightarrow> gists w' g = Some fs) \<and> (\<forall>gist. api r = Inr gist \<longrightarrow> gists w' (gi_id gist) = Some (bt_get new))"
    if "gh_post S d new w = (r, w')"
    using laws [THEN conjunct2, THEN conjunct2, THEN conjunct2, THEN conjunct1] that by blast
  show "(\<forall>g'. g' \<noteq> g \<longrightarrow> gists w' g' = gists w g') \<and>
       (\<forall>fs. gists w g = Some fs \<longrightarrow> gists w' g = Some (patched changes fs) \<or> (\<forall>gist. api r \<noteq> Inr gist) \<and> gists w' g = Some fs)"
    if "gh_patch S g changes w = (r, w')"
    using laws [THEN conjunct2, THEN conjunct2, THEN conjunct2, THEN conjunct2] that by blast
qed

lemma gist_files_served:
  assumes ok: "github_ok S gists" and r: "gist_files S g w = (r, w')"
  shows "gists w' = gists w \<and> (\<forall>fs. r = Inr fs \<longrightarrow> bt_wf fs \<and> gists w g = Some (bt_get fs)) \<and> (r = Inl NotFound \<longrightarrow> gists w g = None)"
proof -
  obtain r1 v where v: "gh_get S g w = (r1, v)" by force
  have get: "gists v = gists w" "\<And>gist. api r1 = Inr gist \<Longrightarrow> gist_served S gists g w gist" "api r1 = Inl NotFound \<Longrightarrow> gists w g = None"
    using github_okD(3) [OF ok v] by auto
  note raw = github_okD(2) [OF ok]
  show ?thesis
  proof (cases "api r1")
    case (Inl e)
    with r v get show ?thesis by (auto simp: gist_files_def)
  next
    case (Inr gist)
    from get(2) [OF this] obtain fs where fs: "distinct (map fst (gi_files gist))" "gists w g = Some fs"
        "\<forall>n. fs n = None \<longleftrightarrow> n \<notin> fst ` set (gi_files gist)"
        "\<forall>(n, f)\<in>set (gi_files gist). \<exists>c. fs n = Some c \<and> served S gists (\<lambda>v. gists v = gists w) f c"
      unfolding gist_served_def by blast
    have "fetch_files S (gi_files gist) [] v = (r, w')" using r v Inr by (simp add: gist_files_def)
    from fetch_files_served [OF raw fs(4,1) get(1) _ this]
    have out: "gists w' = gists w" "r \<noteq> Inl NotFound"
        "\<And>out. r = Inr out \<Longrightarrow> bt_wf out \<and> (\<forall>n. bt_get out n = (if n \<in> fst ` set (gi_files gist) then fs n else None))"
      by auto
    have "bt_get out' = fs" if "r = Inr out'" for out'
    proof
      fix n
      show "bt_get out' n = fs n" using out(3) [OF that] fs(3) [rule_format, of n] by auto
    qed
    with out fs(2) show ?thesis by auto
  qed
qed

lemma github_api_ok:
  assumes ok: "github_ok S gists"
  shows "gist_api_ok (github_api S) gists"
proof -
  show ?thesis unfolding gist_api_ok_def
  proof (intro conjI; intro allI impI)
    fix g w r w' assume "api_gist_files (github_api S) g w = (r, w')"
    then show "gists w' = gists w \<and> (\<forall>fs. r = Inr fs \<longrightarrow> bt_wf fs \<and> gists w g = Some (bt_get fs)) \<and> (r = Inl NotFound \<longrightarrow> gists w g = None)"
      using gist_files_served [OF ok] by (simp add: github_api_def)
  next
    fix d w r w' assume "api_find_gist (github_api S) d w = (r, w')"
    then show "gists w' = gists w"
      using find_pages_gists [of gists S d "[1..<MAX_PAGES + 1]" w, OF github_okD(1) [OF ok]] by (simp add: github_api_def find_gist_def)
  next
    fix d fs w r w' assume a: "api_create_gist (github_api S) d fs w = (r, w')"
    obtain r1 v where v: "gh_post S d fs w = (r1, v)" by force
    with a have "w' = v" "r = map_sum id gi_id (api r1)" by (simp_all add: github_api_def create_gist_def)
    with github_okD(4) [OF ok v] show "(\<forall>g fs. gists w g = Some fs \<longrightarrow> gists w' g = Some fs) \<and> (\<forall>g. r = Inr g \<longrightarrow> gists w' g = Some (bt_get fs))"
      by (cases "api r1") auto
  next
    fix g changes w r w' assume a: "api_update_gist (github_api S) g changes w = (r, w')"
    obtain r1 v where v: "gh_patch S g changes w = (r1, v)" by force
    with a have "w' = v" "r = map_sum id (\<lambda>_. ()) (api r1)" by (simp_all add: github_api_def update_gist_def)
    with github_okD(5) [OF ok v] show "(\<forall>g'. g' \<noteq> g \<longrightarrow> gists w' g' = gists w g') \<and>
        (\<forall>fs. gists w g = Some fs \<longrightarrow> gists w' g = Some (patched changes fs) \<or> r \<noteq> Inr () \<and> gists w' g = Some fs)"
      by (cases "api r1") auto
  qed
qed

end
