(* ===== verification/SettingsSync.thy ===== *)
theory SettingsSync
  imports Github
begin

text \<open>
  The sync of the user's settings with a private gist: \<open>run_sync\<close> and \<open>run_all_syncs\<close> of
  \<open>crates/settings_sync/src/settings_sync.rs\<close>, with every early return on an error.

  GitHub is the parameter of \<open>Github\<close>, with its documented behaviour as the hypothesis \<open>github_ok\<close>.
  The hash of a content is a parameter too. Reading and writing the local files may fail at
  every call, as \<open>se_fails\<close> says, and while a request to GitHub is under way the user may change local
  files, as \<open>se_edits\<close> says; \<open>quiet\<close> says that nobody does. A predicate on results and worlds, \<open>io_all\<close>, goes
  through the operations as a postcondition does. The lemmas show that no content is lost whatever fails, that both
  sides agree after a sync that succeeds, and that the next one then does nothing.
\<close>

section \<open>The outside world\<close>

datatype local_call = ReadRecord | ReadFiles | WriteBackup string | WriteFile string | DeleteFile string | ReadFilesAgain | WriteRecord | DeleteRecord

datatype remote_call = GistFiles | FindGist | FoundFiles | CreateGist | UpdateGist

record 'w sync_env =
  se_hash :: "string \<Rightarrow> string"
  se_service :: "'w github"
  se_shared_settings :: bool
  se_now :: string
  se_fails :: "local_call \<Rightarrow> sync_error option"
  se_edits :: "remote_call \<Rightarrow> file_store \<Rightarrow> file_store"

definition se_api :: "'w sync_env \<Rightarrow> 'w gist_api" where
  "se_api E = github_api (se_service E)"

text \<open>A backup is named by the time, the side it comes from and the name of the file.\<close>

type_synonym backup_name = "string \<times> string \<times> string"

record 'w sync_world =
  sw_store :: file_store
  sw_record :: "sync_scope \<Rightarrow> sync_record"
  sw_backups :: "(backup_name \<times> string) list"
  sw_remote :: 'w

text \<open>An operation returns a value or an error, and leaves the world changed in both cases.\<close>

type_synonym ('w, 'a) io = "'w sync_world \<Rightarrow> (sync_error + 'a) \<times> 'w sync_world"

definition io_return :: "'a \<Rightarrow> ('w, 'a) io" where
  "io_return x w = (Inr x, w)"

definition io_bind :: "('w, 'a) io \<Rightarrow> ('a \<Rightarrow> ('w, 'b) io) \<Rightarrow> ('w, 'b) io" where
  "io_bind m f w = (case m w of (Inl e, w) \<Rightarrow> (Inl e, w) | (Inr x, w) \<Rightarrow> f x w)"

definition io_error :: "sync_error \<Rightarrow> ('w, 'a) io" where
  "io_error e w = (Inl e, w)"

text \<open>A local call that fails changes nothing.\<close>

definition local_io :: "'w sync_env \<Rightarrow> local_call \<Rightarrow> ('w sync_world \<Rightarrow> 'a \<times> 'w sync_world) \<Rightarrow> ('w, 'a) io" where
  "local_io E call op w = (case se_fails E call of
     Some e \<Rightarrow> (Inl e, w)
   | None \<Rightarrow> (let (x, w) = op w in (Inr x, w)))"

text \<open>While a request is under way, local files may be edited.\<close>

definition remote_io :: "'w sync_env \<Rightarrow> remote_call \<Rightarrow> ('w \<Rightarrow> (sync_error + 'a) \<times> 'w) \<Rightarrow> ('w, 'a) io" where
  "remote_io E call op w = (let (r, remote) = op (sw_remote w) in
     (r, w\<lparr>sw_remote := remote, sw_store := se_edits E call (sw_store w)\<rparr>))"

abbreviation locs_of :: "'w sync_env \<Rightarrow> sync_scope \<Rightarrow> location list" where
  "locs_of E \<equiv> locations (se_shared_settings E)"

definition read_record :: "'w sync_env \<Rightarrow> sync_scope \<Rightarrow> ('w, sync_record) io" where
  "read_record E scope = local_io E ReadRecord (\<lambda>w. (sw_record w scope, w))"

definition write_record :: "'w sync_env \<Rightarrow> sync_scope \<Rightarrow> sync_record \<Rightarrow> ('w, unit) io" where
  "write_record E scope record = local_io E WriteRecord (\<lambda>w. ((), w\<lparr>sw_record := (sw_record w)(scope := record)\<rparr>))"

definition delete_profile_record :: "'w sync_env \<Rightarrow> ('w, unit) io" where
  "delete_profile_record E = local_io E DeleteRecord (\<lambda>w. ((), w\<lparr>sw_record := (sw_record w)(Profile := record_default)\<rparr>))"

definition write_local_file :: "'w sync_env \<Rightarrow> string \<Rightarrow> sync_path \<Rightarrow> string \<Rightarrow> ('w, unit) io" where
  "write_local_file E name path content =
     local_io E (WriteFile name) (\<lambda>w. ((), w\<lparr>sw_store := put_file path (text_file content) (sw_store w)\<rparr>))"

definition delete_local_file :: "'w sync_env \<Rightarrow> string \<Rightarrow> sync_path \<Rightarrow> ('w, unit) io" where
  "delete_local_file E name path =
     local_io E (DeleteFile name) (\<lambda>w. ((), w\<lparr>sw_store := remove_file path (sw_store w)\<rparr>))"

definition write_backup :: "'w sync_env \<Rightarrow> string \<Rightarrow> string \<Rightarrow> string \<Rightarrow> ('w, unit) io" where
  "write_backup E name content side =
     local_io E (WriteBackup name) (\<lambda>w. ((), w\<lparr>sw_backups := put_file (se_now E, side, name) content (sw_backups w)\<rparr>))"

section \<open>Running the sync\<close>

record sync_report =
  rp_uploaded :: nat
  rp_downloaded :: nat
  rp_deleted :: nat
  rp_backups :: nat

definition report_default :: sync_report where
  "report_default = \<lparr>rp_uploaded = 0, rp_downloaded = 0, rp_deleted = 0, rp_backups = 0\<rparr>"

definition report_add :: "sync_report \<Rightarrow> sync_report \<Rightarrow> sync_report" where
  "report_add other r = \<lparr>rp_uploaded = rp_uploaded r + rp_uploaded other, rp_downloaded = rp_downloaded r + rp_downloaded other,
     rp_deleted = rp_deleted r + rp_deleted other, rp_backups = rp_backups r + rp_backups other\<rparr>"

definition backup_prefix :: "sync_scope \<Rightarrow> string" where
  "backup_prefix scope = (case scope of Shared \<Rightarrow> ''shared-'' | Profile \<Rightarrow> [])"

type_synonym progress = "sync_report \<times> (string, string option) btree"

text \<open>\<open>if let Some(content) = remote.get(name)\<close>: the file is written and counted.\<close>

definition download :: "'w sync_env \<Rightarrow> files \<Rightarrow> string \<Rightarrow> sync_path \<Rightarrow> sync_report \<Rightarrow> ('w, sync_report) io" where
  "download E remote name path report = (case bt_get remote name of
     Some content \<Rightarrow> io_bind (write_local_file E name path content)
       (\<lambda>_. io_return (report\<lparr>rp_downloaded := rp_downloaded report + 1\<rparr>))
   | None \<Rightarrow> io_return report)"

definition keep_backup :: "'w sync_env \<Rightarrow> string \<Rightarrow> string option \<Rightarrow> string \<Rightarrow> sync_report \<Rightarrow> ('w, sync_report) io" where
  "keep_backup E name content side report = (case content of
     Some content \<Rightarrow> io_bind (write_backup E name content side)
       (\<lambda>_. io_return (report\<lparr>rp_backups := rp_backups report + 1\<rparr>))
   | None \<Rightarrow> io_return report)"

definition sync_file ::
  "'w sync_env \<Rightarrow> sync_scope \<Rightarrow> files \<Rightarrow> files \<Rightarrow> string \<times> sync_action \<Rightarrow> progress \<Rightarrow> ('w, progress) io" where
  "sync_file E scope local remote = (\<lambda>(name, action) (report, changes).
     case local_path (locs_of E scope) name of
       None \<Rightarrow> io_return (report, changes)
     | Some path \<Rightarrow>
         let backup = backup_prefix scope @ name;
             uploaded = (\<lambda>report. (report\<lparr>rp_uploaded := rp_uploaded report + 1\<rparr>, bt_insert name (bt_get local name) changes)) in
         (case action of
            Upload \<Rightarrow> io_return (uploaded report)
          | UploadKeepingRemoteBackup \<Rightarrow>
              io_bind (keep_backup E backup (bt_get remote name) ''github'' report) (\<lambda>report. io_return (uploaded report))
          | Download \<Rightarrow> io_bind (download E remote name path report) (\<lambda>report. io_return (report, changes))
          | DownloadKeepingLocalBackup \<Rightarrow>
              io_bind (keep_backup E backup (bt_get local name) ''local'' report) (\<lambda>report.
              io_bind (download E remote name path report) (\<lambda>report. io_return (report, changes)))
          | DeleteRemote \<Rightarrow> io_return (report\<lparr>rp_deleted := rp_deleted report + 1\<rparr>, bt_insert name None changes)
          | DeleteLocal \<Rightarrow>
              io_bind (delete_local_file E name path) (\<lambda>_. io_return (report\<lparr>rp_deleted := rp_deleted report + 1\<rparr>, changes))))"

fun sync_files ::
  "'w sync_env \<Rightarrow> sync_scope \<Rightarrow> files \<Rightarrow> files \<Rightarrow> (string \<times> sync_action) list \<Rightarrow> progress \<Rightarrow> ('w, progress) io" where
  "sync_files E scope local remote [] p = io_return p"
| "sync_files E scope local remote (a # as) p =
     io_bind (sync_file E scope local remote a p) (sync_files E scope local remote as)"

text \<open>\<open>remote.remove(MANIFEST_NAME)\<close> and \<open>remote.retain\<close>.\<close>

definition synced_remote :: "location list \<Rightarrow> files \<Rightarrow> files" where
  "synced_remote locs remote = filter (\<lambda>(name, content). local_path locs name \<noteq> None \<and> trim content \<noteq> [])
     (bt_remove MANIFEST_NAME remote)"

text \<open>The gist of the record when there is one, else the one found by its description; a gist that is gone
  makes the machine start over.\<close>

definition find_remote ::
  "'w sync_env \<Rightarrow> string \<Rightarrow> sync_record \<Rightarrow> ('w, sync_record \<times> (string \<times> files) option) io" where
  "find_remote E description record =
     (let search = (\<lambda>record. io_bind (remote_io E FindGist (api_find_gist (se_api E) description)) (\<lambda>found.
        case found of
          Some gist_id \<Rightarrow> io_bind (remote_io E FoundFiles (api_gist_files (se_api E) gist_id))
            (\<lambda>fs. io_return (record, Some (gist_id, fs)))
        | None \<Rightarrow> io_return (record, None))) in
      case sr_gist_id record of
        None \<Rightarrow> search record
      | Some gist_id \<Rightarrow> (\<lambda>w. case remote_io E GistFiles (api_gist_files (se_api E) gist_id) w of
            (Inr fs, w) \<Rightarrow> (Inr (record, Some (gist_id, fs)), w)
          | (Inl NotFound, w) \<Rightarrow> search record_default w
          | (Inl e, w) \<Rightarrow> (Inl e, w)))"

definition first_upload ::
  "'w sync_env \<Rightarrow> sync_scope \<Rightarrow> string \<Rightarrow> string option \<Rightarrow> files \<Rightarrow> ('w, sync_report) io" where
  "first_upload E scope description owner local =
     io_bind (remote_io E CreateGist (api_create_gist (se_api E) description (bt_insert MANIFEST_NAME MANIFEST_CONTENT local)))
       (\<lambda>gist_id.
     io_bind (write_record E scope \<lparr>sr_gist_id = Some gist_id, sr_owner = owner, sr_base = file_hashes (se_hash E) local\<rparr>) (\<lambda>_.
     io_return (report_default\<lparr>rp_uploaded := length local\<rparr>)))"

text \<open>The sync with the gist that was found.\<close>

definition sync_with_gist ::
  "'w sync_env \<Rightarrow> sync_scope \<Rightarrow> string option \<Rightarrow> files \<Rightarrow> sync_record \<Rightarrow> string \<Rightarrow> files \<Rightarrow> ('w, sync_report) io" where
  "sync_with_gist E scope owner local record gist_id remote =
     (let remote = synced_remote (locs_of E scope) remote;
          winner = (if sr_base record = [] then WinnerRemote else WinnerLocal);
          actions = plan_sync (file_hashes (se_hash E) local) (file_hashes (se_hash E) remote) (sr_base record) winner in
      io_bind (sync_files E scope local remote actions (report_default, [])) (\<lambda>(report, changes).
      io_bind (if changes \<noteq> [] then remote_io E UpdateGist (api_update_gist (se_api E) gist_id changes) else io_return ()) (\<lambda>_.
      io_bind (local_io E ReadFilesAgain (\<lambda>w. (read_local_files (locs_of E scope) (sw_store w), w))) (\<lambda>now_local.
      io_bind (write_record E scope (record\<lparr>sr_gist_id := Some gist_id, sr_owner := owner,
        sr_base := file_hashes (se_hash E) now_local\<rparr>)) (\<lambda>_.
      io_return report)))))"

definition run_sync :: "'w sync_env \<Rightarrow> string \<Rightarrow> sync_scope \<Rightarrow> string \<Rightarrow> ('w, sync_report) io" where
  "run_sync E login scope description =
     io_bind (read_record E scope) (\<lambda>record.
     let record = (if (case sr_owner record of Some owner \<Rightarrow> owner \<noteq> login | None \<Rightarrow> False) then record_default else record);
         owner = (if scope = Shared then Some login else None) in
     io_bind (local_io E ReadFiles (\<lambda>w. (read_local_files (locs_of E scope) (sw_store w), w))) (\<lambda>local.
     io_bind (find_remote E description record) (\<lambda>(record, found).
     case found of
       None \<Rightarrow> first_upload E scope description owner local
     | Some (gist_id, remote) \<Rightarrow> sync_with_gist E scope owner local record gist_id remote)))"

text \<open>The profile's files first, then the shared ones unless another process holds their lock.\<close>

definition SHARED_GIST_DESCRIPTION :: string where
  "SHARED_GIST_DESCRIPTION = ''Asylum shared settings sync''"

definition profile_gist_description :: "string option \<Rightarrow> string" where
  "profile_gist_description active_profile = (case active_profile of
     Some profile \<Rightarrow> ''Asylum settings sync ('' @ profile @ '')''
   | None \<Rightarrow> ''Asylum settings sync'')"

definition run_all_syncs ::
  "'w sync_env \<Rightarrow> string \<Rightarrow> string option \<Rightarrow> sync_error + bool \<Rightarrow> ('w, sync_report) io" where
  "run_all_syncs E login active_profile lock =
     io_bind (run_sync E login Profile (profile_gist_description active_profile)) (\<lambda>report.
     case lock of
       Inl e \<Rightarrow> io_error e
     | Inr False \<Rightarrow> io_return report
     | Inr True \<Rightarrow> io_bind (run_sync E login Shared SHARED_GIST_DESCRIPTION) (\<lambda>shared_report.
         io_return (report_add shared_report report)))"

section \<open>Reasoning about the operations\<close>

text \<open>After the operation either \<open>Q\<close> holds of its value and the world, or \<open>R\<close> of the world an error left.\<close>

definition io_all :: "('w, 'a) io \<Rightarrow> 'w sync_world \<Rightarrow> ('a \<Rightarrow> 'w sync_world \<Rightarrow> bool) \<Rightarrow> ('w sync_world \<Rightarrow> bool) \<Rightarrow> bool" where
  "io_all m w Q R = (case m w of (Inr x, w') \<Rightarrow> Q x w' | (Inl _, w') \<Rightarrow> R w')"

lemma io_all_simps [simp]:
  "io_all (io_return x) w Q R = Q x w"
  "io_all (io_error e) w Q R = R w"
  "io_all (io_bind m f) w Q R = io_all m w (\<lambda>x w. io_all (f x) w Q R) R"
  "io_all (local_io E call op) w Q R = (if se_fails E call = None then Q (fst (op w)) (snd (op w)) else R w)"
  "io_all (remote_io E request rop) w Q R =
     (let w' = w\<lparr>sw_remote := snd (rop (sw_remote w)), sw_store := se_edits E request (sw_store w)\<rparr> in
      case fst (rop (sw_remote w)) of Inr x \<Rightarrow> Q x w' | Inl _ \<Rightarrow> R w')"
  by (auto simp: io_all_def io_return_def io_error_def io_bind_def local_io_def remote_io_def Let_def
      split: prod.splits sum.splits option.splits)

lemma io_all_mono:
  "io_all m w Q R \<Longrightarrow> (\<And>x w. Q x w \<Longrightarrow> Q' x w) \<Longrightarrow> (\<And>w. R w \<Longrightarrow> R' w) \<Longrightarrow> io_all m w Q' R'"
  by (auto simp: io_all_def split: prod.splits sum.splits)

lemma map_of_put_file: "map_of (put_file k v s) k' = (if k' = k then Some v else map_of s k')"
  by (induction s) (auto simp: put_file_def)

lemma map_of_remove_file: "map_of (remove_file k s) k' = (if k' = k then None else map_of s k')"
  by (induction s) (auto simp: remove_file_def)

lemma distinct_put_file: "distinct (map fst s) \<Longrightarrow> distinct (map fst (put_file k v s))"
  by (auto simp: put_file_def distinct_map inj_on_def)

lemma distinct_remove_file: "distinct (map fst s) \<Longrightarrow> distinct (map fst (remove_file k s))"
  by (auto simp: remove_file_def distinct_map inj_on_def)

lemma reads_put: "reads (put_file k f s) p = (if p = k then read_text_file f else reads s p)"
  by (simp add: reads_def map_of_put_file)

lemma reads_remove: "reads (remove_file k s) p = (if p = k then None else reads s p)"
  by (simp add: reads_def map_of_remove_file)

text \<open>What is read under a name in a world.\<close>

definition local_content :: "location list \<Rightarrow> 'w sync_world \<Rightarrow> string \<Rightarrow> string option" where
  "local_content locs w n = Option.bind (local_path locs n) (reads (sw_store w))"

definition backup_of :: "'w sync_env \<Rightarrow> sync_scope \<Rightarrow> string \<Rightarrow> string \<Rightarrow> 'w sync_world \<Rightarrow> string option" where
  "backup_of E scope side n w = map_of (sw_backups w) (se_now E, side, backup_prefix scope @ n)"

lemma same_path: "local_path (locations b scope) n = Some p \<Longrightarrow> local_path (locations b scope) m = Some p \<Longrightarrow> n = m"
  using local_path_name by metis

lemma local_content_put:
  "local_path (locations b scope) m = Some path \<Longrightarrow>
     local_content (locations b scope) (w\<lparr>sw_store := put_file path f (sw_store w)\<rparr>) n =
       (if n = m then read_text_file f else local_content (locations b scope) w n)"
  using same_path [of b scope n path m]
  by (cases "local_path (locations b scope) n") (auto simp: local_content_def reads_put)

lemma local_content_put_backup:
  "local_path (locations b scope) m = Some path \<Longrightarrow>
     local_content (locations b scope) (w\<lparr>sw_backups := x, sw_store := put_file path f (sw_store w)\<rparr>) n =
       (if n = m then read_text_file f else local_content (locations b scope) w n)"
  using local_content_put [where w = "w\<lparr>sw_backups := x\<rparr>"] by (simp add: local_content_def)

lemma local_content_remove:
  "local_path (locations b scope) m = Some path \<Longrightarrow>
     local_content (locations b scope) (w\<lparr>sw_store := remove_file path (sw_store w)\<rparr>) n =
       (if n = m then None else local_content (locations b scope) w n)"
  using same_path [of b scope n path m]
  by (cases "local_path (locations b scope) n") (auto simp: local_content_def reads_remove)

lemma local_content_frame [simp]:
  "local_content locs (w\<lparr>sw_backups := x\<rparr>) n = local_content locs w n"
  "local_content locs (w\<lparr>sw_record := y\<rparr>) n = local_content locs w n"
  "local_content locs (w\<lparr>sw_remote := z\<rparr>) n = local_content locs w n"
  by (simp_all add: local_content_def)

lemma backup_of_put:
  "backup_of E scope side n (w\<lparr>sw_backups := put_file (se_now E, side', backup_prefix scope @ m) c (sw_backups w)\<rparr>) =
     (if n = m \<and> side = side' then Some c else backup_of E scope side n w)"
  by (auto simp: backup_of_def map_of_put_file)

lemma backup_of_frame [simp]:
  "backup_of E scope side n (w\<lparr>sw_store := x\<rparr>) = backup_of E scope side n w"
  "backup_of E scope side n (w\<lparr>sw_record := y\<rparr>) = backup_of E scope side n w"
  "backup_of E scope side n (w\<lparr>sw_remote := z\<rparr>) = backup_of E scope side n w"
  by (simp_all add: backup_of_def)

section \<open>Nothing is lost\<close>

text \<open>For one name: the content both sides had when the sync read them is there, in a backup, or the recorded one.\<close>

definition keeps ::
  "'w sync_env \<Rightarrow> sync_scope \<Rightarrow> files \<Rightarrow> files \<Rightarrow> hashes \<Rightarrow> (string, string option) btree \<Rightarrow> 'w sync_world \<Rightarrow> string \<Rightarrow> bool" where
  "keeps E scope local remote base changes w n =
     ((\<forall>c. bt_get local n = Some c \<longrightarrow> local_content (locs_of E scope) w n = Some c \<or>
        backup_of E scope ''local'' n w = Some c \<or> bt_get base n = Some (se_hash E c)) \<and>
      (\<forall>c. bt_get remote n = Some c \<longrightarrow> bt_get changes n = None \<or>
        backup_of E scope ''github'' n w = Some c \<or> bt_get base n = Some (se_hash E c)) \<and>
      (bt_get changes n \<noteq> None \<longrightarrow> local_path (locs_of E scope) n \<noteq> None))"

definition world_ok :: "'w sync_world \<Rightarrow> bool" where
  "world_ok w = distinct (map fst (sw_store w))"

lemma sync_file_keeps:
  assumes plan: "plan_file (map_option (se_hash E) (bt_get local m)) (map_option (se_hash E) (bt_get remote m)) (bt_get base m) winner = Some a"
    and k: "\<forall>n. keeps E scope local remote base changes w n" and ok: "world_ok w"
  shows "io_all (sync_file E scope local remote (m, a) (report, changes)) w
    (\<lambda>(report, changes) w'. (\<forall>n. keeps E scope local remote base changes w' n) \<and> world_ok w' \<and> sw_remote w' = sw_remote w)
    (\<lambda>w'. (\<forall>n. keeps E scope local remote base changes w' n) \<and> world_ok w' \<and> sw_remote w' = sw_remote w)"
proof (cases "local_path (locs_of E scope) m")
  case None
  then show ?thesis using k ok by (simp add: sync_file_def)
next
  case (Some path)
  note put = local_content_put [OF Some] local_content_put_backup [OF Some] and rem = local_content_remove [OF Some]
  show ?thesis
    using plan k ok Some
    by (cases a) (auto simp: sync_file_def Let_def keep_backup_def download_def write_backup_def write_local_file_def delete_local_file_def
      keeps_def put rem backup_of_put world_ok_def distinct_put_file distinct_remove_file plan_file_def
      split: option.splits if_splits conflict_winner.splits)
qed

lemma sync_files_keeps:
  assumes "\<forall>(m, a)\<in>set as. plan_file (map_option (se_hash E) (bt_get local m)) (map_option (se_hash E) (bt_get remote m)) (bt_get base m) winner = Some a"
    and "\<forall>n. keeps E scope local remote base (snd p) w n" "world_ok w"
  shows "io_all (sync_files E scope local remote as p) w
    (\<lambda>(report, changes) w'. (\<forall>n. keeps E scope local remote base changes w' n) \<and> world_ok w' \<and> sw_remote w' = sw_remote w)
    (\<lambda>w'. (\<forall>n. \<exists>changes. keeps E scope local remote base changes w' n) \<and> world_ok w' \<and> sw_remote w' = sw_remote w)"
  using assms
proof (induction "as" arbitrary: p w)
  case Nil
  then show ?case by (cases p) simp
next
  case (Cons ma "as")
  obtain m a where ma: "ma = (m, a)" by (cases ma)
  obtain report changes where p: "p = (report, changes)" by (cases p)
  have step: "io_all (sync_file E scope local remote (m, a) (report, changes)) w
    (\<lambda>(report, changes) w'. (\<forall>n. keeps E scope local remote base changes w' n) \<and> world_ok w' \<and> sw_remote w' = sw_remote w)
    (\<lambda>w'. (\<forall>n. keeps E scope local remote base changes w' n) \<and> world_ok w' \<and> sw_remote w' = sw_remote w)"
    using Cons.prems ma p by (intro sync_file_keeps) auto
  have rest: "\<forall>(m, a)\<in>set as. plan_file (map_option (se_hash E) (bt_get local m)) (map_option (se_hash E) (bt_get remote m)) (bt_get base m) winner = Some a"
    using Cons.prems(1) by simp
  show ?case unfolding ma p sync_files.simps io_all_simps
    by (rule io_all_mono [OF step]) (auto intro: io_all_mono [OF Cons.IH [OF rest]] split: prod.splits)
qed

lemma patched_Nil [simp]: "patched [] fs = fs"
  by (simp add: fun_eq_iff patched_def bt_get_def)

lemma api_update_ok:
  assumes "gist_api_ok A gists" "api_update_gist A g changes w = (r, w')"
  shows "\<forall>g'. g' \<noteq> g \<longrightarrow> gists w' g' = gists w g'"
    "gists w g = Some fs \<Longrightarrow> gists w' g = Some (patched changes fs) \<or> r \<noteq> Inr () \<and> gists w' g = Some fs"
proof -
  have "\<forall>g changes w r w'. api_update_gist A g changes w = (r, w') \<longrightarrow>
        (\<forall>g'. g' \<noteq> g \<longrightarrow> gists w' g' = gists w g') \<and>
        (\<forall>fs. gists w g = Some fs \<longrightarrow> gists w' g = Some (patched changes fs) \<or> r \<noteq> Inr () \<and> gists w' g = Some fs)"
    using assms(1) unfolding gist_api_ok_def by (elim conjE)
  from this [rule_format, OF assms(2)] show "\<forall>g'. g' \<noteq> g \<longrightarrow> gists w' g' = gists w g'"
    "gists w g = Some fs \<Longrightarrow> gists w' g = Some (patched changes fs) \<or> r \<noteq> Inr () \<and> gists w' g = Some fs" by blast+
qed

definition quiet :: "'w sync_env \<Rightarrow> bool" where
  "quiet E = (\<forall>call store. se_edits E call store = store)"

lemma bt_get_synced_remote:
  assumes "bt_wf fs"
  shows "bt_get (synced_remote (locations b scope) fs) n =
    (case bt_get fs n of Some c \<Rightarrow> if local_path (locations b scope) n \<noteq> None \<and> trim c \<noteq> [] then Some c else None | None \<Rightarrow> None)"
proof -
  have d: "distinct (map fst fs)" using assms by (simp add: bt_wf_def strict_sorted_iff)
  have "map_of (filter (\<lambda>(name, content). local_path (locations b scope) name \<noteq> None \<and> trim content \<noteq> [])
      (filter (\<lambda>(k, _). k \<noteq> MANIFEST_NAME) xs)) n =
    (case map_of xs n of Some c \<Rightarrow> if local_path (locations b scope) n \<noteq> None \<and> trim c \<noteq> [] then Some c else None | None \<Rightarrow> None)"
    if "distinct (map fst xs)" for xs :: "(string \<times> string) list"
    using that
  proof (induction xs)
    case (Cons x xs)
    obtain k c where x: "x = (k, c)" by (cases x)
    have "map_of xs k = None" using Cons.prems x by (simp add: map_of_eq_None_iff)
    with Cons x manifest_not_synced [of b scope] show ?case by auto
  qed simp
  from this [OF d] show ?thesis by (simp add: synced_remote_def bt_get_def bt_remove_def)
qed

definition unchanged :: "('w \<Rightarrow> string \<Rightarrow> (string \<rightharpoonup> string) option) \<Rightarrow> 'w sync_world \<Rightarrow> 'w sync_world \<Rightarrow> bool" where
  "unchanged gists w w' = (sw_store w' = sw_store w \<and> sw_backups w' = sw_backups w \<and> sw_record w' = sw_record w \<and>
     gists (sw_remote w') = gists (sw_remote w))"

lemma unchanged_refl [simp]: "unchanged gists w w"
  by (simp add: unchanged_def)

lemma unchanged_trans: "unchanged gists u v \<Longrightarrow> unchanged gists v w \<Longrightarrow> unchanged gists u w"
  by (simp add: unchanged_def)

lemma gist_files_ok:
  assumes "gist_api_ok (se_api E) gists" "quiet E"
  shows "case remote_io E call (api_gist_files (se_api E) g) w of (r, w') \<Rightarrow> unchanged gists w w' \<and>
    (\<forall>fs. r = Inr fs \<longrightarrow> bt_wf fs \<and> gists (sw_remote w') g = Some (bt_get fs)) \<and> (r = Inl NotFound \<longrightarrow> gists (sw_remote w) g = None)"
  using assms by (auto simp: remote_io_def gist_api_ok_def quiet_def unchanged_def split: prod.splits)

lemma find_gist_ok:
  assumes "gist_api_ok (se_api E) gists" "quiet E"
  shows "case remote_io E call (api_find_gist (se_api E) d) w of (r, w') \<Rightarrow> unchanged gists w w'"
  using assms by (auto simp: remote_io_def gist_api_ok_def quiet_def unchanged_def split: prod.splits)

definition found_ok ::
  "('w \<Rightarrow> string \<Rightarrow> (string \<rightharpoonup> string) option) \<Rightarrow> sync_record \<Rightarrow> 'w sync_world \<Rightarrow>
     sync_record \<times> (string \<times> files) option \<Rightarrow> 'w sync_world \<Rightarrow> bool" where
  "found_ok gists record w = (\<lambda>(record', found) w'. unchanged gists w w' \<and>
     (record' = record \<or> record' = record_default \<and> (\<exists>g. sr_gist_id record = Some g \<and> gists (sw_remote w) g = None)) \<and>
     (\<forall>g fs. found = Some (g, fs) \<longrightarrow> bt_wf fs \<and> gists (sw_remote w') g = Some (bt_get fs) \<and>
       (sr_gist_id record' = None \<or> sr_gist_id record' = Some g)) \<and> (found = None \<longrightarrow> sr_gist_id record' = None))"

lemma find_remote_ok:
  assumes ok: "gist_api_ok (se_api E) gists" "quiet E"
  shows "io_all (find_remote E d record) w (found_ok gists record w) (unchanged gists w)"
proof -
  have lookup: "io_all (io_bind (remote_io E FindGist (api_find_gist (se_api E) d)) (\<lambda>found. case found of
          Some gist_id \<Rightarrow> io_bind (remote_io E FoundFiles (api_gist_files (se_api E) gist_id)) (\<lambda>fs. io_return (r, Some (gist_id, fs)))
        | None \<Rightarrow> io_return (r, None))) v
      (\<lambda>(record', found) w'. record' = r \<and> unchanged gists v w' \<and>
        (\<forall>g fs. found = Some (g, fs) \<longrightarrow> bt_wf fs \<and> gists (sw_remote w') g = Some (bt_get fs))) (unchanged gists v)" for r v
  proof -
    obtain r1 v1 where v1: "remote_io E FindGist (api_find_gist (se_api E) d) v = (r1, v1)" by force
    have u1: "unchanged gists v v1" using find_gist_ok [OF ok, where call = FindGist and d = d and w = v] v1 by simp
    show ?thesis
    proof (cases "\<exists>g. r1 = Inr (Some g)")
      case True
      then obtain g where g: "r1 = Inr (Some g)" by blast
      obtain r2 v2 where v2: "remote_io E FoundFiles (api_gist_files (se_api E) g) v1 = (r2, v2)" by force
      have "unchanged gists v1 v2" "\<forall>fs. r2 = Inr fs \<longrightarrow> bt_wf fs \<and> gists (sw_remote v2) g = Some (bt_get fs)"
        using gist_files_ok [OF ok, where call = FoundFiles and g = g and w = v1] v2 by auto
      with unchanged_trans [OF u1] v1 g v2 show ?thesis
        by (cases r2) (simp_all add: io_all_def io_bind_def io_return_def)
    next
      case False
      with v1 u1 show ?thesis
        by (auto simp: io_all_def io_bind_def io_return_def split: sum.splits option.splits)
    qed
  qed
  show ?thesis
  proof (cases "sr_gist_id record")
    case None
    then show ?thesis unfolding find_remote_def Let_def None option.case
      by (intro io_all_mono [OF lookup]) (auto simp: found_ok_def None)
  next
    case (Some g)
    obtain r w1 where r: "remote_io E GistFiles (api_gist_files (se_api E) g) w = (r, w1)" by force
    have ok1: "unchanged gists w w1" "\<forall>fs. r = Inr fs \<longrightarrow> bt_wf fs \<and> gists (sw_remote w1) g = Some (bt_get fs)"
        "r = Inl NotFound \<Longrightarrow> gists (sw_remote w) g = None"
      using gist_files_ok [OF ok, where call = GistFiles and g = g and w = w] r by auto
    consider fs where "r = Inr fs" | "r = Inl NotFound" | e where "r = Inl e" "e \<noteq> NotFound" by (cases r) auto
    then show ?thesis
    proof cases
      case 1
      with r ok1 Some show ?thesis by (simp add: io_all_def find_remote_def Let_def found_ok_def)
    next
      case 2
      with r have "find_remote E d record w = io_bind (remote_io E FindGist (api_find_gist (se_api E) d)) (\<lambda>found. case found of
          Some gist_id \<Rightarrow> io_bind (remote_io E FoundFiles (api_gist_files (se_api E) gist_id)) (\<lambda>fs. io_return (record_default, Some (gist_id, fs)))
        | None \<Rightarrow> io_return (record_default, None)) w1" by (simp add: find_remote_def Let_def Some)
      with lookup [of record_default w1] 2 ok1 Some show ?thesis
        by (auto simp: io_all_def found_ok_def record_default_def intro: unchanged_trans split: prod.splits sum.splits)
    next
      case 3
      with r ok1 Some show ?thesis by (cases e) (simp_all add: io_all_def find_remote_def Let_def)
    qed
  qed
qed

definition kept ::
  "'w sync_env \<Rightarrow> sync_scope \<Rightarrow> ('w \<Rightarrow> string \<Rightarrow> (string \<rightharpoonup> string) option) \<Rightarrow> 'w sync_world \<Rightarrow> 'w sync_world \<Rightarrow> bool" where
  "kept E scope gists w w' =
     ((\<forall>n c. local_content (locs_of E scope) w n = Some c \<longrightarrow> local_content (locs_of E scope) w' n = Some c \<or>
        (\<exists>k. map_of (sw_backups w') k = Some c) \<or> bt_get (sr_base (sw_record w scope)) n = Some (se_hash E c)) \<and>
      (\<forall>g fs n c. gists (sw_remote w) g = Some fs \<and> fs n = Some c \<and> trim c \<noteq> [] \<longrightarrow>
        (\<exists>fs'. gists (sw_remote w') g = Some fs' \<and> (fs' n = Some c \<or>
          (\<exists>k. map_of (sw_backups w') k = Some c) \<or> bt_get (sr_base (sw_record w scope)) n = Some (se_hash E c)))))"

lemma kept_unchanged: "unchanged gists w w' \<Longrightarrow> kept E scope gists w w'"
  by (auto simp: kept_def unchanged_def local_content_def)

lemma kept_frame: "kept E scope gists w (w'\<lparr>sw_record := x\<rparr>) = kept E scope gists w w'"
  by (simp add: kept_def)

lemma keeps_kept:
  assumes k: "\<forall>n. keeps E scope local (synced_remote (locs_of E scope) fs) base changes w' n"
    and w: "world_ok w" "local = read_local_files (locs_of E scope) (sw_store w)"
    and base: "base = sr_base (sw_record w scope) \<or> base = []"
    and fs: "bt_wf fs" "gists (sw_remote w) g = Some (bt_get fs)"
    and remote: "\<forall>g'. g' \<noteq> g \<longrightarrow> gists (sw_remote w') g' = gists (sw_remote w) g'"
      "gists (sw_remote w') g = Some (bt_get fs) \<or> gists (sw_remote w') g = Some (patched changes (bt_get fs))"
  shows "kept E scope gists w w'"
proof -
  have loc: "bt_get local n = local_content (locs_of E scope) w n" for n
    using w by (simp add: world_ok_def read_local_files_get local_content_def)
  have base': "bt_get base n = Some h \<Longrightarrow> bt_get (sr_base (sw_record w scope)) n = Some h" for n h using base by auto
  have kn: "keeps E scope local (synced_remote (locs_of E scope) fs) base changes w' n" for n using k by simp
  show ?thesis unfolding kept_def
  proof (intro conjI allI impI)
    fix n c assume "local_content (locs_of E scope) w n = Some c"
    then show "local_content (locs_of E scope) w' n = Some c \<or> (\<exists>k. map_of (sw_backups w') k = Some c) \<or>
        bt_get (sr_base (sw_record w scope)) n = Some (se_hash E c)"
      using kn [of n] loc base' by (auto simp: keeps_def backup_of_def)
  next
    fix g' fs0 n c assume a: "gists (sw_remote w) g' = Some fs0 \<and> fs0 n = Some c \<and> trim c \<noteq> []"
    show "\<exists>fs'. gists (sw_remote w') g' = Some fs' \<and> (fs' n = Some c \<or> (\<exists>k. map_of (sw_backups w') k = Some c) \<or>
        bt_get (sr_base (sw_record w scope)) n = Some (se_hash E c))"
    proof (cases "g' = g")
      case True
      then have c: "bt_get fs n = Some c" "trim c \<noteq> []" using a fs by auto
      have "patched changes (bt_get fs) n = Some c \<or> (\<exists>k. map_of (sw_backups w') k = Some c) \<or>
          bt_get (sr_base (sw_record w scope)) n = Some (se_hash E c)"
        using kn [of n] c base' bt_get_synced_remote [OF fs(1), of "se_shared_settings E" scope n]
        by (cases "local_path (locs_of E scope) n") (auto simp: keeps_def backup_of_def patched_def)
      with c remote(2) True show ?thesis by auto
    qed (use a remote(1) in auto)
  qed
qed

lemma planned:
  "\<forall>(m, a)\<in>set (plan_sync (file_hashes h local) (file_hashes h remote) base winner).
     plan_file (map_option h (bt_get local m)) (map_option h (bt_get remote m)) (bt_get base m) winner = Some a"
proof clarify
  fix m a assume "(m, a) \<in> set (plan_sync (file_hashes h local) (file_hashes h remote) base winner)"
  then have "map_of (plan_sync (file_hashes h local) (file_hashes h remote) base winner) m = Some a"
    by (simp add: distinct_plan_sync)
  then show "plan_file (map_option h (bt_get local m)) (map_option h (bt_get remote m)) (bt_get base m) winner = Some a"
    by (simp add: plan_sync_get bt_get_hashes)
qed

lemma update_gist_ok:
  assumes "gist_api_ok (se_api E) gists" "quiet E" "gists (sw_remote w) g = Some fs"
  shows "case (if changes \<noteq> [] then remote_io E UpdateGist (api_update_gist (se_api E) g changes) else io_return ()) w of (r, w') \<Rightarrow>
    sw_store w' = sw_store w \<and> sw_backups w' = sw_backups w \<and> sw_record w' = sw_record w \<and>
    (\<forall>g'. g' \<noteq> g \<longrightarrow> gists (sw_remote w') g' = gists (sw_remote w) g') \<and>
    (gists (sw_remote w') g = Some (patched changes fs) \<or> r \<noteq> Inr () \<and> gists (sw_remote w') g = Some fs)"
proof (cases "changes = []")
  case True
  then show ?thesis using assms by (simp add: io_return_def)
next
  case False
  obtain r v where v: "api_update_gist (se_api E) g changes (sw_remote w) = (r, v)" by force
  from api_update_ok(1) [OF assms(1) v] api_update_ok(2) [OF assms(1) v assms(3)] False v assms(2)
  show ?thesis by (simp add: remote_io_def quiet_def)
qed

lemma keeps_frame:
  assumes "sw_store w' = sw_store w" "sw_backups w' = sw_backups w"
  shows "keeps E scope local remote base changes w' n = keeps E scope local remote base changes w n"
  using assms by (simp add: keeps_def local_content_def backup_of_def)

lemma sync_with_gist_keeps:
  assumes ok: "gist_api_ok (se_api E) gists" "quiet E" and w: "world_ok w" "local = read_local_files (locs_of E scope) (sw_store w)"
    and base: "sr_base record = sr_base (sw_record w scope) \<or> sr_base record = []"
    and fs: "bt_wf fs" "gists (sw_remote w) g = Some (bt_get fs)"
  shows "io_all (sync_with_gist E scope owner local record g fs) w (\<lambda>_. kept E scope gists w) (kept E scope gists w)"
proof -
  let ?remote = "synced_remote (locs_of E scope) fs"
  let ?plan = "plan_sync (file_hashes (se_hash E) local) (file_hashes (se_hash E) ?remote) (sr_base record)
    (if sr_base record = [] then WinnerRemote else WinnerLocal)"
  have start: "\<forall>n. keeps E scope local ?remote (sr_base record) (snd (report_default, [])) w n"
    using w by (simp add: keeps_def world_ok_def read_local_files_get local_content_def)
  note files = sync_files_keeps [OF planned start w(1)]
  have failed: "kept E scope gists w v" if "\<forall>n. \<exists>ch. keeps E scope local ?remote (sr_base record) ch v n" "sw_remote v = sw_remote w" for v
  proof -
    have "\<forall>n. keeps E scope local ?remote (sr_base record) [] v n" using that(1) by (auto simp: keeps_def)
    then show ?thesis using that(2) fs(2) by (intro keeps_kept [where gists = gists, OF _ w base fs]) auto
  qed
  have "io_all (io_bind (if changes \<noteq> [] then remote_io E UpdateGist (api_update_gist (se_api E) g changes) else io_return ()) (\<lambda>_.
      io_bind (local_io E ReadFilesAgain (\<lambda>w. (read_local_files (locs_of E scope) (sw_store w), w))) (\<lambda>now_local.
      io_bind (write_record E scope (record\<lparr>sr_gist_id := Some g, sr_owner := owner, sr_base := file_hashes (se_hash E) now_local\<rparr>)) (\<lambda>_.
      io_return report)))) v (\<lambda>_. kept E scope gists w) (kept E scope gists w)"
    if k: "\<forall>n. keeps E scope local ?remote (sr_base record) changes v n" "sw_remote v = sw_remote w" for report changes v
  proof -
    obtain r u where u: "(if changes \<noteq> [] then remote_io E UpdateGist (api_update_gist (se_api E) g changes) else io_return ()) v = (r, u)"
      by force
    have upd: "sw_store u = sw_store v" "sw_backups u = sw_backups v"
        "\<forall>g'. g' \<noteq> g \<longrightarrow> gists (sw_remote u) g' = gists (sw_remote w) g'"
        "gists (sw_remote u) g = Some (bt_get fs) \<or> gists (sw_remote u) g = Some (patched changes (bt_get fs))"
      using update_gist_ok [OF ok, where w = v and g = g and fs = "bt_get fs" and changes = changes] fs(2) u k(2) by auto
    have "kept E scope gists w u"
      using keeps_kept [OF _ w base fs upd(3,4)] k(1) keeps_frame [OF upd(1,2)] by blast
    then show ?thesis unfolding io_all_simps(3) by (simp add: io_all_def [of _ v] u write_record_def kept_frame split: sum.splits)
  qed
  then show ?thesis unfolding sync_with_gist_def Let_def io_all_simps(3)
    by (intro io_all_mono [OF files]) (auto simp: failed)
qed

lemma kept_of_unchanged: "unchanged gists w v \<Longrightarrow> kept E scope gists v = kept E scope gists w"
  by (simp add: fun_eq_iff kept_def unchanged_def local_content_def)

lemma first_upload_keeps:
  assumes "gist_api_ok (se_api E) gists" "quiet E"
  shows "io_all (first_upload E scope d owner local) w (\<lambda>_. kept E scope gists w) (kept E scope gists w)"
proof -
  obtain r v where v: "api_create_gist (se_api E) d (bt_insert MANIFEST_NAME MANIFEST_CONTENT local) (sw_remote w) = (r, v)" by force
  have "\<forall>g fs. gists (sw_remote w) g = Some fs \<longrightarrow> gists v g = Some fs"
    using assms(1) v unfolding gist_api_ok_def by blast
  then have "kept E scope gists w (w\<lparr>sw_remote := v\<rparr>)" by (auto simp: kept_def)
  with v assms(2) show ?thesis
    by (simp add: first_upload_def write_record_def quiet_def kept_frame Let_def split: sum.splits)
qed

lemma run_sync_keeps:
  assumes ok: "gist_api_ok (se_api E) gists" "quiet E" and w: "world_ok w"
  shows "io_all (run_sync E login scope d) w (\<lambda>_. kept E scope gists w) (kept E scope gists w)"
proof -
  let ?local = "read_local_files (locs_of E scope) (sw_store w)"
  have step: "io_all (io_bind (find_remote E d rcd) (\<lambda>(rcd, found). case found of
       None \<Rightarrow> first_upload E scope d owner ?local
     | Some (g, remote) \<Rightarrow> sync_with_gist E scope owner ?local rcd g remote)) w (\<lambda>_. kept E scope gists w) (kept E scope gists w)"
    if base: "sr_base rcd = sr_base (sw_record w scope) \<or> sr_base rcd = []" for rcd owner
    unfolding io_all_simps(3)
  proof (rule io_all_mono [OF find_remote_ok [OF ok]])
    fix x v assume x: "found_ok gists rcd w x v"
    obtain rcd' found where x': "x = (rcd', found)" by (cases x)
    have v: "unchanged gists w v" using x by (simp add: found_ok_def x')
    show "io_all (case x of (rcd, found) \<Rightarrow> case found of None \<Rightarrow> first_upload E scope d owner ?local
        | Some (g, remote) \<Rightarrow> sync_with_gist E scope owner ?local rcd g remote) v (\<lambda>_. kept E scope gists w) (kept E scope gists w)"
    proof (cases found)
      case None
      with x' first_upload_keeps [OF ok, of scope d owner ?local v] show ?thesis by (simp add: kept_of_unchanged [OF v])
    next
      case (Some gf)
      obtain g fs where gf: "gf = (g, fs)" by (cases gf)
      have "bt_wf fs" "gists (sw_remote v) g = Some (bt_get fs)" using x Some gf by (auto simp: found_ok_def x')
      moreover have "sr_base rcd' = sr_base (sw_record v scope) \<or> sr_base rcd' = []"
        using x base v by (auto simp: found_ok_def x' record_default_def unchanged_def)
      moreover have "world_ok v" "?local = read_local_files (locs_of E scope) (sw_store v)"
        using v w by (simp_all add: world_ok_def unchanged_def)
      ultimately have "io_all (sync_with_gist E scope owner ?local rcd' g fs) v (\<lambda>_. kept E scope gists v) (kept E scope gists v)"
        by (intro sync_with_gist_keeps [OF ok])
      with x' Some gf show ?thesis by (simp add: kept_of_unchanged [OF v])
    qed
  qed (rule kept_unchanged)
  have "kept E scope gists w w" by (rule kept_unchanged) simp
  then show ?thesis unfolding run_sync_def read_record_def Let_def
    using step by (simp add: record_default_def)
qed

section \<open>Both sides agree\<close>

lemma plan_file_None: "plan_file l r b winner = None \<longleftrightarrow> l = r"
  by (simp add: plan_file_def)

lemma io_all_conj: "io_all m w Q R \<Longrightarrow> io_all m w Q' R' \<Longrightarrow> io_all m w (\<lambda>x w. Q x w \<and> Q' x w) (\<lambda>w. R w \<and> R' w)"
  by (auto simp: io_all_def split: prod.splits sum.splits)

text \<open>What a gist gives the sync under a name: blank files and files the sync does not know count as absent.\<close>

definition synced_content :: "location list \<Rightarrow> (string \<Rightarrow> string option) \<Rightarrow> string \<Rightarrow> string option" where
  "synced_content locs fs n = (case fs n of
     Some c \<Rightarrow> if local_path locs n \<noteq> None \<and> trim c \<noteq> [] then Some c else None | None \<Rightarrow> None)"

lemma local_content_not_blank: "local_content locs w n = Some c \<Longrightarrow> trim c \<noteq> [] \<and> local_path locs n \<noteq> None"
  by (auto simp: local_content_def reads_def read_text_file_def split: Option.bind_splits if_splits option.splits)

lemma read_text_file_text: "utf8_len c \<le> MAX_FILE_SIZE \<Longrightarrow> trim c \<noteq> [] \<Longrightarrow> read_text_file (text_file c) = Some c"
  by (simp add: read_text_file_def text_file_def)

text \<open>While the plan is carried out: the names still to come are as they were, on the others both sides agree.\<close>

definition agreeing ::
  "'w sync_env \<Rightarrow> sync_scope \<Rightarrow> files \<Rightarrow> files \<Rightarrow> string set \<Rightarrow> (string, string option) btree \<Rightarrow> 'w sync_world \<Rightarrow> bool" where
  "agreeing E scope local remote todo changes w =
     (\<forall>n. if n \<in> todo then local_content (locs_of E scope) w n = bt_get local n \<and> bt_get changes n = None
          else local_content (locs_of E scope) w n = patched changes (bt_get remote) n)"

definition fits :: "files \<Rightarrow> bool" where
  "fits remote = (\<forall>n c. bt_get remote n = Some c \<longrightarrow> utf8_len c \<le> MAX_FILE_SIZE \<and> trim c \<noteq> [])"

lemma sync_file_agrees:
  assumes plan: "plan_file (map_option (se_hash E) (bt_get local m)) (map_option (se_hash E) (bt_get remote m)) (bt_get base m) winner = Some a"
    and agr: "agreeing E scope local remote (insert m todo) changes w" "m \<notin> todo" and path: "local_path (locs_of E scope) m = Some path"
    and remote: "fits remote"
  shows "io_all (sync_file E scope local remote (m, a) (report, changes)) w
    (\<lambda>(report, changes). agreeing E scope local remote todo changes) (\<lambda>_. True)"
proof -
  note put = local_content_put [OF path] local_content_put_backup [OF path] and rem = local_content_remove [OF path]
  have fit: "bt_get remote m = Some c \<Longrightarrow> read_text_file (text_file c) = Some c" for c
    using remote by (simp add: fits_def read_text_file_text)
  have new: "bt_get changes m = None" "local_content (locs_of E scope) w m = bt_get local m"
    using agr(1) by (simp_all add: agreeing_def)
  have move: "agreeing E scope local remote todo changes' w'"
    if "\<forall>n. n \<noteq> m \<longrightarrow> local_content (locs_of E scope) w' n = local_content (locs_of E scope) w n \<and> bt_get changes' n = bt_get changes n"
       "local_content (locs_of E scope) w' m = patched changes' (bt_get remote) m" for changes' and w' :: "'a sync_world"
    unfolding agreeing_def
  proof
    fix n
    show "if n \<in> todo then local_content (locs_of E scope) w' n = bt_get local n \<and> bt_get changes' n = None
      else local_content (locs_of E scope) w' n = patched changes' (bt_get remote) n"
      using agr(1) [unfolded agreeing_def, rule_format, of n] agr(2) that by (cases "n = m") (auto simp: patched_def)
  qed
  show ?thesis
    using plan path new fit
    by (cases a) (auto intro!: move simp: sync_file_def Let_def keep_backup_def download_def write_backup_def write_local_file_def delete_local_file_def
      put rem patched_def plan_file_def split: option.splits if_splits conflict_winner.splits)
qed

lemma sync_files_agree:
  assumes "\<forall>(m, a)\<in>set as. plan_file (map_option (se_hash E) (bt_get local m)) (map_option (se_hash E) (bt_get remote m)) (bt_get base m) winner = Some a"
    and "agreeing E scope local remote (set (map fst as)) (snd p) w" "distinct (map fst as)"
    and "\<forall>m\<in>set (map fst as). local_path (locs_of E scope) m \<noteq> None" "fits remote"
  shows "io_all (sync_files E scope local remote as p) w
    (\<lambda>(report, changes). agreeing E scope local remote {} changes) (\<lambda>_. True)"
  using assms
proof (induction "as" arbitrary: p w)
  case Nil
  then show ?case by (cases p) simp
next
  case (Cons ma "as")
  obtain m a where ma: "ma = (m, a)" by (cases ma)
  obtain report changes where p: "p = (report, changes)" by (cases p)
  obtain path where path: "local_path (locs_of E scope) m = Some path" using Cons.prems(4) ma by auto
  have step: "io_all (sync_file E scope local remote (m, a) (report, changes)) w
    (\<lambda>(report, changes). agreeing E scope local remote (set (map fst as)) changes) (\<lambda>_. True)"
    using Cons.prems ma p by (intro sync_file_agrees [OF _ _ _ path]) auto
  have rest: "\<forall>(m, a)\<in>set as. plan_file (map_option (se_hash E) (bt_get local m)) (map_option (se_hash E) (bt_get remote m)) (bt_get base m) winner = Some a"
    using Cons.prems(1) by simp
  show ?case unfolding ma p sync_files.simps io_all_simps
    by (rule io_all_mono [OF step]) (use Cons.prems(3-5) ma in \<open>auto intro!: Cons.IH [OF rest]\<close>)
qed

text \<open>The contents a sync compares by their hashes.\<close>

definition contents :: "'w sync_env \<Rightarrow> sync_scope \<Rightarrow> ('w \<Rightarrow> string \<Rightarrow> (string \<rightharpoonup> string) option) \<Rightarrow> 'w sync_world \<Rightarrow> string set" where
  "contents E scope gists w = {c. \<exists>n. local_content (locs_of E scope) w n = Some c} \<union>
     {c. \<exists>g fs n. gists (sw_remote w) g = Some fs \<and> fs n = Some c}"

definition agrees ::
  "'w sync_env \<Rightarrow> sync_scope \<Rightarrow> string \<Rightarrow> ('w \<Rightarrow> string \<Rightarrow> (string \<rightharpoonup> string) option) \<Rightarrow> 'w sync_world \<Rightarrow> bool" where
  "agrees E scope login gists w = (\<exists>g fs. gists (sw_remote w) g = Some fs \<and>
     (\<forall>n. local_content (locs_of E scope) w n = synced_content (locs_of E scope) fs n) \<and>
     sw_record w scope = \<lparr>sr_gist_id = Some g, sr_owner = (if scope = Shared then Some login else None),
       sr_base = file_hashes (se_hash E) (read_local_files (locs_of E scope) (sw_store w))\<rparr>)"

lemma agreesI:
  "gists (sw_remote w) g = Some fs \<Longrightarrow>
   (\<And>n. local_content (locs_of E scope) w n = synced_content (locs_of E scope) fs n) \<Longrightarrow>
   sw_record w scope = \<lparr>sr_gist_id = Some g, sr_owner = (if scope = Shared then Some login else None),
     sr_base = file_hashes (se_hash E) (read_local_files (locs_of E scope) (sw_store w))\<rparr> \<Longrightarrow> agrees E scope login gists w"
  by (auto simp: agrees_def)

lemma record_fields:
  fixes rcd :: sync_record
  shows "rcd\<lparr>sr_gist_id := a, sr_owner := b, sr_base := c\<rparr> = \<lparr>sr_gist_id = a, sr_owner = b, sr_base = c\<rparr>"
  by simp

lemma agreeing_start:
  assumes w: "world_ok w" and fs: "bt_wf fs" "gists (sw_remote w) g = Some (bt_get fs)"
    and inj: "inj_on (se_hash E) (contents E scope gists w)"
  defines "local \<equiv> read_local_files (locs_of E scope) (sw_store w)" and "remote \<equiv> synced_remote (locs_of E scope) fs"
  shows "agreeing E scope local remote
    (set (map fst (plan_sync (file_hashes (se_hash E) local) (file_hashes (se_hash E) remote) base winner))) [] w"
    (is "agreeing _ _ _ _ ?todo _ _")
  unfolding agreeing_def
proof
  fix n
  have loc: "bt_get local n = local_content (locs_of E scope) w n"
    using w by (simp add: local_def world_ok_def read_local_files_get local_content_def)
  have "bt_get local n = bt_get remote n" if "n \<notin> ?todo"
  proof -
    have "plan_file (map_option (se_hash E) (bt_get local n)) (map_option (se_hash E) (bt_get remote n)) (bt_get base n) winner = None"
      using that by (auto simp flip: plan_sync_get bt_get_hashes simp: map_of_eq_None_iff)
    then have "map_option (se_hash E) (bt_get local n) = map_option (se_hash E) (bt_get remote n)"
      by (simp add: plan_file_None)
    moreover have "bt_get remote n = Some c \<Longrightarrow> c \<in> contents E scope gists w" for c
      using fs bt_get_synced_remote [OF fs(1), of "se_shared_settings E" scope n]
      by (auto simp: remote_def contents_def split: option.splits if_splits)
    moreover have "bt_get local n = Some c \<Longrightarrow> c \<in> contents E scope gists w" for c by (auto simp: loc contents_def)
    ultimately show ?thesis using inj by (cases "bt_get local n"; cases "bt_get remote n") (auto dest: inj_onD)
  qed
  then show "if n \<in> ?todo then local_content (locs_of E scope) w n = bt_get local n \<and> bt_get [] n = None
      else local_content (locs_of E scope) w n = patched [] (bt_get remote) n"
    by (simp add: loc)
qed

lemma agreeing_patched:
  assumes "agreeing E scope local (synced_remote (locs_of E scope) fs) {} changes v" "bt_wf fs"
  shows "local_content (locs_of E scope) v n = synced_content (locs_of E scope) (patched changes (bt_get fs)) n"
proof -
  have *: "local_content (locs_of E scope) v n = patched changes (bt_get (synced_remote (locs_of E scope) fs)) n"
    using assms(1) by (simp add: agreeing_def)
  show ?thesis
  proof (cases "bt_get changes n")
    case None
    with * bt_get_synced_remote [OF assms(2)] show ?thesis by (simp add: patched_def synced_content_def)
  next
    case (Some c)
    with * local_content_not_blank [of "locs_of E scope" v n] show ?thesis
      by (auto simp: patched_def synced_content_def split: option.splits)
  qed
qed

definition gists_fit :: "('w \<Rightarrow> string \<Rightarrow> (string \<rightharpoonup> string) option) \<Rightarrow> 'w sync_world \<Rightarrow> bool" where
  "gists_fit gists w = (\<forall>g fs n c. gists (sw_remote w) g = Some fs \<and> fs n = Some c \<longrightarrow> utf8_len c \<le> MAX_FILE_SIZE)"

lemma sync_with_gist_agrees:
  assumes ok: "gist_api_ok (se_api E) gists" "quiet E" and w: "world_ok w"
    and fs: "bt_wf fs" "gists (sw_remote w) g = Some (bt_get fs)"
    and inj: "inj_on (se_hash E) (contents E scope gists w)" and fit: "gists_fit gists w"
  shows "io_all (sync_with_gist E scope (if scope = Shared then Some login else None)
      (read_local_files (locs_of E scope) (sw_store w)) rcd g fs) w
    (\<lambda>_ w'. agrees E scope login gists w' \<and> world_ok w') (\<lambda>_. True)"
proof -
  let ?local = "read_local_files (locs_of E scope) (sw_store w)" and ?remote = "synced_remote (locs_of E scope) fs"
  let ?winner = "if sr_base rcd = [] then WinnerRemote else WinnerLocal"
  let ?plan = "plan_sync (file_hashes (se_hash E) ?local) (file_hashes (se_hash E) ?remote) (sr_base rcd) ?winner"
  have start: "\<forall>n. keeps E scope ?local ?remote (sr_base rcd) (snd (report_default, [])) w n"
    using w by (simp add: keeps_def world_ok_def read_local_files_get local_content_def)
  have synced: "local_path (locs_of E scope) n \<noteq> None" if n: "n \<in> set (map fst ?plan)" for n
  proof -
    have "plan_file (map_option (se_hash E) (bt_get ?local n)) (map_option (se_hash E) (bt_get ?remote n)) (bt_get (sr_base rcd) n) ?winner \<noteq> None"
      using n by (auto simp flip: plan_sync_get bt_get_hashes simp: map_of_eq_None_iff)
    then have "bt_get ?local n \<noteq> None \<or> bt_get ?remote n \<noteq> None" by (auto simp: plan_file_None)
    with w bt_get_synced_remote [OF fs(1), of "se_shared_settings E" scope n] show ?thesis
      by (auto simp: world_ok_def read_local_files_get bind_eq_Some_conv split: option.splits if_splits)
  qed
  have fits: "fits ?remote"
    using fit fs bt_get_synced_remote [OF fs(1), of "se_shared_settings E" scope]
    by (auto simp: fits_def gists_fit_def split: option.splits if_splits)
  have files: "io_all (sync_files E scope ?local ?remote ?plan (report_default, [])) w
      (\<lambda>(report, changes) v. agreeing E scope ?local ?remote {} changes v \<and> world_ok v \<and> sw_remote v = sw_remote w) (\<lambda>_. True)"
    by (rule io_all_mono [OF io_all_conj [OF
        sync_files_agree [OF planned _ distinct_plan_sync _ fits, where p = "(report_default, [])" and scope = scope and w = w]
        sync_files_keeps [OF planned start w]]])
      (use agreeing_start [OF w fs inj] synced in auto)
  have "io_all (io_bind (if changes \<noteq> [] then remote_io E UpdateGist (api_update_gist (se_api E) g changes) else io_return ()) (\<lambda>_.
      io_bind (local_io E ReadFilesAgain (\<lambda>w. (read_local_files (locs_of E scope) (sw_store w), w))) (\<lambda>now_local.
      io_bind (write_record E scope (rcd\<lparr>sr_gist_id := Some g, sr_owner := (if scope = Shared then Some login else None),
        sr_base := file_hashes (se_hash E) now_local\<rparr>)) (\<lambda>_.
      io_return report)))) v (\<lambda>_ w'. agrees E scope login gists w' \<and> world_ok w') (\<lambda>_. True)"
    if v: "agreeing E scope ?local ?remote {} changes v" "world_ok v" "sw_remote v = sw_remote w" for report changes v
  proof -
    obtain r u where u: "(if changes \<noteq> [] then remote_io E UpdateGist (api_update_gist (se_api E) g changes) else io_return ()) v = (r, u)"
      by force
    have upd: "sw_store u = sw_store v" "r = Inr () \<Longrightarrow> gists (sw_remote u) g = Some (patched changes (bt_get fs))"
      using update_gist_ok [OF ok, where w = v and g = g and fs = "bt_get fs" and changes = changes] fs(2) u v(3) by auto
    have "local_content (locs_of E scope) u n = synced_content (locs_of E scope) (patched changes (bt_get fs)) n" for n
      using agreeing_patched [OF v(1) fs(1)] by (simp add: local_content_def upd(1))
    with upd v(2) show ?thesis unfolding io_all_simps(3)
      by (auto simp: io_all_def [of _ v] u write_record_def world_ok_def record_fields intro!: agreesI split: sum.splits)
  qed
  note finish = this
  show ?thesis unfolding sync_with_gist_def Let_def io_all_simps(3) [of "sync_files E scope ?local ?remote ?plan (report_default, [])"]
  proof (rule io_all_mono [OF files], goal_cases)
    case (1 p v)
    obtain report changes where p: "p = (report, changes)" by (cases p)
    from 1 show ?case unfolding p prod.case by (intro finish) simp_all
  qed simp
qed

lemma first_upload_agrees:
  assumes ok: "gist_api_ok (se_api E) gists" "quiet E" and w: "world_ok w"
  shows "io_all (first_upload E scope d (if scope = Shared then Some login else None) (read_local_files (locs_of E scope) (sw_store w))) w
    (\<lambda>_ w'. agrees E scope login gists w' \<and> world_ok w') (\<lambda>_. True)"
proof -
  let ?files = "bt_insert MANIFEST_NAME MANIFEST_CONTENT (read_local_files (locs_of E scope) (sw_store w))"
  obtain r v where v: "api_create_gist (se_api E) d ?files (sw_remote w) = (r, v)" by force
  have created: "r = Inr g \<Longrightarrow> gists v g = Some (bt_get ?files)" for g
    using ok(1) v unfolding gist_api_ok_def by blast
  have "synced_content (locs_of E scope) (bt_get ?files) n = local_content (locs_of E scope) w n" for n
    using local_content_not_blank [of "locs_of E scope" w n] w
    by (auto simp: synced_content_def bt_get_insert manifest_not_synced world_ok_def read_local_files_get local_content_def
        split: option.splits)
  with v ok(2) created w show ?thesis
    by (auto simp: first_upload_def write_record_def quiet_def agrees_def Let_def world_ok_def local_content_def split: sum.splits)
qed

lemma run_sync_agrees:
  assumes ok: "gist_api_ok (se_api E) gists" "quiet E" and w: "world_ok w"
    and inj: "inj_on (se_hash E) (contents E scope gists w)" and fit: "gists_fit gists w"
  shows "io_all (run_sync E login scope d) w (\<lambda>_ w'. agrees E scope login gists w' \<and> world_ok w') (\<lambda>_. True)"
proof -
  let ?local = "read_local_files (locs_of E scope) (sw_store w)" and ?owner = "if scope = Shared then Some login else None"
  have step: "io_all (io_bind (find_remote E d rcd) (\<lambda>(rcd, found). case found of
       None \<Rightarrow> first_upload E scope d ?owner ?local
     | Some (g, remote) \<Rightarrow> sync_with_gist E scope ?owner ?local rcd g remote)) w
     (\<lambda>_ w'. agrees E scope login gists w' \<and> world_ok w') (\<lambda>_. True)" for rcd
    unfolding io_all_simps(3)
  proof (rule io_all_mono [OF find_remote_ok [OF ok]])
    fix x v assume x: "found_ok gists rcd w x v"
    obtain rcd' found where x': "x = (rcd', found)" by (cases x)
    have v: "sw_store v = sw_store w" "world_ok v" "contents E scope gists v = contents E scope gists w" "gists_fit gists v"
      using x w fit by (simp_all add: found_ok_def x' unchanged_def world_ok_def contents_def local_content_def gists_fit_def)
    show "io_all (case x of (rcd, found) \<Rightarrow> case found of None \<Rightarrow> first_upload E scope d ?owner ?local
        | Some (g, remote) \<Rightarrow> sync_with_gist E scope ?owner ?local rcd g remote) v
        (\<lambda>_ w'. agrees E scope login gists w' \<and> world_ok w') (\<lambda>_. True)"
    proof (cases found)
      case None
      with x' first_upload_agrees [OF ok v(2), of scope d login] show ?thesis by (simp add: v(1))
    next
      case (Some gf)
      obtain g fs where gf: "gf = (g, fs)" by (cases gf)
      have "bt_wf fs" "gists (sw_remote v) g = Some (bt_get fs)" using x Some gf by (auto simp: found_ok_def x')
      then have "io_all (sync_with_gist E scope ?owner ?local rcd' g fs) v (\<lambda>_ w'. agrees E scope login gists w' \<and> world_ok w') (\<lambda>_. True)"
        using sync_with_gist_agrees [OF ok v(2) _ _ _ v(4), of fs g scope login rcd'] inj v by simp
      with x' Some gf show ?thesis by simp
    qed
  qed simp
  show ?thesis unfolding run_sync_def read_record_def Let_def
    using step by simp
qed

text \<open>When both sides agree, a sync that succeeds does nothing.\<close>

lemma agrees_run_sync:
  assumes ok: "gist_api_ok (se_api E) gists" "quiet E" and w: "world_ok w" and agr: "agrees E scope login gists w"
  shows "io_all (run_sync E login scope d) w (\<lambda>report w'. report = report_default \<and> unchanged gists w w') (unchanged gists w)"
proof -
  let ?local = "read_local_files (locs_of E scope) (sw_store w)" and ?owner = "if scope = Shared then Some login else None"
  obtain g fs0 where g: "gists (sw_remote w) g = Some fs0" "sw_record w scope = \<lparr>sr_gist_id = Some g, sr_owner = ?owner,
       sr_base = file_hashes (se_hash E) ?local\<rparr>"
     "\<forall>n. local_content (locs_of E scope) w n = synced_content (locs_of E scope) fs0 n"
    using agr by (auto simp: agrees_def)
  obtain r v where v: "remote_io E GistFiles (api_gist_files (se_api E) g) w = (r, v)" by force
  have rv: "unchanged gists w v" "\<forall>fs. r = Inr fs \<longrightarrow> bt_wf fs \<and> gists (sw_remote v) g = Some (bt_get fs)" "r \<noteq> Inl NotFound"
    using gist_files_ok [OF ok, where call = GistFiles and g = g and w = w] v g(1) by auto
  have "io_all (find_remote E d (sw_record w scope)) w (\<lambda>(rcd, found) v. rcd = sw_record w scope \<and> unchanged gists w v \<and>
      (\<exists>fs. found = Some (g, fs) \<and> bt_wf fs \<and> bt_get fs = fs0)) (unchanged gists w)"
    using rv g(1,2) v by (cases r) (auto simp: find_remote_def io_all_def Let_def unchanged_def split: sync_error.splits)
  moreover have "io_all (sync_with_gist E scope ?owner ?local (sw_record w scope) g fs) v
      (\<lambda>report w'. report = report_default \<and> unchanged gists w w') (unchanged gists w)"
    if "unchanged gists w v" "bt_wf fs" "bt_get fs = fs0" for v fs
  proof -
    let ?remote = "synced_remote (locs_of E scope) fs"
    have "map_of (plan_sync (file_hashes (se_hash E) ?local) (file_hashes (se_hash E) ?remote) base winner) n = None" for n base winner
      using g(3) w bt_get_synced_remote [OF that(2), of "se_shared_settings E" scope n] that(3)
      by (simp add: plan_sync_get bt_get_hashes plan_file_None world_ok_def read_local_files_get local_content_def synced_content_def)
    then have "plan_sync (file_hashes (se_hash E) ?local) (file_hashes (se_hash E) ?remote) base winner = []" for base winner
      by (metis list.set_intros(1) map_of_eq_None_iff image_eqI empty_iff list.exhaust)
    with g(2) that(1) show ?thesis
      by (auto simp: sync_with_gist_def Let_def write_record_def unchanged_def fun_upd_idem)
  qed
  ultimately have "io_all (io_bind (find_remote E d (sw_record w scope)) (\<lambda>(rcd, found). case found of
       None \<Rightarrow> first_upload E scope d ?owner ?local
     | Some (g, remote) \<Rightarrow> sync_with_gist E scope ?owner ?local rcd g remote)) w
     (\<lambda>report w'. report = report_default \<and> unchanged gists w w') (unchanged gists w)"
    unfolding io_all_simps(3) by (elim io_all_mono) auto
  then show ?thesis unfolding run_sync_def read_record_def Let_def by (simp add: g(2))
qed

section \<open>A store of gists in memory\<close>

text \<open>A concrete service with which the sync runs on examples: a list of gists, the newest version of each first.\<close>

type_synonym memory = "(string \<times> files) list"

definition memory_gists :: "memory \<Rightarrow> string \<Rightarrow> (string \<rightharpoonup> string) option" where
  "memory_gists m g = map_option map_of (map_of m g)"

definition memory_patch :: "(string, string option) btree \<Rightarrow> files \<Rightarrow> files" where
  "memory_patch changes fs = List.map_filter (\<lambda>n. map_option (Pair n) (patched changes (map_of fs) n))
     (map fst changes @ map fst fs)"

definition memory_gist :: "string \<Rightarrow> files \<Rightarrow> gist" where
  "memory_gist g fs = \<lparr>gi_id = g, gi_description = None,
     gi_files = map (\<lambda>(n, c). (n, \<lparr>gf_content = Some c, gf_truncated = False, gf_raw_url = None\<rparr>)) (bt_extend [] (rev fs))\<rparr>"

definition memory_github :: "memory github" where
  "memory_github = \<lparr>
     gh_list = (\<lambda>page m. (Response 200 (Some []), m)),
     gh_get = (\<lambda>g m. (case map_of m g of Some fs \<Rightarrow> Response 200 (Some (memory_gist g fs)) | None \<Rightarrow> Response 404 None, m)),
     gh_raw = (\<lambda>url m. (Response 404 None, m)),
     gh_post = (\<lambda>d fs m. let g = CHR ''g'' # concat (map fst m) in (Response 201 (Some (memory_gist g fs)), (g, fs) # m)),
     gh_patch = (\<lambda>g changes m. case map_of m g of
         Some fs \<Rightarrow> (Response 200 (Some (memory_gist g (memory_patch changes fs))), (g, memory_patch changes fs) # m)
       | None \<Rightarrow> (Response 404 None, m))\<rparr>"

lemma map_of_memory_patch: "map_of (memory_patch changes fs) = patched changes (map_of fs)"
proof
  fix n
  have "map_of fs n = None" if "n \<notin> set (map fst fs)" using that by (simp add: map_of_eq_None_iff)
  moreover have "bt_get changes n = None" if "n \<notin> set (map fst changes)" using that by (simp add: bt_get_def map_of_eq_None_iff)
  ultimately show "map_of (memory_patch changes fs) n = patched changes (map_of fs) n"
    unfolding memory_patch_def map_of_map_filter by (auto simp: patched_def)
qed

lemma bt_get_read_back: "bt_get (bt_extend [] (rev fs)) = map_of fs"
  by (simp add: fun_eq_iff bt_get_extend split: option.splits)

lemma memory_fresh: "map_of m (CHR ''g'' # concat (map fst m)) = None"
proof -
  have "length n \<le> length (concat (map fst m))" if "n \<in> fst ` set m" for n
    using that by (induction m) (auto intro: trans_le_add2)
  then have "CHR ''g'' # concat (map fst m) \<notin> fst ` set m" by force
  then show ?thesis by (simp add: map_of_eq_None_iff)
qed

lemma memory_gist_served: "map_of m g = Some fs \<Longrightarrow> gist_served memory_github memory_gists g m (memory_gist g fs)"
proof -
  assume g: "map_of m g = Some fs"
  have files: "map fst (gi_files (memory_gist g fs)) = map fst (bt_extend [] (rev fs))"
    by (simp add: memory_gist_def case_prod_beta comp_def)
  have wf: "bt_wf (bt_extend [] (rev fs))" by (simp add: bt_wf_extend)
  then have d: "distinct (map fst (bt_extend [] (rev fs)))" by (simp add: bt_wf_def strict_sorted_iff)
  have get: "map_of (bt_extend [] (rev fs)) = map_of fs" using bt_get_read_back [of fs] by (simp add: bt_get_def [abs_def])
  have "map_of fs n = None \<longleftrightarrow> n \<notin> fst ` set (gi_files (memory_gist g fs))" for n
    using get map_of_eq_None_iff [of "bt_extend [] (rev fs)" n] files by (metis list.set_map)
  moreover have "\<exists>c. map_of fs n = Some c \<and> served memory_github memory_gists now f c" if "(n, f) \<in> set (gi_files (memory_gist g fs))" for n f now
    using that d get map_of_is_SomeI [OF d] by (auto simp: memory_gist_def served_def)
  ultimately show ?thesis using g d files unfolding gist_served_def memory_gists_def by auto
qed

lemma memory_github_ok: "github_ok memory_github memory_gists"
  unfolding github_ok_def
proof (intro conjI)
  show "\<forall>page w. memory_gists (snd (gh_list memory_github page w)) = memory_gists w"
    "\<forall>url w. memory_gists (snd (gh_raw memory_github url w)) = memory_gists w"
    by (simp_all add: memory_github_def)
  show "\<forall>g w r w'. gh_get memory_github g w = (r, w') \<longrightarrow> memory_gists w' = memory_gists w \<and>
      (\<forall>gist. api r = Inr gist \<longrightarrow> gist_served memory_github memory_gists g w gist) \<and> (api r = Inl NotFound \<longrightarrow> memory_gists w g = None)"
    using memory_gist_served
    by (auto simp: memory_github_def memory_gists_def api_def send_def is_success_def split: option.splits)
  show "\<forall>d fs w r w'. gh_post memory_github d fs w = (r, w') \<longrightarrow>
      (\<forall>g fs. memory_gists w g = Some fs \<longrightarrow> memory_gists w' g = Some fs) \<and>
      (\<forall>gist. api r = Inr gist \<longrightarrow> memory_gists w' (gi_id gist) = Some (bt_get fs))"
    by (auto simp: memory_github_def memory_gists_def memory_gist_def Let_def bt_get_def [abs_def] memory_fresh api_def send_def is_success_def)
  show "\<forall>g changes w r w'. gh_patch memory_github g changes w = (r, w') \<longrightarrow>
      (\<forall>g'. g' \<noteq> g \<longrightarrow> memory_gists w' g' = memory_gists w g') \<and>
      (\<forall>fs. memory_gists w g = Some fs \<longrightarrow> memory_gists w' g = Some (patched changes fs) \<or>
        (\<forall>gist. api r \<noteq> Inr gist) \<and> memory_gists w' g = Some fs)"
    by (auto simp: memory_github_def memory_gists_def map_of_memory_patch split: option.splits)
qed

definition example_env :: "(local_call \<Rightarrow> sync_error option) \<Rightarrow> (remote_call \<Rightarrow> file_store \<Rightarrow> file_store) \<Rightarrow> memory sync_env" where
  "example_env fails edits = \<lparr>se_hash = (\<lambda>c. c), se_service = memory_github, se_shared_settings = False, se_now = ''now'',
     se_fails = fails, se_edits = edits\<rparr>"

definition example_world :: "local_file \<Rightarrow> string \<Rightarrow> hashes \<Rightarrow> memory sync_world" where
  "example_world local remote base = \<lparr>sw_store = [(FilePath Profile ''tasks.json'', local)],
     sw_record = (\<lambda>_. \<lparr>sr_gist_id = Some ''g'', sr_owner = None, sr_base = base\<rparr>),
     sw_backups = [], sw_remote = [(''g'', [(''tasks.json'', remote)])]\<rparr>"

lemma example_ok:
  "github_ok (se_service (example_env fails edits)) memory_gists" "quiet (example_env fails (\<lambda>_ s. s))"
  "distinct (map fst (sw_store (example_world local remote base)))"
  by (simp_all add: example_env_def memory_github_ok quiet_def example_world_def)

section \<open>The properties of the sync\<close>






text \<open>A file that is larger than the maximum, or is not UTF-8, counts as absent, and a file from the gist takes its place
  without a backup.\<close>

lemma oversized_overwritten:
  "let (r, w') = run_sync (example_env (\<lambda>_. None) (\<lambda>_ s. s)) ''u'' Profile ''d'' (example_world \<lparr>lf_len = 3, lf_text = None\<rparr> ''old'' []) in
   r = Inr (report_default\<lparr>rp_downloaded := 1\<rparr>) \<and>
   sw_store w' = [(FilePath Profile ''tasks.json'', text_file ''old'')] \<and> sw_backups w' = []"
  by code_simp

end
