(* ===== verification/SyncState.thy ===== *)
theory SyncState
  imports SettingsSync
begin

text \<open>
  The sign-in and the sync as a system of events (\<open>SettingsSync\<close> and \<open>authorize\<close> of
  \<open>crates/settings_sync/src/settings_sync.rs\<close>): the restored sign-in, signing in with a device code, cancelling, signing out,
  starting a sync and its result. A task is what it waits for; dropping the task of a field cancels it, so its results arrive only
  while the field holds it. What GitHub, the keychain and the syncs answer is the payload of the events. The invariant shows
  that the view never waits for a task that is not under way.
\<close>

section \<open>State\<close>

record device_code =
  dc_device_code :: string
  dc_user_code :: string
  dc_verification_uri :: string
  dc_expires_in :: nat
  dc_interval :: nat

record github_user =
  us_login :: string
  us_name :: "string option"
  us_avatar_url :: string

datatype sync_status = NeverSynced | Syncing | Synced nat sync_report | Failed sync_error

datatype state =
    Restoring
  | SignedOut "sync_error option"
  | AwaitingAuthorization device_code
  | SignedIn github_user string sync_status

text \<open>Where a sign-in is: waiting for the code, polling with an interval until a time, waiting for the user, saving
  the credentials. A sync is under way for a login, or is over without having cleared the field.\<close>

datatype sign_in_task =
    RequestingCode
  | Polling device_code nat nat
  | FetchingUser string
  | SavingCredentials github_user string

datatype sync_task = SyncRunning string | SyncOver

text \<open>\<open>ss_saved\<close> is the login and the token in the keychain, the token only when it is UTF-8; \<open>ss_cleanups\<close> counts the sign-outs whose credentials
  are still to be deleted.\<close>

record settings_sync =
  ss_state :: state
  ss_sign_in_task :: "sign_in_task option"
  ss_sync_task :: "sync_task option"
  ss_restoring :: bool
  ss_saved :: "(string \<times> string option) option"
  ss_cleanups :: nat

definition sync_new :: "(string \<times> string option) option \<Rightarrow> settings_sync" where
  "sync_new saved = \<lparr>ss_state = Restoring, ss_sign_in_task = None, ss_sync_task = None, ss_restoring = True,
     ss_saved = saved, ss_cleanups = 0\<rparr>"

section \<open>Operations\<close>

definition user_from_login :: "string \<Rightarrow> github_user" where
  "user_from_login login = \<lparr>us_login = login, us_name = None,
     us_avatar_url = ''https://github.com/'' @ login @ ''.png?size=64''\<rparr>"

definition restored :: "sync_error + (string \<times> string option) option \<Rightarrow> settings_sync \<Rightarrow> settings_sync" where
  "restored saved s = s\<lparr>ss_restoring := False, ss_state := (case saved of
     Inr (Some (login, Some token)) \<Rightarrow> SignedIn (user_from_login login) token NeverSynced
   | _ \<Rightarrow> SignedOut None)\<rparr>"

definition sync_now :: "settings_sync \<Rightarrow> settings_sync" where
  "sync_now s = (case ss_state s of
     SignedIn user token sync \<Rightarrow>
       if sync = Syncing then s
       else s\<lparr>ss_state := SignedIn user token Syncing, ss_sync_task := Some (SyncRunning (us_login user))\<rparr>
   | _ \<Rightarrow> s)"

definition sign_in :: "settings_sync \<Rightarrow> settings_sync" where
  "sign_in s = (case ss_state s of
     SignedIn _ _ _ \<Rightarrow> s
   | AwaitingAuthorization _ \<Rightarrow> s
   | _ \<Rightarrow> s\<lparr>ss_state := SignedOut None, ss_sign_in_task := Some RequestingCode\<rparr>)"

definition sign_in_finished :: "sync_error + github_user \<times> string \<Rightarrow> settings_sync \<Rightarrow> settings_sync" where
  "sign_in_finished result s = (case result of
     Inr (user, token) \<Rightarrow> sync_now (s\<lparr>ss_state := SignedIn user token NeverSynced\<rparr>)
   | Inl e \<Rightarrow> s\<lparr>ss_state := SignedOut (Some e)\<rparr>)\<lparr>ss_sign_in_task := None\<rparr>"

definition set_awaiting_authorization :: "device_code \<Rightarrow> settings_sync \<Rightarrow> settings_sync" where
  "set_awaiting_authorization code s = s\<lparr>ss_state := AwaitingAuthorization code\<rparr>"

definition cancel_sign_in :: "settings_sync \<Rightarrow> settings_sync" where
  "cancel_sign_in s = (if ss_sign_in_task s \<noteq> None then s\<lparr>ss_sign_in_task := None, ss_state := SignedOut None\<rparr> else s)"

definition sign_out :: "settings_sync \<Rightarrow> settings_sync" where
  "sign_out s = s\<lparr>ss_sign_in_task := None, ss_sync_task := None, ss_state := SignedOut None, ss_cleanups := ss_cleanups s + 1\<rparr>"

definition sync_finished :: "nat \<Rightarrow> sync_error + sync_report \<Rightarrow> settings_sync \<Rightarrow> settings_sync" where
  "sync_finished at result s = (case ss_state s of
     SignedIn user token _ \<Rightarrow>
       (case result of
          Inr report \<Rightarrow> s\<lparr>ss_state := SignedIn user token (Synced at report)\<rparr>
        | Inl Unauthorized \<Rightarrow> (sign_out s)\<lparr>ss_state := SignedOut (Some (SyncFailed ''settings_sync.error.sign_in_rejected''))\<rparr>
        | Inl e \<Rightarrow> s\<lparr>ss_state := SignedIn user token (Failed e)\<rparr>)\<lparr>ss_sync_task := None\<rparr>
   | _ \<Rightarrow> s\<lparr>ss_sync_task := Some SyncOver\<rparr>)"

text \<open>\<open>authorize\<close>, from one answer to the next.\<close>

definition code_received :: "nat \<Rightarrow> sync_error + device_code \<Rightarrow> settings_sync \<Rightarrow> settings_sync" where
  "code_received now result s = (case result of
     Inl e \<Rightarrow> sign_in_finished (Inl e) s
   | Inr code \<Rightarrow> set_awaiting_authorization code
       (s\<lparr>ss_sign_in_task := Some (Polling code (max (dc_interval code) 1) (now + dc_expires_in code))\<rparr>))"

definition polled :: "device_code \<Rightarrow> nat \<Rightarrow> nat \<Rightarrow> nat \<Rightarrow> poll_response response \<Rightarrow> settings_sync \<Rightarrow> settings_sync" where
  "polled code interval expires_at now r s =
     (if \<not> now < expires_at then sign_in_finished (Inl (SyncFailed ''settings_sync.error.code_expired'')) s
      else case poll_for_token r of
        Inl e \<Rightarrow> sign_in_finished (Inl e) s
      | Inr Pending \<Rightarrow> s
      | Inr SlowDown \<Rightarrow> s\<lparr>ss_sign_in_task := Some (Polling code (interval + 5) expires_at)\<rparr>
      | Inr (Authorized token) \<Rightarrow> s\<lparr>ss_sign_in_task := Some (FetchingUser token)\<rparr>)"

definition user_received :: "string \<Rightarrow> sync_error + github_user \<Rightarrow> settings_sync \<Rightarrow> settings_sync" where
  "user_received token result s = (case result of
     Inl e \<Rightarrow> sign_in_finished (Inl e) s
   | Inr user \<Rightarrow> s\<lparr>ss_sign_in_task := Some (SavingCredentials user token)\<rparr>)"

definition credentials_saved :: "github_user \<Rightarrow> string \<Rightarrow> sync_error + unit \<Rightarrow> settings_sync \<Rightarrow> settings_sync" where
  "credentials_saved user token result s = (case result of
     Inl e \<Rightarrow> sign_in_finished (Inl e) s
   | Inr _ \<Rightarrow> sign_in_finished (Inr (user, token)) (s\<lparr>ss_saved := Some (us_login user, Some token)\<rparr>))"

definition credentials_deleted :: "settings_sync \<Rightarrow> settings_sync" where
  "credentials_deleted s = s\<lparr>ss_saved := None, ss_cleanups := ss_cleanups s - 1\<rparr>"

section \<open>Events\<close>

datatype sync_event =
    Restored "sync_error + (string \<times> string option) option"
  | SignIn
  | CodeReceived nat "sync_error + device_code"
  | Polled nat "poll_response response"
  | UserReceived "sync_error + github_user"
  | CredentialsSaved "sync_error + unit"
  | CancelSignIn
  | SignOut
  | CredentialsDeleted
  | SyncNow
  | SyncFinished nat "sync_error + sync_report"

inductive sync_step :: "settings_sync \<Rightarrow> sync_event \<Rightarrow> settings_sync option \<Rightarrow> bool" where
  step_restored: "ss_restoring s \<Longrightarrow> sync_step s (Restored saved) (Some (restored saved s))"
| step_sign_in: "sync_step s SignIn (Some (sign_in s))"
| step_code: "ss_sign_in_task s = Some RequestingCode \<Longrightarrow> sync_step s (CodeReceived now r) (Some (code_received now r s))"
| step_polled: "ss_sign_in_task s = Some (Polling code interval expires_at) \<Longrightarrow>
    sync_step s (Polled now p) (Some (polled code interval expires_at now p s))"
| step_user: "ss_sign_in_task s = Some (FetchingUser token) \<Longrightarrow> sync_step s (UserReceived u) (Some (user_received token u s))"
| step_credentials: "ss_sign_in_task s = Some (SavingCredentials user token) \<Longrightarrow>
    sync_step s (CredentialsSaved c) (Some (credentials_saved user token c s))"
| step_cancel: "sync_step s CancelSignIn (Some (cancel_sign_in s))"
| step_sign_out: "sync_step s SignOut (Some (sign_out s))"
| step_deleted: "0 < ss_cleanups s \<Longrightarrow> sync_step s CredentialsDeleted (Some (credentials_deleted s))"
| step_sync: "sync_step s SyncNow (Some (sync_now s))"
| step_finished: "ss_sync_task s = Some (SyncRunning login) \<Longrightarrow> sync_step s (SyncFinished at result) (Some (sync_finished at result s))"

inductive_cases sync_stepE: "sync_step s e m"

definition sync_init :: "settings_sync \<Rightarrow> bool" where
  "sync_init s = (\<exists>saved. s = sync_new saved)"

definition sync_reachable :: "settings_sync \<Rightarrow> bool" where
  "sync_reachable s = reach sync_init sync_step s"

section \<open>What the view shows is under way\<close>

definition signing_in :: "settings_sync \<Rightarrow> bool" where
  "signing_in s = (case ss_sign_in_task s of None \<Rightarrow> False | Some RequestingCode \<Rightarrow> False | _ \<Rightarrow> True)"

definition sync_inv :: "settings_sync \<Rightarrow> bool" where
  "sync_inv s = ((ss_state s = Restoring \<longrightarrow> ss_restoring s) \<and>
     (\<forall>code. ss_state s = AwaitingAuthorization code \<longrightarrow> signing_in s) \<and>
     (\<forall>user token. ss_state s = SignedIn user token Syncing \<longrightarrow> ss_sync_task s = Some (SyncRunning (us_login user))))"

lemma inv_sync_now: "sync_inv s \<Longrightarrow> sync_inv (sync_now s)"
  by (auto simp: sync_now_def sync_inv_def signing_in_def split: state.splits)

lemma inv_sign_in_finished: "sync_inv (sign_in_finished result s)"
  by (cases result) (auto simp: sign_in_finished_def sync_now_def sync_inv_def)

lemma inv_sign_in: "sync_inv s \<Longrightarrow> sync_inv (sign_in s)"
  by (auto simp: sign_in_def sync_inv_def split: state.splits)

lemma inv_restored: "sync_inv (restored saved s)"
  by (auto simp: restored_def sync_inv_def split: sum.splits option.splits)

lemma inv_cancel: "sync_inv s \<Longrightarrow> sync_inv (cancel_sign_in s)" and inv_sign_out: "sync_inv (sign_out s)"
  by (auto simp: cancel_sign_in_def sign_out_def sync_inv_def)

lemma inv_sync_finished: "sync_inv s \<Longrightarrow> sync_inv (sync_finished at result s)"
  by (cases "ss_state s") (auto simp: sync_finished_def sign_out_def sync_inv_def signing_in_def split: sum.splits sync_error.splits)

lemma inv_code_received: "sync_inv (code_received now result s)"
  by (cases result) (auto simp: code_received_def inv_sign_in_finished, simp add: set_awaiting_authorization_def sync_inv_def signing_in_def)

lemma inv_task: "sync_inv s \<Longrightarrow> t \<noteq> RequestingCode \<Longrightarrow> sync_inv (s\<lparr>ss_sign_in_task := Some t\<rparr>)"
  by (cases t) (auto simp: sync_inv_def signing_in_def)

lemma inv_polled: "sync_inv s \<Longrightarrow> sync_inv (polled code interval expires_at now p s)"
  by (auto simp: polled_def inv_sign_in_finished intro!: inv_task split: sum.splits token_poll.splits)

lemma inv_user_received: "sync_inv s \<Longrightarrow> sync_inv (user_received token u s)"
  by (auto simp: user_received_def inv_sign_in_finished intro!: inv_task split: sum.splits)

lemma inv_credentials_saved: "sync_inv (credentials_saved user token c s)"
  by (cases c) (simp_all add: credentials_saved_def inv_sign_in_finished)

lemma inv_credentials_deleted: "sync_inv s \<Longrightarrow> sync_inv (credentials_deleted s)"
  by (simp add: credentials_deleted_def sync_inv_def signing_in_def)

lemmas inv_ops = inv_sync_now inv_sign_in inv_restored inv_cancel inv_sign_out inv_sync_finished inv_code_received inv_polled
  inv_user_received inv_credentials_saved inv_credentials_deleted

lemma sync_step_inv: "sync_inv s \<Longrightarrow> sync_step s e m \<Longrightarrow> wp m sync_inv"
  by (erule sync_stepE) (simp_all add: inv_ops)

interpretation sync_system: step_system sync_init sync_step sync_inv
proof
  show "sync_init s \<Longrightarrow> sync_inv s" for s by (auto simp: sync_init_def sync_new_def sync_inv_def)
qed (rule sync_step_inv)


lemma example_reachable: "sync_reachable (sync_now (restored (Inr (Some (''u'', Some ''t''))) (sync_new None)))"
  unfolding sync_reachable_def
proof (rule reach_step [OF reach_step [OF reach_init]])
  show "sync_init (sync_new None)" by (auto simp: sync_init_def)
  show "sync_step (sync_new None) (Restored (Inr (Some (''u'', Some ''t'')))) (Some (restored (Inr (Some (''u'', Some ''t''))) (sync_new None)))"
    by (rule step_restored) (simp add: sync_new_def)
qed (rule step_sync)


end
