(* ===== verification/Statements.thy ===== *)
theory Statements
  imports Prelude
begin

text \<open>
  SQL statements (\<open>crates/database_client/src/statements.rs\<close>): the scanner that walks a source outside quotes and
  comments, \<open>split\<close>, \<open>statement_at\<close>, \<open>classify\<close> and \<open>risk\<close>, and the quoting functions of \<open>catalog.rs\<close>. A source is the list of its
  bytes, one \<open>char\<close> per byte, as the scanner reads \<open>source.as_bytes()\<close>; the bytes from 128 on are
  those of the UTF-8 sequences. The scanner is at a position of the source, given by the bytes before it, the last one first, and the
  bytes from there on. The lemmas show that the tokens and the statements lie in order within the source, and that a quoted name or literal is one
  token wherever it stands.
\<close>

section \<open>Kinds of statements\<close>

datatype transaction = Begin | Commit | Rollback

datatype statement_kind = Read | Write bool | Ddl | Transaction transaction | OtherKind

definition is_cursor_safe :: "statement_kind \<Rightarrow> string option \<Rightarrow> bool" where
  "is_cursor_safe kind first_keyword =
     (kind = Read \<and> first_keyword \<in> {Some ''select'', Some ''with'', Some ''values'', Some ''table''})"

datatype risk = EveryRow | DdlRisk | ProductionWrite

datatype environment = Local | Dev | Staging | Prod

record saved_connection =
  cn_environment :: environment
  cn_confirm_writes :: bool

definition risk_of :: "statement_kind \<Rightarrow> saved_connection \<Rightarrow> risk option" where
  "risk_of kind connection =
     (let production = (cn_environment connection = Prod); asks = (cn_confirm_writes connection \<or> production) in
      if kind = Write True \<and> asks then Some EveryRow
      else if kind = Ddl \<and> asks then Some DdlRisk
      else case kind of Write _ \<Rightarrow> if production then Some ProductionWrite else None | _ \<Rightarrow> None)"

record statement =
  st_range :: "nat \<times> nat"
  st_kind :: statement_kind
  st_first_keyword :: "string option"

section \<open>The scanner\<close>

datatype token = Word | Semicolon | OpenParen | CloseParen | OtherToken

type_synonym spanned = "token \<times> nat \<times> nat"

abbreviation quote_char :: char where
  "quote_char \<equiv> CHR 0x27"

abbreviation backslash :: char where
  "backslash \<equiv> CHR 0x5C"

definition is_word_byte :: "char \<Rightarrow> bool" where
  "is_word_byte c = (is_ascii_alphanumeric c \<or> c = CHR ''_'' \<or> (of_char c :: nat) \<ge> 128)"

definition is_ascii_whitespace :: "char \<Rightarrow> bool" where
  "is_ascii_whitespace c = ((of_char c :: nat) \<in> {9, 10, 12, 13, 32})"

definition is_ascii_digit :: "char \<Rightarrow> bool" where
  "is_ascii_digit c = (let n = of_char c :: nat in 48 \<le> n \<and> n \<le> 57)"

text \<open>How far the loops of the scanner go: over a line comment, a block comment of some depth, a text in single quotes, a name in double
  quotes. An escape at the very end of the source takes one byte more than there is.\<close>

definition line_comment :: "string \<Rightarrow> nat" where
  "line_comment rest = length (takeWhile (\<lambda>c. c \<noteq> newline) rest)"

fun block_comment :: "nat \<Rightarrow> string \<Rightarrow> nat" where
  "block_comment depth [] = 0"
| "block_comment depth (c # rest) =
     (if depth = 0 then 0
      else if c = CHR ''/'' \<and> prefix ''*'' rest then 2 + block_comment (depth + 1) (tl rest)
      else if c = CHR ''*'' \<and> prefix ''/'' rest then 2 + block_comment (depth - 1) (tl rest)
      else 1 + block_comment depth rest)"

fun quoted_text :: "bool \<Rightarrow> string \<Rightarrow> nat" where
  "quoted_text escapes [] = 0"
| "quoted_text escapes (c # rest) =
     (if c = backslash \<and> escapes then 2 + quoted_text escapes (tl rest)
      else if c = quote_char \<and> prefix [quote_char] rest then 2 + quoted_text escapes (tl rest)
      else if c = quote_char then 1
      else 1 + quoted_text escapes rest)"

fun quoted_name :: "string \<Rightarrow> nat" where
  "quoted_name [] = 0"
| "quoted_name (c # rest) =
     (if c = CHR 0x22 then if prefix [CHR 0x22] rest then 2 + quoted_name (tl rest) else 1
      else 1 + quoted_name rest)"

text \<open>\<open>E'...'\<close>: the byte before the quote is an \<open>e\<close> that does not end a longer word.\<close>

fun has_escapes :: "string \<Rightarrow> bool" where
  "has_escapes (c # before) = ((c = CHR ''e'' \<or> c = CHR ''E'') \<and> (case before of [] \<Rightarrow> True | d # _ \<Rightarrow> \<not> is_word_byte d))"
| "has_escapes [] = False"

text \<open>\<open>$tag$ ... $tag$\<close>, from the byte after the first dollar: the length of the whole quote, or \<open>None\<close> where the dollar starts none.\<close>

definition dollar_quote :: "string \<Rightarrow> nat option" where
  "dollar_quote rest = (case position (\<lambda>c. \<not> is_word_byte c) rest of
     None \<Rightarrow> None
   | Some n \<Rightarrow>
       if rest ! n = CHR ''$'' \<and> \<not> (case take n rest of c # _ \<Rightarrow> is_ascii_digit c | [] \<Rightarrow> False)
       then let tag = CHR ''$'' # take (n + 1) rest; body = drop (n + 1) rest in
         Some (case str_find tag body of
           Some offset \<Rightarrow> length tag + offset + length tag
         | None \<Rightarrow> length tag + length body)
       else None)"

text \<open>One turn of the loop: how many bytes it takes and the token it visits. \<open>c\<close> is the byte at the position.\<close>

definition scan_step :: "string \<Rightarrow> char \<Rightarrow> string \<Rightarrow> nat \<times> token option" where
  "scan_step before c rest =
     (if c = CHR ''-'' \<and> prefix ''-'' rest then (line_comment (c # rest), None)
      else if c = CHR ''/'' \<and> prefix ''*'' rest then (2 + block_comment 1 (tl rest), None)
      else if c = quote_char then (1 + quoted_text (has_escapes before) rest, Some OtherToken)
      else if c = CHR 0x22 then (1 + quoted_name rest, Some Word)
      else if c = CHR ''$'' \<and> (case before of [] \<Rightarrow> True | d # _ \<Rightarrow> \<not> is_word_byte d)
        then (case dollar_quote rest of Some n \<Rightarrow> (n, Some OtherToken) | None \<Rightarrow> (1, None))
      else if c = CHR '';'' then (1, Some Semicolon)
      else if c = CHR ''('' then (1, Some OpenParen)
      else if c = CHR '')'' then (1, Some CloseParen)
      else if is_word_byte c then (length (takeWhile is_word_byte (c # rest)), Some Word)
      else if is_ascii_whitespace c then (1, None)
      else (1, Some OtherToken))"

lemma scan_step_pos: "0 < fst (scan_step before c rest)"
proof -
  have "dollar_quote rest = Some n \<Longrightarrow> 0 < n" for n
    by (auto simp: dollar_quote_def Let_def split: option.splits if_splits)
  then show ?thesis by (auto simp: scan_step_def line_comment_def split: option.splits)
qed

function scan_at :: "string \<Rightarrow> string \<Rightarrow> spanned list" where
  "scan_at before [] = []"
| "scan_at before (c # rest) =
     (let (n, token) = scan_step before c rest; start = length before; taken = take n (c # rest) in
      (case token of Some t \<Rightarrow> [(t, start, start + length taken)] | None \<Rightarrow> []) @
      scan_at (rev taken @ before) (drop n (c # rest)))"
  by pat_completeness auto
termination
proof (relation "measure (length \<circ> snd)")
  fix before c rest x n token start taken
  assume "x = scan_step before c rest" "(n, token) = x"
  then have "0 < n" using scan_step_pos by (metis fst_conv)
  then show "((rev taken @ before, drop n (c # rest)), before, c # rest) \<in> measure (length \<circ> snd)" by simp
qed simp

declare scan_at.simps(2) [simp del]

definition scan :: "string \<Rightarrow> spanned list" where
  "scan source = scan_at [] source"

definition slice_of :: "string \<Rightarrow> nat \<times> nat \<Rightarrow> string" where
  "slice_of source = (\<lambda>(a, b). take (b - a) (drop a source))"

section \<open>Statements of a source\<close>

text \<open>The words of a text with the depth of parentheses they are at.\<close>

fun words_of :: "string \<Rightarrow> nat \<Rightarrow> spanned list \<Rightarrow> (nat \<times> string) list" where
  "words_of source depth [] = []"
| "words_of source depth ((OpenParen, _) # ts) = words_of source (depth + 1) ts"
| "words_of source depth ((CloseParen, _) # ts) = words_of source (depth - 1) ts"
| "words_of source depth ((Word, span) # ts) = (depth, map ascii_lower (slice_of source span)) # words_of source depth ts"
| "words_of source depth (_ # ts) = words_of source depth ts"

definition write_verbs :: "string list" where
  "write_verbs = [''insert'', ''update'', ''delete'', ''merge'']"

definition kind_of :: "(nat \<times> string) list \<Rightarrow> statement_kind" where
  "kind_of words =
     (let top_level = (\<lambda>word. \<exists>w\<in>set words. w = (0, word));
          writes = (\<exists>w\<in>set words. snd w \<in> set write_verbs) in
      case words of
        [] \<Rightarrow> OtherKind
      | (_, first) # _ \<Rightarrow>
          if first \<in> {''select'', ''values'', ''table'', ''show''} then Read
          else if first = ''with'' then if writes then Write False else Read
          else if first = ''explain'' then
            if (\<exists>w\<in>set (take 4 words). snd w = ''analyze'') \<and> writes then Write False else Read
          else if first \<in> {''update'', ''delete''} then Write (\<not> top_level ''where'')
          else if first = ''truncate'' then Write True
          else if first \<in> {''insert'', ''merge'', ''copy''} then Write False
          else if first \<in> {''create'', ''alter'', ''drop'', ''grant'', ''revoke'', ''comment'', ''reindex'', ''cluster'', ''refresh''} then Ddl
          else if first \<in> {''begin'', ''start''} then Transaction Begin
          else if first \<in> {''commit'', ''end''} then Transaction Commit
          else if first \<in> {''rollback'', ''abort''} then Transaction Rollback
          else OtherKind)"

definition classify :: "string \<Rightarrow> statement_kind \<times> string option" where
  "classify t = (let words = words_of t 0 (scan t) in
     (kind_of words, case words of [] \<Rightarrow> None | (_, first) # _ \<Rightarrow> Some first))"

definition finish :: "string \<Rightarrow> (nat \<times> nat) option \<Rightarrow> statement list" where
  "finish source current = (case current of
     Some span \<Rightarrow> (let (kind, first_keyword) = classify (slice_of source span) in
       [\<lparr>st_range = span, st_kind = kind, st_first_keyword = first_keyword\<rparr>])
   | None \<Rightarrow> [])"

definition extend_range :: "(nat \<times> nat) option \<Rightarrow> nat \<times> nat \<Rightarrow> nat \<times> nat" where
  "extend_range current span = (case current of Some existing \<Rightarrow> (fst existing, snd span) | None \<Rightarrow> span)"

fun split_tokens :: "string \<Rightarrow> (nat \<times> nat) option \<Rightarrow> spanned list \<Rightarrow> statement list" where
  "split_tokens source current [] = finish source current"
| "split_tokens source current ((t, span) # ts) =
     (if t = Semicolon then finish source current @ split_tokens source None ts
      else split_tokens source (Some (extend_range current span)) ts)"

definition split :: "string \<Rightarrow> statement list" where
  "split source = split_tokens source None (scan source)"

definition statement_at :: "statement list \<Rightarrow> nat \<Rightarrow> statement option" where
  "statement_at statements offset =
     (case find (\<lambda>s. fst (st_range s) \<le> offset \<and> offset \<le> snd (st_range s)) statements of
        Some s \<Rightarrow> Some s
      | None \<Rightarrow> (case find (\<lambda>s. snd (st_range s) \<le> offset) (rev statements) of
          Some s \<Rightarrow> Some s
        | None \<Rightarrow> (case statements of [] \<Rightarrow> None | s # _ \<Rightarrow> Some s)))"

section \<open>Quoting\<close>

definition quote_ident :: "string \<Rightarrow> string" where
  "quote_ident name = [CHR 0x22] @ str_replace name [CHR 0x22] [CHR 0x22, CHR 0x22] @ [CHR 0x22]"

definition quote_literal :: "string \<Rightarrow> string" where
  "quote_literal value = [quote_char] @ str_replace value [quote_char] [quote_char, quote_char] @ [quote_char]"

definition qualified_name :: "string \<Rightarrow> string \<Rightarrow> string" where
  "qualified_name schema name = quote_ident schema @ ''.'' @ quote_ident name"

section \<open>Tokens lie in order\<close>

fun in_order :: "nat \<Rightarrow> (nat \<times> nat) list \<Rightarrow> nat \<Rightarrow> bool" where
  "in_order lo [] hi = (lo \<le> hi)"
| "in_order lo ((a, b) # spans) hi = (lo \<le> a \<and> a < b \<and> in_order b spans hi)"

lemma in_order_lower: "in_order lo spans hi \<Longrightarrow> k \<le> lo \<Longrightarrow> in_order k spans hi"
  by (cases spans) auto

lemma in_order_le: "in_order lo spans hi \<Longrightarrow> lo \<le> hi"
proof (induction spans arbitrary: lo)
  case (Cons x spans)
  then show ?case by (cases x) (fastforce dest: Cons.IH)
qed simp

lemma in_order_bounds: "in_order lo spans hi \<Longrightarrow> (a, b) \<in> set spans \<Longrightarrow> lo \<le> a \<and> a < b \<and> b \<le> hi"
proof (induction spans arbitrary: lo)
  case (Cons x spans)
  obtain c d where x: "x = (c, d)" by (cases x)
  have "d \<le> hi" using Cons.prems x by (auto intro: in_order_le)
  with Cons x show ?case by fastforce
qed simp

lemma scan_at_in_order: "in_order (length before) (map snd (scan_at before rest)) (length before + length rest)"
proof (induction before rest rule: scan_at.induct)
  case (2 before c rest)
  obtain n t where step: "scan_step before c rest = (n, t)" by (cases "scan_step before c rest")
  have n: "0 < n" using scan_step_pos [of before c rest] step by simp
  let ?taken = "take n (c # rest)" and ?left = "drop n (c # rest)"
  have "length (rev ?taken @ before) = length before + length ?taken"
    "length (rev ?taken @ before) + length ?left = length before + length (c # rest)" by auto
  then have IH: "in_order (length before + length ?taken) (map snd (scan_at (rev ?taken @ before) ?left)) (length before + length (c # rest))"
    using 2 [OF step [symmetric] refl refl refl] by presburger
  have "0 < length ?taken" using n by simp
  with IH show ?case using step by (auto simp: scan_at.simps(2) Let_def simp del: length_take length_Cons split: option.splits intro: in_order_lower)
qed simp

section \<open>Statements cover the tokens\<close>

definition covered :: "statement list \<Rightarrow> nat \<times> nat \<Rightarrow> bool" where
  "covered ss = (\<lambda>(a, b). \<exists>s\<in>set ss. fst (st_range s) \<le> a \<and> b \<le> snd (st_range s))"

lemma finish_range: "map st_range (finish source current) = (case current of None \<Rightarrow> [] | Some r \<Rightarrow> [r])"
  by (auto simp: finish_def Let_def split: option.splits prod.splits)

lemma covered_finish: "covered (finish source current @ ss) x = ((case current of None \<Rightarrow> False | Some (p, q) \<Rightarrow> p \<le> fst x \<and> snd x \<le> q) \<or> covered ss x)"
  by (cases current; cases x) (auto simp: covered_def finish_def Let_def case_prod_beta)

lemma split_tokens_ranges:
  assumes "in_order lo (map snd ts) hi" "case current of None \<Rightarrow> True | Some (p, q) \<Rightarrow> p < q \<and> q \<le> lo"
  shows "in_order (case current of None \<Rightarrow> lo | Some (p, q) \<Rightarrow> p) (map st_range (split_tokens source current ts)) hi \<and>
    (\<forall>(t, x)\<in>set ts. t \<noteq> Semicolon \<longleftrightarrow> covered (split_tokens source current ts) x) \<and>
    (\<forall>p q. current = Some (p, q) \<longrightarrow> covered (split_tokens source current ts) (p, q))"
  using assms
proof (induction ts arbitrary: lo current)
  case Nil
  then show ?case by (auto simp: finish_range covered_finish [where ss = "[]", simplified] split: option.splits)
next
  case (Cons x ts)
  obtain t a b where x: "x = (t, a, b)" by (cases x)
  have ab: "lo \<le> a" "a < b" "in_order b (map snd ts) hi" using Cons.prems x by auto
  have later: "b \<le> fst y \<and> fst y < snd y" if "(u, y) \<in> set ts" for u y
    using in_order_bounds [OF ab(3), of "fst y" "snd y"] that by (force simp: image_iff)
  show ?case
  proof (cases "t = Semicolon")
    case True
    let ?rest = "split_tokens source None ts"
    have IH: "in_order b (map st_range ?rest) hi" "\<forall>(t, x)\<in>set ts. t \<noteq> Semicolon \<longleftrightarrow> covered ?rest x"
      using Cons.IH [OF ab(3), of None] by auto
    have "\<not> covered ?rest (a, b)"
    proof
      assume "covered ?rest (a, b)"
      then obtain s where s: "s \<in> set ?rest" "fst (st_range s) \<le> a" by (auto simp: covered_def)
      then have "b \<le> fst (st_range s)" using in_order_bounds [OF IH(1), of "fst (st_range s)" "snd (st_range s)"] by simp
      with s ab(2) show False by simp
    qed
    with True x ab IH later Cons.prems(2) show ?thesis
      by (fastforce simp: finish_range covered_finish split: option.splits intro: in_order_lower)
  next
    case False
    let ?cur = "extend_range current (a, b)"
    have cur: "fst ?cur < snd ?cur" "snd ?cur = b" "current = None \<Longrightarrow> ?cur = (a, b)" "current = Some (p, q) \<Longrightarrow> ?cur = (p, b)" for p q
      using Cons.prems(2) ab by (auto simp: extend_range_def split: option.splits)
    from Cons.IH [OF ab(3), of "Some ?cur"] cur(1,2)
    have IH: "in_order (fst ?cur) (map st_range (split_tokens source (Some ?cur) ts)) hi"
        "\<forall>(t, x)\<in>set ts. t \<noteq> Semicolon \<longleftrightarrow> covered (split_tokens source (Some ?cur) ts) x"
        "covered (split_tokens source (Some ?cur) ts) ?cur"
      by (cases ?cur; auto simp: case_prod_beta)+
    have wider: "covered ss (p, q) \<Longrightarrow> p \<le> p' \<Longrightarrow> q' \<le> q \<Longrightarrow> covered ss (p', q')" for ss p q p' q'
      by (force simp: covered_def)
    show ?thesis
    proof (cases current)
      case None
      with False x ab IH cur(3) show ?thesis by (auto intro: in_order_lower)
    next
      case (Some r)
      obtain p q where r: "r = (p, q)" by (cases r)
      with Some Cons.prems(2) False x ab IH cur(4) show ?thesis
        by (auto intro: wider)
    qed
  qed
qed

section \<open>Scanning piece by piece\<close>

text \<open>The bytes that follow do not continue a word, a text or a name.\<close>

definition stops :: "string \<Rightarrow> bool" where
  "stops rest = (case rest of [] \<Rightarrow> True | c # _ \<Rightarrow> \<not> is_word_byte c \<and> c \<noteq> quote_char \<and> c \<noteq> CHR 0x22)"

definition doubled :: "char \<Rightarrow> string \<Rightarrow> string" where
  "doubled q s = concat (map (\<lambda>c. if c = q then [q, q] else [c]) s)"

lemma replace_doubled: "str_replace s [q] [q, q] = doubled q s"
proof -
  have "replace_aux 0 [q] [q, q] s = doubled q s" by (induction s) (auto simp: doubled_def)
  then show ?thesis by (simp add: str_replace_def)
qed

lemma quoted_text_doubled:
  "\<not> prefix [quote_char] rest \<Longrightarrow>
     quoted_text False (doubled quote_char v @ quote_char # rest) = length (doubled quote_char v) + 1"
  by (induction v) (auto simp: doubled_def)

lemma quoted_name_doubled:
  "\<not> prefix [CHR 0x22] rest \<Longrightarrow> quoted_name (doubled (CHR 0x22) n @ CHR 0x22 # rest) = length (doubled (CHR 0x22) n) + 1"
  by (induction n) (auto simp: doubled_def)

lemma quote_lengths:
  "length (quote_ident n) = length (doubled (CHR 0x22) n) + 2" "length (quote_literal v) = length (doubled quote_char v) + 2"
  by (simp_all add: quote_ident_def quote_literal_def replace_doubled)

lemma stops_prefix: "stops rest \<Longrightarrow> \<not> prefix [CHR 0x22] rest \<and> \<not> prefix [quote_char] rest"
  by (cases rest) (auto simp: stops_def)

lemma scan_at_step:
  "scan_step before c rest = (n, t) \<Longrightarrow> scan_at before (c # rest) =
     (case t of Some t \<Rightarrow> [(t, length before, length before + length (take n (c # rest)))] | None \<Rightarrow> []) @
     scan_at (rev (take n (c # rest)) @ before) (drop n (c # rest))"
  by (simp add: scan_at.simps(2) Let_def)

text \<open>What the scanner does with a piece is one equation per kind of piece.\<close>

lemma scan_ident:
  assumes "\<not> prefix [CHR 0x22] rest"
  shows "scan_at before (quote_ident n @ rest) =
    (Word, length before, length before + length (quote_ident n)) # scan_at (rev (quote_ident n) @ before) rest"
proof -
  have step: "scan_step before (CHR 0x22) (doubled (CHR 0x22) n @ CHR 0x22 # rest) = (length (doubled (CHR 0x22) n) + 2, Some Word)"
    using quoted_name_doubled [OF assms, of n] by (simp add: scan_step_def)
  show ?thesis using scan_at_step [OF step] by (simp add: quote_ident_def replace_doubled)
qed

lemma scan_literal:
  assumes "\<not> prefix [quote_char] rest" "\<not> has_escapes before"
  shows "scan_at before (quote_literal v @ rest) =
    (OtherToken, length before, length before + length (quote_literal v)) # scan_at (rev (quote_literal v) @ before) rest"
proof -
  have step: "scan_step before quote_char (doubled quote_char v @ quote_char # rest) = (length (doubled quote_char v) + 2, Some OtherToken)"
    using quoted_text_doubled [OF assms(1), of v] assms(2) by (simp add: scan_step_def)
  show ?thesis using scan_at_step [OF step] by (simp add: quote_literal_def replace_doubled)
qed

lemma word_byte_plain: "is_word_byte c \<Longrightarrow> c \<notin> {CHR ''-'', CHR ''/'', quote_char, CHR 0x22, CHR ''$'', CHR '';'', CHR ''('', CHR '')''}"
  by (auto simp: is_word_byte_def is_ascii_alphanumeric_def)

lemma scan_word:
  assumes "w \<noteq> []" "\<forall>c\<in>set w. is_word_byte c" "stops rest"
  shows "scan_at before (w @ rest) = (Word, length before, length before + length w) # scan_at (rev w @ before) rest"
proof -
  obtain c v where w: "w = c # v" using assms(1) by (cases w) auto
  have "takeWhile is_word_byte (w @ rest) = w"
    using assms(2,3) by (cases rest) (auto simp: stops_def takeWhile_append2)
  then have "scan_step before c (v @ rest) = (length w, Some Word)"
    using word_byte_plain [of c] assms(2) by (auto simp: scan_step_def w)
  from scan_at_step [OF this] show ?thesis by (simp add: w)
qed

lemma scan_white: "is_ascii_whitespace c \<Longrightarrow> scan_at before (c # rest) = scan_at (c # before) rest"
proof -
  assume c: "is_ascii_whitespace c"
  then have "\<not> is_word_byte c" "c \<notin> {CHR ''-'', CHR ''/'', quote_char, CHR 0x22, CHR ''$'', CHR '';'', CHR ''('', CHR '')''}"
    by (auto simp: is_ascii_whitespace_def is_word_byte_def is_ascii_alphanumeric_def)
  with c have "scan_step before c rest = (1, None)" by (simp add: scan_step_def)
  from scan_at_step [OF this] show ?thesis by simp
qed

lemma scan_sign:
  "c \<in> set ''=,.:'' \<Longrightarrow> scan_at before (c # rest) = (OtherToken, length before, Suc (length before)) # scan_at (c # before) rest"
  "scan_at before (CHR '';'' # rest) = (Semicolon, length before, Suc (length before)) # scan_at (CHR '';'' # before) rest"
proof -
  have step: "scan_step before (CHR ''='') rest = (1, Some OtherToken)" "scan_step before (CHR '','') rest = (1, Some OtherToken)"
    "scan_step before (CHR ''.'') rest = (1, Some OtherToken)" "scan_step before (CHR '':'') rest = (1, Some OtherToken)"
    "scan_step before (CHR '';'') rest = (1, Some Semicolon)"
    by (simp_all add: scan_step_def is_word_byte_def is_ascii_alphanumeric_def is_ascii_whitespace_def)
  show "c \<in> set ''=,.:'' \<Longrightarrow> scan_at before (c # rest) = (OtherToken, length before, Suc (length before)) # scan_at (c # before) rest"
    using step(1-4) [THEN scan_at_step] by auto
  show "scan_at before (CHR '';'' # rest) = (Semicolon, length before, Suc (length before)) # scan_at (CHR '';'' # before) rest"
    using step(5) [THEN scan_at_step] by simp
qed

section \<open>Pieces that scan alone as they do in a text\<close>

definition shift :: "nat \<Rightarrow> spanned \<Rightarrow> spanned" where
  "shift k = (\<lambda>(t, a, b). (t, a + k, b + k))"

lemma shift_0 [simp]: "shift 0 = id"
  by (auto simp: shift_def fun_eq_iff)

lemma shift_shift [simp]: "shift j (shift k x) = shift (k + j) x"
  by (cases x) (simp add: shift_def)

lemma fst_shift [simp]: "fst (shift k x) = fst x"
  by (cases x) (simp add: shift_def)

text \<open>Blank space stands before.\<close>

definition calm :: "string \<Rightarrow> bool" where
  "calm before = (case before of [] \<Rightarrow> True | c # _ \<Rightarrow> is_ascii_whitespace c)"

lemma calm_escapes: "calm before \<Longrightarrow> \<not> has_escapes before"
  by (cases before) (auto simp: calm_def is_ascii_whitespace_def)

definition free :: "string \<Rightarrow> bool" where
  "free s = (\<forall>before rest. scan_at before (s @ rest) = map (shift (length before)) (scan s) @ scan_at (rev s @ before) rest)"

definition passes :: "string \<Rightarrow> bool" where
  "passes s = (\<forall>before rest. calm before \<longrightarrow> stops rest \<longrightarrow>
     scan_at before (s @ rest) = map (shift (length before)) (scan s) @ scan_at (rev s @ before) rest)"

lemma freeD: "free s \<Longrightarrow> scan_at before (s @ rest) = map (shift (length before)) (scan s) @ scan_at (rev s @ before) rest"
  by (simp add: free_def)

lemma passesD:
  "passes s \<Longrightarrow> calm before \<Longrightarrow> stops rest \<Longrightarrow>
     scan_at before (s @ rest) = map (shift (length before)) (scan s) @ scan_at (rev s @ before) rest"
  by (simp add: passes_def)

lemma free_passes: "free s \<Longrightarrow> passes s"
  by (simp add: free_def passes_def)

lemma scan_append_free: "free s \<Longrightarrow> scan (s @ u) = scan s @ scan_at (rev s) u"
  using freeD [of s "[]" u] by (simp add: scan_def)

lemma free_append:
  assumes "free s" "free u"
  shows "free (s @ u)"
  unfolding free_def
proof (intro allI)
  fix before rest
  have "scan (s @ u) = scan s @ map (shift (length s)) (scan u)"
    using scan_append_free [OF assms(1), of u] freeD [OF assms(2), of "rev s" "[]"] by simp
  then show "scan_at before ((s @ u) @ rest) = map (shift (length before)) (scan (s @ u)) @ scan_at (rev (s @ u) @ before) rest"
    using freeD [OF assms(1), of before "u @ rest"] freeD [OF assms(2), of "rev s @ before" rest] by (simp add: add.commute)
qed

lemma free_piece:
  assumes "\<And>before rest. scan_at before (s @ rest) = map (shift (length before)) ts @ scan_at (rev s @ before) rest"
  shows "free s \<and> scan s = ts"
  using assms [of "[]" "[]"] assms by (simp add: free_def scan_def)

lemma passes_piece:
  assumes "\<And>before rest. calm before \<Longrightarrow> stops rest \<Longrightarrow>
    scan_at before (s @ rest) = map (shift (length before)) ts @ scan_at (rev s @ before) rest"
  shows "passes s \<and> scan s = ts"
  using assms [of "[]" "[]"] assms by (simp add: passes_def scan_def calm_def stops_def)

lemma free_white: "is_ascii_whitespace c \<Longrightarrow> free [c] \<and> scan [c] = []"
  by (rule free_piece) (simp add: scan_white)

lemma free_sign: "c \<in> set ''=,.:'' \<Longrightarrow> free [c] \<and> scan [c] = [(OtherToken, 0, 1)]"
  by (rule free_piece) (simp add: scan_sign(1) shift_def)

lemma free_word:
  assumes "w \<noteq> []" "\<forall>c\<in>set w. is_word_byte c" "is_ascii_whitespace c"
  shows "free (w @ [c]) \<and> scan (w @ [c]) = [(Word, 0, length w)]"
proof (rule free_piece)
  fix before rest
  have "stops (c # rest)" using assms(3)
    by (auto simp: stops_def is_ascii_whitespace_def is_word_byte_def is_ascii_alphanumeric_def)
  then show "scan_at before ((w @ [c]) @ rest) = map (shift (length before)) [(Word, 0, length w)] @ scan_at (rev (w @ [c]) @ before) rest"
    using scan_word [OF assms(1,2), of "c # rest" before] scan_white [OF assms(3)] by (simp add: shift_def)
qed

lemma passes_word:
  assumes "w \<noteq> []" "\<forall>c\<in>set w. is_word_byte c"
  shows "passes w \<and> scan w = [(Word, 0, length w)]"
  by (rule passes_piece) (simp add: scan_word [OF assms] shift_def)

lemma passes_ident: "passes (quote_ident n) \<and> scan (quote_ident n) = [(Word, 0, length (quote_ident n))]"
  by (rule passes_piece) (simp add: scan_ident stops_prefix shift_def)

lemma passes_literal: "passes (quote_literal v) \<and> scan (quote_literal v) = [(OtherToken, 0, length (quote_literal v))]"
  by (rule passes_piece) (simp add: scan_literal stops_prefix calm_escapes shift_def)

text \<open>A gap between two pieces starts with a byte that ends the one and ends with blank space.\<close>

definition gap :: "string \<Rightarrow> bool" where
  "gap g = (g \<noteq> [] \<and> free g \<and> stops g \<and> calm (rev g))"

lemma calm_append: "calm b \<Longrightarrow> b \<noteq> [] \<Longrightarrow> calm (b @ before)"
  by (cases b) (auto simp: calm_def)

lemma stops_append: "stops s \<Longrightarrow> s \<noteq> [] \<Longrightarrow> stops (s @ rest)"
  by (cases s) (auto simp: stops_def)

lemma passes_gap:
  assumes s: "passes s" and g: "gap g" and u: "passes u"
  shows "passes (s @ g @ u) \<and>
    scan (s @ g @ u) = scan s @ map (shift (length s)) (scan g) @ map (shift (length s + length g)) (scan u)"
proof (rule passes_piece)
  fix before rest assume b: "calm before" and r: "stops rest"
  have g': "stops (g @ u @ rest)" "calm (rev g @ rev s @ before)" "free g"
    using g calm_append [of "rev g"] by (simp_all add: gap_def stops_append)
  show "scan_at before ((s @ g @ u) @ rest) =
      map (shift (length before)) (scan s @ map (shift (length s)) (scan g) @ map (shift (length s + length g)) (scan u)) @
      scan_at (rev (s @ g @ u) @ before) rest"
    using passesD [OF s b g'(1)] freeD [OF g'(3), of "rev s @ before" "u @ rest"] passesD [OF u g'(2) r] by (simp add: ac_simps)
qed

lemma passes_after:
  assumes g: "free g" "g \<noteq> []" "calm (rev g)" and u: "passes u"
  shows "passes (g @ u) \<and> scan (g @ u) = scan g @ map (shift (length g)) (scan u)"
proof (rule passes_piece)
  fix before rest assume "calm before" and r: "stops rest"
  have "calm (rev g @ before)" using g calm_append [of "rev g"] by simp
  from passesD [OF u this r] freeD [OF g(1), of before "u @ rest"]
  show "scan_at before ((g @ u) @ rest) =
      map (shift (length before)) (scan g @ map (shift (length g)) (scan u)) @ scan_at (rev (g @ u) @ before) rest"
    by (simp add: ac_simps)
qed

lemma split_classified: "s \<in> set (split source) \<Longrightarrow> (st_kind s, st_first_keyword s) = classify (slice_of source (st_range s))"
proof -
  have "\<forall>s\<in>set (split_tokens source current ts). (st_kind s, st_first_keyword s) = classify (slice_of source (st_range s))" for current ts
    by (induction source current ts rule: split_tokens.induct) (auto simp: finish_def Let_def case_prod_beta split: option.splits)
  then show "s \<in> set (split source) \<Longrightarrow> (st_kind s, st_first_keyword s) = classify (slice_of source (st_range s))"
    by (simp add: split_def)
qed

lemma split_in_order: "in_order 0 (map st_range (split source)) (length source)"
  using split_tokens_ranges [of 0 "scan source" "length source" None source] scan_at_in_order [of "[]" source]
  by (simp add: scan_def split_def)

lemma split_bounds: "s \<in> set (split source) \<Longrightarrow> fst (st_range s) < snd (st_range s) \<and> snd (st_range s) \<le> length source"
  using in_order_bounds [OF split_in_order, of "fst (st_range s)" "snd (st_range s)" source] by force

section \<open>The property of statements\<close>

text \<open>C25. The tokens and the statements of a source lie one after the other within it, every token but a semicolon is in
  a statement and no semicolon is, and each statement has the kind and the first keyword of its own text.\<close>

theorem split_covers:
  "in_order 0 (map snd (scan source)) (length source) \<and> in_order 0 (map st_range (split source)) (length source) \<and>
   (\<forall>(t, span)\<in>set (scan source). t \<noteq> Semicolon \<longleftrightarrow> covered (split source) span) \<and>
   (\<forall>s\<in>set (split source). (st_kind s, st_first_keyword s) = classify (slice_of source (st_range s)))"
proof -
  have tokens: "in_order 0 (map snd (scan source)) (length source)"
    using scan_at_in_order [of "[]" source] by (simp add: scan_def)
  with split_tokens_ranges [OF tokens, of None source] split_classified [of _ source] show ?thesis by (simp add: split_def)
qed

theorem split_covers_witness:
  "map st_kind (split ''select 1; delete from t -- ; all'') = [Read, Write True] \<and>
   covered (split ''select 1; delete from t -- ; all'') (10, 16)"
proof -
  have "(Word, 10, 16) \<in> set (scan ''select 1; delete from t -- ; all'')" by code_simp
  then have "covered (split ''select 1; delete from t -- ; all'') (10, 16)"
    using split_covers [of "''select 1; delete from t -- ; all''"] by blast
  moreover have "map st_kind (split ''select 1; delete from t -- ; all'') = [Read, Write True]" by code_simp
  ultimately show ?thesis by simp
qed

end
