(* ===== verification/Edits.thy ===== *)
theory Edits
  imports Statements
begin

text \<open>
  The edits of cells in the grid (\<open>crates/database_client/src/edits.rs\<close>): \<open>row_updates\<close> turns the edited cells of a page into
  one UPDATE statement per row and \<open>preview\<close> puts them into one transaction. The texts of the errors are
  values of a datatype. The lemmas show, whatever names and values the table has, that every update is scanned
  as one statement with a condition, and which rows are updated.
\<close>

section \<open>Updates of rows\<close>

type_synonym pending_edits = "((nat \<times> nat) \<times> string option) list"

type_synonym changes = "(nat \<times> string option) list"

type_synonym page = "string option list list"

datatype edit_error = NoPrimaryKey | CellGone nat nat | UnknownColumn nat

record row_update =
  ru_row :: nat
  ru_sql :: string

definition literal :: "string option \<Rightarrow> string" where
  "literal value = (case value of Some value \<Rightarrow> quote_literal value | None \<Rightarrow> ''null'')"

text \<open>\<open>collect::<Result<Vec<_>, String>>\<close>.\<close>

fun collect_all :: "('a \<Rightarrow> 'e + 'b) \<Rightarrow> 'a list \<Rightarrow> 'e + 'b list" where
  "collect_all f [] = Inr []"
| "collect_all f (x # xs) = (case f x of
     Inl e \<Rightarrow> Inl e
   | Inr y \<Rightarrow> (case collect_all f xs of Inl e \<Rightarrow> Inl e | Inr ys \<Rightarrow> Inr (y # ys)))"

fun group_edits :: "page \<Rightarrow> pending_edits \<Rightarrow> (nat, changes) btree \<Rightarrow> edit_error + (nat, changes) btree" where
  "group_edits rows [] by_row = Inr by_row"
| "group_edits rows (((row, column), value) # edits) by_row =
     (case Option.bind (nth_opt rows row) (\<lambda>values. nth_opt values column) of
        None \<Rightarrow> Inl (CellGone row column)
      | Some old \<Rightarrow> group_edits rows edits
          (if old \<noteq> value
           then bt_insert row ((case bt_get by_row row of Some cs \<Rightarrow> cs | None \<Rightarrow> []) @ [(column, value)]) by_row
           else by_row))"

definition column_name :: "string list \<Rightarrow> nat \<Rightarrow> edit_error + string" where
  "column_name column_names column = (case nth_opt column_names column of
     Some name \<Rightarrow> Inr (quote_ident name)
   | None \<Rightarrow> Inl (UnknownColumn column))"

definition comparing :: "string list \<Rightarrow> string \<Rightarrow> nat \<Rightarrow> string option \<Rightarrow> edit_error + string" where
  "comparing column_names relation column value = (case column_name column_names column of
     Inl e \<Rightarrow> Inl e
   | Inr name \<Rightarrow> Inr (name @ relation @ literal value))"

definition cell :: "string option list \<Rightarrow> nat \<Rightarrow> string option" where
  "cell values column = (case nth_opt values column of Some value \<Rightarrow> value | None \<Rightarrow> None)"

definition equals_sign :: string where
  "equals_sign = '' = ''"

definition same_text :: string where
  "same_text = ''::text is not distinct from ''"

definition set_keyword :: string where
  "set_keyword = [newline] @ ''   set ''"

definition where_keyword :: string where
  "where_keyword = [newline] @ '' where ''"

definition and_keyword :: string where
  "and_keyword = [newline] @ ''   and ''"

definition comma :: string where
  "comma = '','' @ [newline] @ ''       ''"

definition row_update_of ::
  "string \<Rightarrow> string list \<Rightarrow> nat list \<Rightarrow> page \<Rightarrow> nat \<times> changes \<Rightarrow> edit_error + row_update" where
  "row_update_of target column_names primary_key rows = (\<lambda>(row, changes).
     let values = rows ! row in
     case collect_all (\<lambda>(column, value). comparing column_names equals_sign column value) changes of
       Inl e \<Rightarrow> Inl e
     | Inr assignments \<Rightarrow>
     (case collect_all (\<lambda>column. comparing column_names equals_sign column (cell values column)) primary_key of
       Inl e \<Rightarrow> Inl e
     | Inr keys \<Rightarrow>
     (case collect_all (\<lambda>(column, _). comparing column_names same_text column (cell values column)) changes of
       Inl e \<Rightarrow> Inl e
     | Inr olds \<Rightarrow> Inr \<lparr>ru_row = row,
         ru_sql = ''update '' @ target @ set_keyword @ str_join comma assignments @
           where_keyword @ str_join and_keyword (keys @ olds)\<rparr>)))"

definition row_updates ::
  "string \<Rightarrow> string \<Rightarrow> string list \<Rightarrow> nat list \<Rightarrow> page \<Rightarrow> pending_edits \<Rightarrow> edit_error + row_update list" where
  "row_updates schema table column_names primary_key rows edits =
     (if primary_key = [] then Inl NoPrimaryKey
      else case group_edits rows edits [] of
        Inl e \<Rightarrow> Inl e
      | Inr by_row \<Rightarrow> collect_all (row_update_of (qualified_name schema table) column_names primary_key rows) by_row)"

fun push_updates :: "string \<Rightarrow> row_update list \<Rightarrow> string" where
  "push_updates script [] = script"
| "push_updates script (update # updates) = push_updates (script @ ru_sql update @ '';'' @ [newline]) updates"

definition preview :: "row_update list \<Rightarrow> string" where
  "preview updates = push_updates (''begin;'' @ [newline]) updates @ ''commit;'' @ [newline]"

section \<open>Every update is one statement\<close>

definition plain :: "spanned list \<Rightarrow> bool" where
  "plain ts = (\<forall>t\<in>set ts. fst t = Word \<or> fst t = OtherToken)"

lemma plain_simps [simp]:
  "plain []" "plain (t # ts) \<longleftrightarrow> (fst t = Word \<or> fst t = OtherToken) \<and> plain ts"
  "plain (ts @ us) \<longleftrightarrow> plain ts \<and> plain us" "plain (map (shift k) ts) \<longleftrightarrow> plain ts"
  by (auto simp: plain_def)

text \<open>A clause passes, consists of words and other tokens, and begins and ends with one.\<close>

definition tight :: "string \<Rightarrow> bool" where
  "tight s = (scan s \<noteq> [] \<and> fst (snd (hd (scan s))) = 0 \<and> snd (snd (last (scan s))) = length s)"

definition clause :: "string \<Rightarrow> bool" where
  "clause s = (passes s \<and> plain (scan s) \<and> tight s)"

lemma snd_shift [simp]: "snd (shift k x) = (fst (snd x) + k, snd (snd x) + k)"
  by (cases x) (simp add: shift_def)

lemma clause_gap:
  assumes "clause s" "gap g" "plain (scan g)" "clause u"
  shows "clause (s @ g @ u)"
  using assms passes_gap [of s g u] by (simp add: clause_def tight_def last_map)

lemma clause_join:
  assumes "gap g" "plain (scan g)"
  shows "xs \<noteq> [] \<Longrightarrow> \<forall>x\<in>set xs. clause x \<Longrightarrow> clause (str_join g xs)"
proof (induction xs)
  case (Cons x xs)
  then show ?case using assms by (cases xs) (auto intro: clause_gap)
qed simp

lemma clause_literal: "clause (literal v)"
  using passes_word [of "''null''"] passes_literal
  by (cases v) (auto simp: clause_def tight_def literal_def is_word_byte_def is_ascii_alphanumeric_def)

lemma clause_ident: "clause (quote_ident n)"
  using passes_ident by (simp add: clause_def tight_def)

lemmas byte_defs = is_word_byte_def is_ascii_alphanumeric_def is_ascii_whitespace_def

lemma free_words:
  "free ''text ''" "free ''is ''" "free ''not ''" "free ''distinct ''" "free ''from ''" "free ''set ''" "free ''where ''" "free ''and ''" "free ''update ''"
  using free_word [of "''text''" "CHR '' ''"] free_word [of "''is''" "CHR '' ''"] free_word [of "''not''" "CHR '' ''"]
    free_word [of "''distinct''" "CHR '' ''"] free_word [of "''from''" "CHR '' ''"] free_word [of "''set''" "CHR '' ''"]
    free_word [of "''where''" "CHR '' ''"] free_word [of "''and''" "CHR '' ''"] free_word [of "''update''" "CHR '' ''"]
  by (simp_all add: byte_defs)

lemma free_blanks: "\<forall>c\<in>set s. is_ascii_whitespace c \<Longrightarrow> s \<noteq> [] \<Longrightarrow> free s"
proof (induction s)
  case (Cons c s)
  then show ?case using free_append [of "[c]" s] free_white [of c] by (cases s) auto
qed simp

lemma gaps:
  "gap equals_sign" "gap same_text" "gap set_keyword" "gap where_keyword" "gap and_keyword" "gap comma"
proof -
  have sign: "free ''=''" "free '',''" "free '':''" using free_sign by simp_all
  have blank: "free '' ''" "free ([newline] @ ''   '')" "free ([newline] @ '' '')" "free ([newline] @ ''       '')"
    by (rule free_blanks; simp add: byte_defs)+
  show "gap equals_sign" using free_append [OF blank(1) free_append [OF sign(1) blank(1)]]
    by (simp add: gap_def equals_sign_def stops_def calm_def byte_defs)
  show "gap same_text"
    using free_append [OF sign(3) free_append [OF sign(3) free_append [OF free_words(1) free_append [OF free_words(2)
      free_append [OF free_words(3) free_append [OF free_words(4,5)]]]]]]
    by (simp add: gap_def same_text_def stops_def calm_def byte_defs)
  show "gap set_keyword" using free_append [OF blank(2) free_words(6)]
    by (simp add: gap_def set_keyword_def stops_def calm_def byte_defs)
  show "gap where_keyword" using free_append [OF blank(3) free_words(7)]
    by (simp add: gap_def where_keyword_def stops_def calm_def byte_defs)
  show "gap and_keyword" using free_append [OF blank(2) free_words(8)]
    by (simp add: gap_def and_keyword_def stops_def calm_def byte_defs)
  show "gap comma" using free_append [OF sign(2) blank(4)]
    by (simp add: gap_def comma_def stops_def calm_def byte_defs)
qed

lemma plain_gaps:
  "plain (scan equals_sign)" "plain (scan same_text)" "plain (scan set_keyword)" "plain (scan and_keyword)" "plain (scan comma)"
  by code_simp+

lemma where_gap: "scan where_keyword = [(Word, 2, 7)]"
  by code_simp

lemma clause_target: "clause (qualified_name schema table)"
proof -
  have dot: "free ''.'' \<and> scan ''.'' = [(OtherToken, 0, 1)]" using free_sign by simp
  have "passes (quote_ident schema @ ''.'' @ quote_ident table) \<and> scan (quote_ident schema @ ''.'' @ quote_ident table) =
    scan (quote_ident schema) @ [(OtherToken, length (quote_ident schema), Suc (length (quote_ident schema)))] @
    [(Word, Suc (length (quote_ident schema)), Suc (length (quote_ident schema)) + length (quote_ident table))]"
    by (rule passes_piece) (simp add: scan_ident stops_prefix scan_sign(1) passes_ident shift_def)
  then show ?thesis using passes_ident by (simp add: clause_def tight_def qualified_name_def)
qed

lemma clause_comparing: "comparing names g column value = Inr s \<Longrightarrow> g = equals_sign \<or> g = same_text \<Longrightarrow> clause s"
  using clause_gap [OF clause_ident _ _ clause_literal] gaps(1,2) plain_gaps(1,2)
  by (auto simp: comparing_def column_name_def split: option.splits)

lemma collect_all_set: "collect_all f xs = Inr ys \<Longrightarrow> length ys = length xs \<and> (\<forall>y\<in>set ys. \<exists>x\<in>set xs. f x = Inr y)"
  by (induction xs arbitrary: ys) (auto split: sum.splits)

lemma split_plain:
  "plain ts \<Longrightarrow> ts \<noteq> [] \<Longrightarrow> split_tokens source current (ts @ us) =
     split_tokens source (Some (case current of None \<Rightarrow> fst (snd (hd ts)) | Some (p, _) \<Rightarrow> p, snd (snd (last ts)))) us"
proof (induction ts arbitrary: current)
  case (Cons x ts)
  obtain t a b where x: "x = (t, a, b)" by (cases x)
  have t: "t \<noteq> Semicolon" using Cons.prems x by auto
  show ?case
  proof (cases "ts = []")
    case True
    with x t show ?thesis by (auto simp: extend_range_def split: option.splits)
  next
    case False
    with Cons x t show ?thesis by (auto simp: extend_range_def split: option.splits)
  qed
qed simp

lemma split_clause:
  assumes "clause s"
  shows "split s = [\<lparr>st_range = (0, length s), st_kind = fst (classify s), st_first_keyword = snd (classify s)\<rparr>]"
  using split_plain [of "scan s" s None "[]"] assms
  by (simp add: split_def clause_def tight_def finish_def slice_of_def case_prod_beta Let_def)

lemma words_of_plain:
  "plain ts \<Longrightarrow> words_of source d ts = map (\<lambda>(t, span). (d, map ascii_lower (slice_of source span))) (filter (\<lambda>t. fst t = Word) ts)"
proof (induction ts)
  case (Cons x ts)
  obtain t a b where x: "x = (t, a, b)" by (cases x)
  with Cons show ?case by (cases t) auto
qed simp

definition update_text :: "string \<Rightarrow> string \<Rightarrow> string \<Rightarrow> string" where
  "update_text target assignments conditions =
     ''update '' @ target @ set_keyword @ assignments @ where_keyword @ conditions"

lemma slice_middle: "slice_of (a @ w @ b) (length a, length a + length w) = w"
  by (simp add: slice_of_def)

lemma update_text_clause:
  assumes "clause target" "clause assignments" "clause conditions"
  shows "clause (update_text target assignments conditions) \<and>
    classify (update_text target assignments conditions) = (Write False, Some ''update'')"
proof -
  let ?front = "target @ set_keyword @ assignments" and ?s = "update_text target assignments conditions"
  have front: "clause ?front" using clause_gap [OF assms(1) gaps(3) plain_gaps(3) assms(2)] .
  let ?body = "?front @ where_keyword @ conditions"
  have wc: "plain (scan where_keyword)" by (simp add: where_gap)
  have body: "clause ?body" using clause_gap [OF front gaps(4) wc assms(3)] .
  have sbody: "scan ?body = scan ?front @ map (shift (length ?front)) [(Word, 2, 7)] @ map (shift (length ?front + length where_keyword)) (scan conditions)"
    using passes_gap [of ?front where_keyword conditions] front gaps(4) assms(3) by (simp add: clause_def where_gap)
  have s: "?s = ''update '' @ ?body" by (simp add: update_text_def)
  have u: "scan ''update '' = [(Word, 0, 6)]" by code_simp
  have c: "passes ?s" "scan ?s = (Word, 0, 6) # map (shift 7) (scan ?body)"
    using passes_after [OF free_words(9), of ?body] body by (simp_all add: s u calm_def byte_defs clause_def eval_nat_numeral)
  have cl: "clause ?s" using c body by (simp add: clause_def tight_def last_map s)
  let ?p = "7 + length ?front + 2"
  have "(Word, ?p, ?p + 5) \<in> set (scan ?s)" unfolding c(2) sbody by (auto simp: shift_def)
  moreover have "slice_of ?s (?p, ?p + 5) = ''where''"
    using slice_middle [of "''update '' @ ?front @ [newline] @ '' ''" "''where''" "'' '' @ conditions"]
    by (simp add: s where_keyword_def add.assoc eval_nat_numeral)
  moreover have "map ascii_lower ''where'' = ''where''" by code_simp
  ultimately have wh: "(0, ''where'') \<in> set (words_of ?s 0 (scan ?s))"
    using cl by (force simp: words_of_plain clause_def image_iff)
  have "slice_of ?s (0, 6) = ''update''" by (simp add: slice_of_def s)
  moreover have "map ascii_lower ''update'' = ''update''" by code_simp
  ultimately obtain ws where ws: "words_of ?s 0 (scan ?s) = (0, ''update'') # ws" unfolding c(2) by simp
  have "\<exists>w\<in>set ((0, ''update'') # ws). w = (0, ''where'')" using wh ws by simp
  then have "kind_of ((0, ''update'') # ws) = Write False" by (simp add: kind_of_def Let_def)
  with cl ws show ?thesis by (simp add: classify_def Let_def)
qed

lemma row_update_of_clause:
  assumes "row_update_of (qualified_name schema table) names key rows (row, changes) = Inr u" "key \<noteq> []" "changes \<noteq> []"
  shows "ru_row u = row \<and> clause (ru_sql u) \<and> classify (ru_sql u) = (Write False, Some ''update'')"
proof -
  let ?loaded = "rows ! row"
  obtain as ks os where u: "collect_all (\<lambda>(column, value). comparing names equals_sign column value) changes = Inr as"
      "collect_all (\<lambda>column. comparing names equals_sign column (cell ?loaded column)) key = Inr ks"
      "collect_all (\<lambda>(column, _). comparing names same_text column (cell ?loaded column)) changes = Inr os"
      "u = \<lparr>ru_row = row, ru_sql = update_text (qualified_name schema table) (str_join comma as) (str_join and_keyword (ks @ os))\<rparr>"
    using assms(1) by (auto simp: row_update_of_def update_text_def Let_def split: sum.splits)
  have "as \<noteq> [] \<and> (\<forall>s\<in>set as. clause s)" "ks \<noteq> [] \<and> (\<forall>s\<in>set ks. clause s)" "\<forall>s\<in>set os. clause s"
    using collect_all_set [OF u(1)] collect_all_set [OF u(2)] collect_all_set [OF u(3)] assms(2,3)
    by (force dest: clause_comparing)+
  then have "clause (str_join comma as)" "clause (str_join and_keyword (ks @ os))"
    by (auto intro!: clause_join gaps plain_gaps)
  with update_text_clause [OF clause_target] u(4) show ?thesis by simp
qed

section \<open>Which rows are updated\<close>

text \<open>The edits of a page that change a cell, by row.\<close>

definition changed :: "page \<Rightarrow> pending_edits \<Rightarrow> nat \<Rightarrow> changes" where
  "changed rows edits row = map (\<lambda>((_, column), value). (column, value))
     (filter (\<lambda>((r, column), value). r = row \<and> rows ! r ! column \<noteq> value) edits)"

definition in_page :: "page \<Rightarrow> pending_edits \<Rightarrow> bool" where
  "in_page rows edits = (\<forall>((row, column), _)\<in>set edits. row < length rows \<and> column < length (rows ! row))"

lemma in_page_Cons:
  "in_page rows (((row, column), value) # edits) \<longleftrightarrow> row < length rows \<and> column < length (rows ! row) \<and> in_page rows edits"
  by (simp add: in_page_def)

lemma group_edits_ok:
  assumes "bt_wf acc"
  shows "(\<exists>e. group_edits rows edits acc = Inl e) \<longleftrightarrow> \<not> in_page rows edits"
    "group_edits rows edits acc = Inr by_row \<Longrightarrow> bt_wf by_row \<and> (\<forall>row. bt_get by_row row =
       (let cs = (case bt_get acc row of Some cs \<Rightarrow> cs | None \<Rightarrow> []) @ changed rows edits row in
        if bt_get acc row = None \<and> changed rows edits row = [] then None else Some cs))"
proof -
  show "(\<exists>e. group_edits rows edits acc = Inl e) \<longleftrightarrow> \<not> in_page rows edits"
    by (induction rows edits acc rule: group_edits.induct)
      (auto simp: in_page_Cons nth_opt_def in_page_def split: option.splits Option.bind_splits if_splits)
  show "group_edits rows edits acc = Inr by_row \<Longrightarrow> bt_wf by_row \<and> (\<forall>row. bt_get by_row row =
       (let cs = (case bt_get acc row of Some cs \<Rightarrow> cs | None \<Rightarrow> []) @ changed rows edits row in
        if bt_get acc row = None \<and> changed rows edits row = [] then None else Some cs))"
    using assms
  proof (induction rows edits acc rule: group_edits.induct)
    case (1 rows acc)
    then show ?case by (auto simp: changed_def split: option.splits)
  next
    case (2 rows row column v edits acc)
    then show ?case
      by (auto simp: changed_def nth_opt_def bt_get_insert bt_wf_insert Let_def split: option.splits Option.bind_splits if_splits)
  qed
qed

lemma collect_all_Inr: "collect_all f xs = Inr ys \<Longrightarrow> list_all2 (\<lambda>x y. f x = Inr y) xs ys"
  by (induction xs arbitrary: ys) (auto split: sum.splits)

lemma collect_all_Inl: "(\<exists>e. collect_all f xs = Inl e) \<longleftrightarrow> (\<exists>x\<in>set xs. \<exists>e. f x = Inl e)"
  by (induction xs) (auto split: sum.splits)

lemma collect_all_map: "\<forall>x\<in>set xs. f x = Inr (g x) \<Longrightarrow> collect_all f xs = Inr (map g xs)"
  by (induction xs) auto

lemma comparing_eq:
  "comparing names g column v =
     (if column < length names then Inr (quote_ident (names ! column) @ g @ literal v) else Inl (UnknownColumn column))"
  by (simp add: comparing_def column_name_def nth_opt_def)

lemma comparing_Inl: "(\<exists>e. comparing names g column v = Inl e) \<longleftrightarrow> length names \<le> column"
  by (simp add: comparing_eq not_less)

definition update_sql :: "string \<Rightarrow> string list \<Rightarrow> nat list \<Rightarrow> string option list \<Rightarrow> changes \<Rightarrow> string" where
  "update_sql target names key values changes = update_text target
     (str_join comma (map (\<lambda>(c, v). quote_ident (names ! c) @ '' = '' @ literal v) changes))
     (str_join and_keyword (map (\<lambda>c. quote_ident (names ! c) @ '' = '' @ literal (cell values c)) key @
        map (\<lambda>(c, _). quote_ident (names ! c) @ ''::text is not distinct from '' @ literal (cell values c)) changes))"

lemma row_update_of_eq:
  "(\<exists>e. row_update_of target names key rows (row, changes) = Inl e) \<longleftrightarrow> (\<exists>c\<in>set key \<union> fst ` set changes. length names \<le> c)"
  "row_update_of target names key rows (row, changes) = Inr u \<Longrightarrow> u = \<lparr>ru_row = row, ru_sql = update_sql target names key (rows ! row) changes\<rparr>"
proof -
  let ?loaded = "rows ! row"
  let ?sets = "collect_all (\<lambda>(column, v). comparing names equals_sign column v) changes"
  let ?keys = "collect_all (\<lambda>column. comparing names equals_sign column (cell ?loaded column)) key"
  let ?olds = "collect_all (\<lambda>(column, _). comparing names same_text column (cell ?loaded column)) changes"
  have bad: "(\<exists>e. ?sets = Inl e) \<longleftrightarrow> (\<exists>c\<in>fst ` set changes. length names \<le> c)"
    "(\<exists>e. ?keys = Inl e) \<longleftrightarrow> (\<exists>c\<in>set key. length names \<le> c)"
    "(\<exists>e. ?olds = Inl e) \<longleftrightarrow> (\<exists>c\<in>fst ` set changes. length names \<le> c)"
    unfolding collect_all_Inl by (simp_all add: comparing_Inl case_prod_beta)
  show ex: "(\<exists>e. row_update_of target names key rows (row, changes) = Inl e) \<longleftrightarrow> (\<exists>c\<in>set key \<union> fst ` set changes. length names \<le> c)"
    using bad by (cases ?sets; cases ?keys; cases ?olds) (auto simp: row_update_of_def Let_def)
  show "u = \<lparr>ru_row = row, ru_sql = update_sql target names key (rows ! row) changes\<rparr>"
    if u: "row_update_of target names key rows (row, changes) = Inr u"
  proof -
    have "\<not> (\<exists>c\<in>set key \<union> fst ` set changes. length names \<le> c)" using ex u by force
    then have known: "\<forall>c\<in>set key. c < length names" "\<forall>x\<in>set changes. fst x < length names" by (auto simp: not_le)
    have "?sets = Inr (map (\<lambda>(c, v). quote_ident (names ! c) @ equals_sign @ literal v) changes)"
      "?keys = Inr (map (\<lambda>c. quote_ident (names ! c) @ equals_sign @ literal (cell ?loaded c)) key)"
      "?olds = Inr (map (\<lambda>(c, _). quote_ident (names ! c) @ same_text @ literal (cell ?loaded c)) changes)"
      by (rule collect_all_map; use known in \<open>auto simp: comparing_eq\<close>)+
    with u show ?thesis by (simp add: row_update_of_def Let_def update_sql_def update_text_def equals_sign_def same_text_def case_prod_beta)
  qed
qed

section \<open>The script\<close>

lemma push_updates_eq: "push_updates script us = script @ concat (map (\<lambda>u. ru_sql u @ '';'' @ [newline]) us)"
  by (induction us arbitrary: script) simp_all

lemma preview_eq: "preview us = concat (map (\<lambda>s. s @ '';'' @ [newline]) (''begin'' # map ru_sql us @ [''commit'']))"
  by (simp add: preview_def push_updates_eq comp_def)

lemma split_script:
  assumes "\<forall>s\<in>set ss. clause s" "calm before" "source = rev before @ concat (map (\<lambda>s. s @ '';'' @ [newline]) ss)"
  shows "map (slice_of source \<circ> st_range) (split_tokens source None (scan_at before (concat (map (\<lambda>s. s @ '';'' @ [newline]) ss)))) = ss \<and>
    map st_kind (split_tokens source None (scan_at before (concat (map (\<lambda>s. s @ '';'' @ [newline]) ss)))) = map (fst \<circ> classify) ss"
  using assms
proof (induction ss arbitrary: before)
  case Nil
  then show ?case by (simp add: finish_def)
next
  case (Cons s ss)
  let ?more = "concat (map (\<lambda>s. s @ '';'' @ [newline]) ss)" and ?before = "newline # CHR '';'' # rev s @ before"
  have s: "passes s" "plain (scan s)" "tight s" using Cons.prems(1) by (auto simp: clause_def)
  have "stops (CHR '';'' # newline # ?more)" by (simp add: stops_def byte_defs)
  from passesD [OF s(1) Cons.prems(2) this]
  have "scan_at before (s @ CHR '';'' # newline # ?more) = map (shift (length before)) (scan s) @
      (Semicolon, length before + length s, Suc (length before + length s)) # scan_at ?before ?more"
    by (simp add: scan_sign(2) scan_white byte_defs add.commute)
  then have "split_tokens source None (scan_at before (s @ CHR '';'' # newline # ?more)) =
      finish source (Some (length before, length before + length s)) @ split_tokens source None (scan_at ?before ?more)"
    using split_plain [of "map (shift (length before)) (scan s)" source None] s(2,3)
    by (simp add: tight_def hd_map last_map add.commute)
  moreover have "slice_of source (length before, length before + length s) = s"
    using slice_middle [of "rev before" s] Cons.prems(3) by simp
  moreover have "calm ?before" by (simp add: calm_def byte_defs)
  moreover have "source = rev ?before @ ?more" using Cons.prems(3) by simp
  ultimately show ?case using Cons.IH [of ?before] Cons.prems(1) by (simp add: finish_def Let_def case_prod_beta)
qed

section \<open>The properties of edits\<close>

lemma list_all2_right: "list_all2 P xs ys \<Longrightarrow> y \<in> set ys \<Longrightarrow> \<exists>x\<in>set xs. P x y"
  by (induction rule: list_all2_induct) auto

lemma changes_of_rows:
  assumes "row_updates schema table names key rows edits = Inr us"
  shows "key \<noteq> [] \<and> in_page rows edits \<and> (\<exists>by_row. bt_wf by_row \<and>
    (\<forall>row cs. bt_get by_row row = Some cs \<longleftrightarrow> cs = changed rows edits row \<and> cs \<noteq> []) \<and>
    list_all2 (\<lambda>x u. row_update_of (qualified_name schema table) names key rows x = Inr u) by_row us)"
proof -
  have wf: "bt_wf []" by (simp add: bt_wf_def)
  obtain by_row where b: "group_edits rows edits [] = Inr by_row" "key \<noteq> []"
      "collect_all (row_update_of (qualified_name schema table) names key rows) by_row = Inr us"
    using assms by (auto simp: row_updates_def split: if_splits sum.splits)
  have "in_page rows edits" using group_edits_ok(1) [OF wf, of rows edits] b(1) by auto
  moreover have "bt_wf by_row" "\<forall>row cs. bt_get by_row row = Some cs \<longleftrightarrow> cs = changed rows edits row \<and> cs \<noteq> []"
    using group_edits_ok(2) [OF wf b(1)] by (auto simp: bt_get_def Let_def)
  ultimately show ?thesis using b(2) collect_all_Inr [OF b(3)] by blast
qed

lemma updates_clauses:
  assumes "row_updates schema table names key rows edits = Inr us" "u \<in> set us"
  shows "clause (ru_sql u) \<and> classify (ru_sql u) = (Write False, Some ''update'')"
proof -
  obtain by_row where b: "key \<noteq> []" "bt_wf by_row" "\<forall>row cs. bt_get by_row row = Some cs \<longleftrightarrow> cs = changed rows edits row \<and> cs \<noteq> []"
      "list_all2 (\<lambda>x u. row_update_of (qualified_name schema table) names key rows x = Inr u) by_row us"
    using changes_of_rows [OF assms(1)] by blast
  obtain row cs where x: "(row, cs) \<in> set by_row" "row_update_of (qualified_name schema table) names key rows (row, cs) = Inr u"
    using list_all2_right [OF b(4) assms(2)] by auto
  have "bt_get by_row row = Some cs" using x(1) b(2) by (simp add: bt_get_def bt_wf_def strict_sorted_iff)
  with b(3) have "cs \<noteq> []" by blast
  with row_update_of_clause [OF x(2) b(1)] show ?thesis by simp
qed

lemma row_updates_spec:
  "((\<exists>e. row_updates schema table names key rows edits = Inl e) \<longleftrightarrow>
      key = [] \<or> \<not> in_page rows edits \<or>
      (\<exists>row. changed rows edits row \<noteq> [] \<and> (\<exists>c\<in>set key \<union> fst ` set (changed rows edits row). length names \<le> c))) \<and>
   (\<forall>us. row_updates schema table names key rows edits = Inr us \<longrightarrow>
      sorted_wrt (<) (map ru_row us) \<and> set (map ru_row us) = {row. changed rows edits row \<noteq> []} \<and>
      (\<forall>u\<in>set us. ru_sql u = update_sql (qualified_name schema table) names key (rows ! ru_row u) (changed rows edits (ru_row u))))"
proof (intro conjI allI impI)
  have wf: "bt_wf []" by (simp add: bt_wf_def)
  show "(\<exists>e. row_updates schema table names key rows edits = Inl e) \<longleftrightarrow>
      key = [] \<or> \<not> in_page rows edits \<or>
      (\<exists>row. changed rows edits row \<noteq> [] \<and> (\<exists>c\<in>set key \<union> fst ` set (changed rows edits row). length names \<le> c))"
  proof (cases "key = [] \<or> \<not> in_page rows edits")
    case True
    then show ?thesis using group_edits_ok(1) [OF wf, of rows edits] by (auto simp: row_updates_def)
  next
    case False
    then obtain by_row where b: "group_edits rows edits [] = Inr by_row"
      using group_edits_ok(1) [OF wf, of rows edits] by (cases "group_edits rows edits []") auto
    have get: "bt_wf by_row" "bt_get by_row row = Some cs \<longleftrightarrow> cs = changed rows edits row \<and> cs \<noteq> []" for row cs
      using group_edits_ok(2) [OF wf b] by (auto simp: bt_get_def Let_def)
    have "(row, cs) \<in> set by_row \<longleftrightarrow> bt_get by_row row = Some cs" for row cs
      using get(1) by (simp add: bt_get_def bt_wf_def strict_sorted_iff)
    then have "(\<exists>x\<in>set by_row. \<exists>e. row_update_of (qualified_name schema table) names key rows x = Inl e) \<longleftrightarrow>
        (\<exists>row. changed rows edits row \<noteq> [] \<and> (\<exists>c\<in>set key \<union> fst ` set (changed rows edits row). length names \<le> c))"
      by (auto simp: Bex_def row_update_of_eq(1) get(2))
    with False b show ?thesis by (simp add: row_updates_def collect_all_Inl)
  qed
next
  fix us assume us: "row_updates schema table names key rows edits = Inr us"
  obtain by_row where b: "bt_wf by_row" "\<forall>row cs. bt_get by_row row = Some cs \<longleftrightarrow> cs = changed rows edits row \<and> cs \<noteq> []"
      "list_all2 (\<lambda>x u. row_update_of (qualified_name schema table) names key rows x = Inr u) by_row us"
    using changes_of_rows [OF us] by blast
  have keys: "map ru_row us = map fst by_row"
    using b(3) by (induction rule: list_all2_induct) (auto dest: row_update_of_eq(2))
  show "sorted_wrt (<) (map ru_row us)" using b(1) by (simp add: keys bt_wf_def)
  show "set (map ru_row us) = {row. changed rows edits row \<noteq> []}"
  proof -
    have "row \<in> fst ` set by_row \<longleftrightarrow> (\<exists>cs. bt_get by_row row = Some cs)" for row
      by (metis bt_get_def map_of_eq_None_iff not_Some_eq)
    then show ?thesis unfolding keys using b(2) by auto
  qed
  show "\<forall>u\<in>set us. ru_sql u = update_sql (qualified_name schema table) names key (rows ! ru_row u) (changed rows edits (ru_row u))"
  proof
    fix u assume u: "u \<in> set us"
    obtain row cs where x: "(row, cs) \<in> set by_row" "row_update_of (qualified_name schema table) names key rows (row, cs) = Inr u"
      using list_all2_right [OF b(3) u] by auto
    have "bt_get by_row row = Some cs" using x(1) b(1) by (simp add: bt_get_def bt_wf_def strict_sorted_iff)
    then have "cs = changed rows edits row" using b(2) by blast
    with row_update_of_eq(2) [OF x(2)]
    show "ru_sql u = update_sql (qualified_name schema table) names key (rows ! ru_row u) (changed rows edits (ru_row u))" by simp
  qed
qed

lemma preview_splits:
  assumes "row_updates schema table names key rows edits = Inr us"
  shows "map (slice_of (preview us) \<circ> st_range) (split (preview us)) = ''begin'' # map ru_sql us @ [''commit''] \<and>
    map st_kind (split (preview us)) = Transaction Begin # replicate (length us) (Write False) @ [Transaction Commit]"
proof -
  let ?ss = "''begin'' # map ru_sql us @ [''commit'']"
  have words: "clause ''begin''" "clause ''commit''"
    using passes_word [of "''begin''"] passes_word [of "''commit''"] by (simp_all add: clause_def tight_def byte_defs)
  have "\<forall>s\<in>set ?ss. clause s" using updates_clauses [OF assms] words by auto
  moreover have "calm []" by (simp add: calm_def)
  ultimately have "map (slice_of (preview us) \<circ> st_range) (split (preview us)) = ?ss \<and> map st_kind (split (preview us)) = map (fst \<circ> classify) ?ss"
    using split_script [of ?ss "[]" "preview us"] by (simp add: split_def scan_def preview_eq)
  moreover have "classify ''begin'' = (Transaction Begin, Some ''begin'')" "classify ''commit'' = (Transaction Commit, Some ''commit'')"
    by code_simp+
  moreover have "map (fst \<circ> classify) (map ru_sql us) = replicate (length us) (Write False)"
    using updates_clauses [OF assms] by (induction us) auto
  ultimately show ?thesis by simp
qed

text \<open>C12. Whatever the schema, the table, the columns and the values are, each update that is generated for a row
  is one SQL statement that spans the whole text, and the statement is an UPDATE with a WHERE, so it never counts as one that writes
  every row; and the script shown for them splits into the begin of a transaction, these updates and the commit: no name or value ends
  its quotes.\<close>

theorem row_updates_statements:
  assumes "row_updates schema table names key rows edits = Inr us"
  shows "(\<forall>u\<in>set us. split (ru_sql u) =
      [\<lparr>st_range = (0, length (ru_sql u)), st_kind = Write False, st_first_keyword = Some ''update''\<rparr>]) \<and>
    map (slice_of (preview us) \<circ> st_range) (split (preview us)) = ''begin'' # map ru_sql us @ [''commit''] \<and>
    map st_kind (split (preview us)) = Transaction Begin # replicate (length us) (Write False) @ [Transaction Commit]"
  using updates_clauses [OF assms] preview_splits [OF assms] by (simp add: split_clause)

theorem row_updates_statements_witness:
  "\<exists>u. row_updates ''public'' ''a;b'' [''id'', [CHR 0x22] @ ''; drop table x''] [0] [[Some ''1'', None]]
      [((0, 1), Some ([quote_char] @ ''; delete from t''))] = Inr [u] \<and>
    split (ru_sql u) = [\<lparr>st_range = (0, length (ru_sql u)), st_kind = Write False, st_first_keyword = Some ''update''\<rparr>]"
proof -
  let ?r = "row_updates ''public'' ''a;b'' [''id'', [CHR 0x22] @ ''; drop table x''] [0] [[Some ''1'', None]]
      [((0, 1), Some ([quote_char] @ ''; delete from t''))]"
  have "case ?r of Inr [u] \<Rightarrow> True | _ \<Rightarrow> False" by code_simp
  then obtain u where u: "?r = Inr [u]" by (auto split: sum.splits list.splits)
  from row_updates_statements [OF u] u show ?thesis by simp
qed

text \<open>C24. The edits of a page give one update per row with a changed cell, in the order of the rows: it assigns the changed
  cells and requires the loaded key and the loaded values of those cells. There is an error instead exactly when
  the table has no primary key, a cell is not in the page, or a column that is needed has no name.\<close>

theorem row_updates_rows:
  "((\<exists>e. row_updates schema table names key rows edits = Inl e) \<longleftrightarrow>
      key = [] \<or> \<not> in_page rows edits \<or>
      (\<exists>row. changed rows edits row \<noteq> [] \<and> (\<exists>c\<in>set key \<union> fst ` set (changed rows edits row). length names \<le> c))) \<and>
   (\<forall>us. row_updates schema table names key rows edits = Inr us \<longrightarrow>
      sorted_wrt (<) (map ru_row us) \<and> set (map ru_row us) = {row. changed rows edits row \<noteq> []} \<and>
      (\<forall>u\<in>set us. ru_sql u = ''update '' @ qualified_name schema table @ ([newline] @ ''   set '') @
         str_join ('','' @ [newline] @ ''       '')
           (map (\<lambda>(c, v). quote_ident (names ! c) @ '' = '' @ literal v) (changed rows edits (ru_row u))) @
         ([newline] @ '' where '') @ str_join ([newline] @ ''   and '')
           (map (\<lambda>c. quote_ident (names ! c) @ '' = '' @ literal (cell (rows ! ru_row u) c)) key @
            map (\<lambda>(c, _). quote_ident (names ! c) @ ''::text is not distinct from '' @ literal (cell (rows ! ru_row u) c))
              (changed rows edits (ru_row u)))))"
  using row_updates_spec [of schema table names key rows edits, unfolded update_sql_def update_text_def set_keyword_def
    where_keyword_def and_keyword_def comma_def] .

theorem row_updates_rows_witness:
  "\<exists>us. row_updates ''public'' ''t'' [''id'', ''n''] [0] [[Some ''1'', None], [Some ''2'', Some ''x'']] [((0, 1), None), ((1, 1), Some ''y'')] = Inr us \<and>
     set (map ru_row us) = {row. changed [[Some ''1'', None], [Some ''2'', Some ''x'']] [((0, 1), None), ((1, 1), Some ''y'')] row \<noteq> []} \<and>
     map ru_row us = [1]"
proof -
  let ?r = "row_updates ''public'' ''t'' [''id'', ''n''] [0] [[Some ''1'', None], [Some ''2'', Some ''x'']] [((0, 1), None), ((1, 1), Some ''y'')]"
  have "case ?r of Inr us \<Rightarrow> map ru_row us = [1] | _ \<Rightarrow> False" by code_simp
  then obtain us where us: "?r = Inr us" "map ru_row us = [1]" by (auto split: sum.splits)
  from row_updates_rows [of "''public''" "''t''" "[''id'', ''n'']" "[0]" "[[Some ''1'', None], [Some ''2'', Some ''x'']]" "[((0, 1), None), ((1, 1), Some ''y'')]",
      THEN conjunct2, THEN spec, THEN mp, OF us(1)]
  have "set (map ru_row us) = {row. changed [[Some ''1'', None], [Some ''2'', Some ''x'']] [((0, 1), None), ((1, 1), Some ''y'')] row \<noteq> []}" by (elim conjE)
  then show ?thesis by (intro exI [of _ us] conjI us)
qed

end
