(* ===== verification/QueryRun.thy ===== *)
theory QueryRun
  imports Statements
begin

text \<open>
  Running SQL: the plan of a run in the SQL editor, the question before a risky run and the execution of a plan
  (\<open>crates/database_client/src/query_view.rs\<close>), and the guard of the query tool of agents (\<open>agent_toolkit.rs\<close>). The session with the server is
  a parameter: an operation on a state of its own that runs a text, with or without a cursor, and gives an outcome or an
  error. The lemmas show which plans run without a question, and how the view's idea of an open transaction goes wrong.
\<close>

section \<open>The plan of a run\<close>

datatype run_scope = StatementScope | Script | Explain

record planned =
  pl_sql :: string
  pl_statement :: statement
  pl_prefix_chars :: nat

definition plan_statement :: "run_scope \<Rightarrow> string \<Rightarrow> statement \<Rightarrow> planned" where
  "plan_statement scope source s =
     (let sql = slice_of source (st_range s) in
      if scope = Explain then
        let explain = (if st_kind s = Read then ''explain (analyze, buffers) '' else ''explain '');
            (kind, first_keyword) = classify (explain @ sql) in
        \<lparr>pl_sql = explain @ sql, pl_statement = s\<lparr>st_kind := kind, st_first_keyword := first_keyword\<rparr>,
         pl_prefix_chars = length explain\<rparr>
      else \<lparr>pl_sql = sql, pl_statement = s, pl_prefix_chars = 0\<rparr>)"

definition plan :: "run_scope \<Rightarrow> string \<Rightarrow> nat \<Rightarrow> nat \<Rightarrow> planned list" where
  "plan scope source start stop =
     (let targets =
        (if start \<noteq> stop \<and> scope \<noteq> Script
         then map (\<lambda>s. s\<lparr>st_range := (fst (st_range s) + start, snd (st_range s) + start)\<rparr>)
           (split (slice_of source (min start (length source), min stop (length source))))
         else let all_statements = split source in
           case scope of
             Script \<Rightarrow> all_statements
           | _ \<Rightarrow> (case statement_at all_statements start of Some s \<Rightarrow> [s] | None \<Rightarrow> [])) in
      map (plan_statement scope source) targets)"

datatype run_answer = AlreadyRunning | NothingToRun | RunPlan "planned list" | AskFirst "planned list" string risk nat

fun first_risk :: "saved_connection \<Rightarrow> planned list \<Rightarrow> (string \<times> risk \<times> nat) option" where
  "first_risk connection [] = None"
| "first_risk connection (p # ps) = (case risk_of (st_kind (pl_statement p)) connection of
     Some r \<Rightarrow> Some (pl_sql p, r, fst (st_range (pl_statement p)))
   | None \<Rightarrow> first_risk connection ps)"

definition run :: "bool \<Rightarrow> saved_connection \<Rightarrow> run_scope \<Rightarrow> string \<Rightarrow> nat \<Rightarrow> nat \<Rightarrow> run_answer" where
  "run is_running connection scope source start stop =
     (let ps = plan scope source start stop in
      if is_running then AlreadyRunning
      else if ps = [] then NothingToRun
      else case first_risk connection ps of
        None \<Rightarrow> RunPlan ps
      | Some (sql, r, offset) \<Rightarrow> AskFirst ps sql r offset)"

section \<open>The query tool of agents\<close>

datatype query_refusal = NotOneStatement nat | NotARead

definition agent_query :: "string \<Rightarrow> query_refusal + string" where
  "agent_query sql = (case split sql of
     [s] \<Rightarrow> if is_cursor_safe (st_kind s) (st_first_keyword s) then Inr (slice_of sql (st_range s)) else Inl NotARead
   | ss \<Rightarrow> Inl (NotOneStatement (length ss)))"

section \<open>Executing a plan\<close>

type_synonym ('s, 'e, 'o) session = "bool \<Rightarrow> string \<Rightarrow> 's \<Rightarrow> ('e + 'o) \<times> 's"

record ('e, 'o) executed =
  ex_outcomes :: "(planned \<times> 'o) list"
  ex_error :: "(planned \<times> 'e) option"
  ex_in_transaction :: bool

definition transaction_after :: "statement_kind \<Rightarrow> bool \<Rightarrow> bool" where
  "transaction_after kind in_transaction = (case kind of
     Transaction Begin \<Rightarrow> True
   | Transaction Commit \<Rightarrow> False
   | Transaction Rollback \<Rightarrow> False
   | _ \<Rightarrow> in_transaction)"

fun execute_loop ::
  "('s, 'e, 'o) session \<Rightarrow> planned list \<Rightarrow> bool \<Rightarrow> (planned \<times> 'o) list \<Rightarrow> 's \<Rightarrow> ('e, 'o) executed \<times> 's" where
  "execute_loop session [] in_transaction outcomes s =
     (\<lparr>ex_outcomes = outcomes, ex_error = None, ex_in_transaction = in_transaction\<rparr>, s)"
| "execute_loop session (p # ps) in_transaction outcomes s =
     (let cursor = (in_transaction \<and> is_cursor_safe (st_kind (pl_statement p)) (st_first_keyword (pl_statement p))) in
      case session cursor (pl_sql p) s of
        (Inr outcome, s) \<Rightarrow>
          execute_loop session ps (transaction_after (st_kind (pl_statement p)) in_transaction) (outcomes @ [(p, outcome)]) s
      | (Inl error, s) \<Rightarrow> (\<lparr>ex_outcomes = outcomes, ex_error = Some (p, error), ex_in_transaction = in_transaction\<rparr>, s))"

definition begin_planned :: planned where
  "begin_planned = (let (kind, first_keyword) = classify ''begin'' in
     \<lparr>pl_sql = ''begin'', pl_statement = \<lparr>st_range = (0, 0), st_kind = kind, st_first_keyword = first_keyword\<rparr>, pl_prefix_chars = 0\<rparr>)"

definition execute_plan :: "('s, 'e, 'o) session \<Rightarrow> planned list \<Rightarrow> bool \<Rightarrow> bool \<Rightarrow> 's \<Rightarrow> ('e, 'o) executed \<times> 's" where
  "execute_plan session ps begin_first in_transaction s =
     (if begin_first \<and> \<not> in_transaction then
        (case session False ''begin'' s of
           (Inr outcome, s) \<Rightarrow> execute_loop session ps True [(begin_planned, outcome)] s
         | (Inl error, s) \<Rightarrow> (\<lparr>ex_outcomes = [], ex_error = Some (begin_planned, error), ex_in_transaction = in_transaction\<rparr>, s))
      else execute_loop session ps in_transaction [] s)"

section \<open>What runs is what was classified\<close>

lemma slice_slice: "q \<le> length (slice_of source (a, b)) \<Longrightarrow> slice_of (slice_of source (a, b)) (p, q) = slice_of source (p + a, q + a)"
  by (auto simp: slice_of_def drop_take add.commute)

lemma slice_clamped: "slice_of source (min start (length source), min stop (length source)) = slice_of source (start, stop)"
  by (auto simp: slice_of_def min_def)

lemma find_in_set: "find P xs = Some x \<Longrightarrow> x \<in> set xs"
  by (induction xs) (auto split: if_splits)

lemma plan_classified:
  assumes "p \<in> set (plan scope source start stop)"
  shows "classify (pl_sql p) = (st_kind (pl_statement p), st_first_keyword (pl_statement p))"
proof -
  have kinds: "classify (slice_of t (st_range s)) = (st_kind s, st_first_keyword s)" "snd (st_range s) \<le> length t" if "s \<in> set (split t)" for t s
    using split_classified [OF that] split_bounds [OF that] by auto
  have at: "s \<in> set ss" if "statement_at ss n = Some s" for ss n s
    using that by (auto simp: statement_at_def dest: find_in_set split: option.splits list.splits)
  have single: "classify (pl_sql (plan_statement scope source s)) =
      (st_kind (pl_statement (plan_statement scope source s)), st_first_keyword (pl_statement (plan_statement scope source s)))"
    if "scope \<noteq> Explain \<Longrightarrow> classify (slice_of source (st_range s)) = (st_kind s, st_first_keyword s)" for s
    using that by (auto simp: plan_statement_def Let_def split: prod.splits)
  show ?thesis
  proof (cases "start \<noteq> stop \<and> scope \<noteq> Script")
    case True
    then obtain s where s: "s \<in> set (split (slice_of source (start, stop)))"
        "p = plan_statement scope source (s\<lparr>st_range := (fst (st_range s) + start, snd (st_range s) + start)\<rparr>)"
      using assms by (auto simp: plan_def Let_def slice_clamped)
    then show ?thesis using kinds [OF s(1)] slice_slice [of "snd (st_range s)" source start stop "fst (st_range s)"]
      by (auto intro: single)
  next
    case False
    then obtain s where s: "s \<in> set (split source)" "p = plan_statement scope source s"
      using assms by (auto simp: plan_def Let_def split: run_scope.splits option.splits if_splits dest: at [OF sym])
    then show ?thesis using kinds(1) [OF s(1)] by (auto intro: single)
  qed
qed

lemma first_risk_None: "first_risk connection ps = None \<longleftrightarrow> (\<forall>p\<in>set ps. risk_of (st_kind (pl_statement p)) connection = None)"
  by (induction ps) (auto split: option.splits)

lemma risk_of_None:
  "risk_of kind connection = None \<longleftrightarrow>
     (cn_environment connection = Prod \<longrightarrow> kind \<noteq> Ddl \<and> (\<forall>b. kind \<noteq> Write b)) \<and>
     (cn_confirm_writes connection \<longrightarrow> kind \<noteq> Ddl \<and> kind \<noteq> Write True)"
  by (cases kind) (auto simp: risk_of_def Let_def)

lemma with_reads:
  assumes "kind_of words = Read" "words = (d, ''with'') # ws"
  shows "\<forall>w\<in>set words. snd w \<notin> set write_verbs"
  using assms by (auto simp: kind_of_def Let_def split: if_splits)



text \<open>Rolling back to a savepoint, which leaves the transaction open on the server, makes the view take the transaction for ended:
  whatever the session, when the text succeeds and the server's transaction stays open, the view notes that there is none.\<close>

lemma savepoint_rollback:
  assumes "\<forall>cursor s. is_open s \<longrightarrow> (\<exists>outcome s'. session cursor ''rollback to savepoint a'' s = (Inr outcome, s') \<and> is_open s')"
    "is_open s" "execute_plan session (plan Script ''rollback to savepoint a'' 0 0) False True s = (result, s')"
  shows "is_open s' \<and> ex_error result = None \<and> \<not> ex_in_transaction result"
proof -
  obtain p where p: "plan Script ''rollback to savepoint a'' 0 0 = [p]" "pl_sql p = ''rollback to savepoint a''" "st_kind (pl_statement p) = Transaction Rollback"
  proof -
    have "case plan Script ''rollback to savepoint a'' 0 0 of [p] \<Rightarrow> pl_sql p = ''rollback to savepoint a'' \<and>
      st_kind (pl_statement p) = Transaction Rollback | _ \<Rightarrow> False" by code_simp
    then show thesis using that by (auto split: list.splits)
  qed
  obtain outcome s1 where s1: "session False ''rollback to savepoint a'' s = (Inr outcome, s1)" "is_open s1" using assms(1,2) by blast
  have "is_cursor_safe (Transaction Rollback) k = False" for k by (simp add: is_cursor_safe_def)
  with assms(3) p s1 show ?thesis
    by (auto simp: execute_plan_def transaction_after_def Let_def)
qed

lemma savepoint_rollback_witness:
  "let (result, s') = execute_plan (\<lambda>cursor t s. (Inr t :: unit + string, s)) (plan Script ''rollback to savepoint a'' 0 0) False True True in
   s' \<and> \<not> ex_in_transaction result"
proof -
  obtain result s' where r: "execute_plan (\<lambda>cursor t s. (Inr t :: unit + string, s)) (plan Script ''rollback to savepoint a'' 0 0) False True True =
    (result, s')" by force
  from savepoint_rollback [OF _ _ r, of "\<lambda>s. s"] r show ?thesis by simp
qed


end
