(* ===== verification/Cookies.thy ===== *)
theory Cookies
  imports Prelude
begin

text \<open>
  The cookies of an API collection (\<open>crates/api_client/src/cookies.rs\<close>): the parts of a URL, reading a \<open>Set-Cookie\<close> header, the jar
  with \<open>store\<close> and \<open>header_for\<close>. Dates are parsed by a library, which is the parameter \<open>parse_date\<close>; times are 64-bit signed
  numbers, given as integers with the wrap-around of their addition written out. The lemmas show where the cookies of a jar come
  from and where they go, that the jar holds one cookie per name, domain and path, and two ways in which it fails.
\<close>

section \<open>Text\<close>

definition split_once :: "char \<Rightarrow> string \<Rightarrow> (string \<times> string) option" where
  "split_once c s = map_option (\<lambda>i. (take i s, drop (i + 1) s)) (position (\<lambda>d. d = c) s)"

fun str_split :: "char \<Rightarrow> string \<Rightarrow> string list" where
  "str_split c [] = [[]]"
| "str_split c (d # s) = (case str_split c s of
     piece # pieces \<Rightarrow> if d = c then [] # piece # pieces else (d # piece) # pieces
   | [] \<Rightarrow> [])"

definition to_ascii_lowercase :: "string \<Rightarrow> string" where
  "to_ascii_lowercase s = map ascii_lower s"

definition eq_ignore_ascii_case :: "string \<Rightarrow> string \<Rightarrow> bool" where
  "eq_ignore_ascii_case s t = (to_ascii_lowercase s = to_ascii_lowercase t)"

definition trim_matches :: "char \<Rightarrow> string \<Rightarrow> string" where
  "trim_matches c s = rev (dropWhile (\<lambda>d. d = c) (rev (dropWhile (\<lambda>d. d = c) s)))"

text \<open>\<open>i64\<close>: the sum wraps around, as it does in a release build; \<open>str::parse\<close> takes a sign and digits within the range.\<close>

definition i64_add :: "int \<Rightarrow> int \<Rightarrow> int" where
  "i64_add a b = (a + b + 2 ^ 63) mod 2 ^ 64 - 2 ^ 63"

definition parse_i64 :: "string \<Rightarrow> int option" where
  "parse_i64 s = (case s of
     [] \<Rightarrow> None
   | c # rest \<Rightarrow>
       let digits = (if c = CHR ''-'' \<or> c = CHR ''+'' then rest else s) in
       if digits = [] then None
       else case parse_digits 0 digits of
         None \<Rightarrow> None
       | Some n \<Rightarrow> let value = (if c = CHR ''-'' then - int n else int n) in
           if - (2 ^ 63) \<le> value \<and> value < 2 ^ 63 then Some value else None)"

section \<open>Cookies\<close>

record cookie =
  ck_name :: string
  ck_value :: string
  ck_domain :: string
  ck_host_only :: bool
  ck_path :: string
  ck_expires_at :: "int option"
  ck_secure :: bool
  ck_http_only :: bool

definition is_expired :: "cookie \<Rightarrow> int \<Rightarrow> bool" where
  "is_expired c now = (case ck_expires_at c of Some expires_at \<Rightarrow> expires_at \<le> now | None \<Rightarrow> False)"

definition path_matches :: "string \<Rightarrow> string \<Rightarrow> bool" where
  "path_matches cookie_path request_path =
     (request_path = cookie_path \<or>
      prefix cookie_path request_path \<and>
        (suffix ''/'' cookie_path \<or> prefix ''/'' (drop (length cookie_path) request_path)))"

definition in_domain :: "string \<Rightarrow> string \<Rightarrow> bool" where
  "in_domain domain host = (host = domain \<or> suffix (''.'' @ domain) host)"

definition cookie_matches :: "cookie \<Rightarrow> string \<Rightarrow> string \<Rightarrow> bool \<Rightarrow> int \<Rightarrow> bool" where
  "cookie_matches c host path is_https now =
     (if is_expired c now \<or> ck_secure c \<and> \<not> is_https then False
      else (if ck_host_only c then host = ck_domain c else in_domain (ck_domain c) host) \<and> path_matches (ck_path c) path)"

definition url_parts :: "string \<Rightarrow> (string \<times> string \<times> bool) option" where
  "url_parts url = (case str_find ''://'' url of
     None \<Rightarrow> None
   | Some i \<Rightarrow>
       let scheme = take i url; rest = drop (i + 3) url;
           authority = takeWhile (\<lambda>c. c \<notin> set ''/?#'') rest;
           host = to_ascii_lowercase (takeWhile (\<lambda>c. c \<noteq> CHR '':'') (rev (takeWhile (\<lambda>c. c \<noteq> CHR ''@'') (rev authority))));
           path = takeWhile (\<lambda>c. c \<notin> set ''?#'') (dropWhile (\<lambda>c. c \<notin> set ''/?#'') rest) in
       Some (host, if path = [] then ''/'' else path, eq_ignore_ascii_case scheme ''https''))"

definition default_path :: "string \<Rightarrow> string" where
  "default_path request_path = (let upto = length (dropWhile (\<lambda>c. c \<noteq> CHR ''/'') (rev request_path)) in
     if upto \<le> 1 then ''/'' else take (upto - 1) request_path)"

text \<open>One attribute of the header, \<open>None\<close> where the whole cookie is refused.\<close>

definition read_attribute ::
  "(string \<Rightarrow> int option) \<Rightarrow> string \<Rightarrow> string \<Rightarrow> cookie \<times> int option \<Rightarrow> (cookie \<times> int option) option" where
  "read_attribute parse_date host attribute = (\<lambda>(c, max_age).
     let (key, v) = (case split_once (CHR ''='') attribute of
           Some (key, v) \<Rightarrow> (trim key, trim v)
         | None \<Rightarrow> (trim attribute, []));
         name = to_ascii_lowercase key in
     if name = ''domain'' \<and> v \<noteq> [] then
       let domain = to_ascii_lowercase (dropWhile (\<lambda>d. d = CHR ''.'') v) in
       if \<not> in_domain domain host then None else Some (c\<lparr>ck_domain := domain, ck_host_only := False\<rparr>, max_age)
     else if name = ''path'' \<and> prefix ''/'' v then Some (c\<lparr>ck_path := v\<rparr>, max_age)
     else if name = ''max-age'' then Some (c, parse_i64 v)
     else if name = ''expires'' then
       Some (case parse_date v of Some t \<Rightarrow> c\<lparr>ck_expires_at := Some t\<rparr> | None \<Rightarrow> c, max_age)
     else if name = ''secure'' then Some (c\<lparr>ck_secure := True\<rparr>, max_age)
     else if name = ''httponly'' then Some (c\<lparr>ck_http_only := True\<rparr>, max_age)
     else Some (c, max_age))"

fun read_attributes ::
  "(string \<Rightarrow> int option) \<Rightarrow> string \<Rightarrow> string list \<Rightarrow> cookie \<times> int option \<Rightarrow> (cookie \<times> int option) option" where
  "read_attributes parse_date host [] c = Some c"
| "read_attributes parse_date host (a # as) c = Option.bind (read_attribute parse_date host a c) (read_attributes parse_date host as)"

definition parse_set_cookie :: "(string \<Rightarrow> int option) \<Rightarrow> string \<Rightarrow> string \<Rightarrow> int \<Rightarrow> cookie option" where
  "parse_set_cookie parse_date header request_url now =
     Option.bind (url_parts request_url) (\<lambda>(host, request_path, _).
     case str_split (CHR '';'') header of
       [] \<Rightarrow> None
     | first # attributes \<Rightarrow>
     Option.bind (split_once (CHR ''='') first) (\<lambda>(name, v).
     if trim name = [] then None
     else map_option (\<lambda>(c, max_age). case max_age of Some m \<Rightarrow> c\<lparr>ck_expires_at := Some (i64_add now m)\<rparr> | None \<Rightarrow> c)
       (read_attributes parse_date host attributes
         (\<lparr>ck_name = trim name, ck_value = trim_matches (CHR 0x22) (trim v), ck_domain = host, ck_host_only = True,
           ck_path = default_path request_path, ck_expires_at = None, ck_secure = False, ck_http_only = False\<rparr>, None))))"

section \<open>The jar\<close>

type_synonym cookie_jar = "cookie list"

definition same_cookie :: "cookie \<Rightarrow> cookie \<Rightarrow> bool" where
  "same_cookie c d = (ck_name c = ck_name d \<and> ck_domain c = ck_domain d \<and> ck_path c = ck_path d)"

definition put_cookie :: "int \<Rightarrow> cookie \<Rightarrow> cookie_jar \<Rightarrow> cookie_jar" where
  "put_cookie now c jar = filter (\<lambda>d. \<not> same_cookie d c) jar @ (if is_expired c now then [] else [c])"

fun store_headers ::
  "(string \<Rightarrow> int option) \<Rightarrow> (string \<times> string) list \<Rightarrow> string \<Rightarrow> int \<Rightarrow> cookie_jar \<times> cookie list \<Rightarrow> cookie_jar \<times> cookie list" where
  "store_headers parse_date [] url now (jar, set_cookies) = (jar, set_cookies)"
| "store_headers parse_date ((name, v) # headers) url now (jar, set_cookies) =
     store_headers parse_date headers url now
       (if \<not> eq_ignore_ascii_case name ''set-cookie'' then (jar, set_cookies)
        else case parse_set_cookie parse_date v url now of
          None \<Rightarrow> (jar, set_cookies)
        | Some c \<Rightarrow> (put_cookie now c jar, set_cookies @ [c]))"

definition store ::
  "(string \<Rightarrow> int option) \<Rightarrow> (string \<times> string) list \<Rightarrow> string \<Rightarrow> int \<Rightarrow> cookie_jar \<Rightarrow> cookie_jar \<times> cookie list" where
  "store parse_date headers url now jar = (case store_headers parse_date headers url now (jar, []) of
     (jar, set_cookies) \<Rightarrow> (filter (\<lambda>c. \<not> is_expired c now) jar, set_cookies))"

definition matching :: "cookie_jar \<Rightarrow> string \<times> string \<times> bool \<Rightarrow> int \<Rightarrow> cookie list" where
  "matching jar = (\<lambda>(host, path, is_https) now. sort_key (\<lambda>c. - int (utf8_len (ck_path c)))
     (filter (\<lambda>c. cookie_matches c host path is_https now) jar))"

definition header_for :: "cookie_jar \<Rightarrow> string \<Rightarrow> int \<Rightarrow> string option" where
  "header_for jar url now = Option.bind (url_parts url) (\<lambda>parts.
     let cs = matching jar parts now in
     if cs = [] then None else Some (str_join ''; '' (map (\<lambda>c. ck_name c @ ''='' @ ck_value c) cs)))"

definition store_all :: "(string \<Rightarrow> int option) \<Rightarrow> ((string \<times> string) list \<times> string \<times> int) list \<Rightarrow> cookie_jar" where
  "store_all parse_date responses = foldl (\<lambda>jar (headers, url, now). fst (store parse_date headers url now jar)) [] responses"

section \<open>Where a cookie comes from\<close>

text \<open>What a response of \<open>host\<close> may set: a cookie for exactly that host, or for a domain the host is in.\<close>

definition set_by_host :: "string \<Rightarrow> cookie \<Rightarrow> bool" where
  "set_by_host host c = (if ck_host_only c then ck_domain c = host else in_domain (ck_domain c) host)"

lemma read_attribute_host:
  assumes "read_attribute parse_date host a cm = Some cm'" and "set_by_host host (fst cm)"
  shows "set_by_host host (fst cm')"
  using assms
  by (cases cm) (auto simp: read_attribute_def set_by_host_def Let_def split: prod.splits option.splits if_splits)

lemma read_attributes_host:
  "read_attributes parse_date host as cm = Some cm' \<Longrightarrow> set_by_host host (fst cm) \<Longrightarrow> set_by_host host (fst cm')"
  by (induction as arbitrary: cm) (auto simp: bind_eq_Some_conv intro: read_attribute_host)

lemma parse_set_cookie_host:
  assumes "parse_set_cookie parse_date header url now = Some c"
  obtains host path is_https where "url_parts url = Some (host, path, is_https)" and "set_by_host host c"
proof -
  obtain host path is_https where parts: "url_parts url = Some (host, path, is_https)"
    using assms by (auto simp: parse_set_cookie_def bind_eq_Some_conv)
  obtain first as name v cm where
    r: "read_attributes parse_date host as (\<lparr>ck_name = trim name, ck_value = trim_matches (CHR 0x22) (trim v), ck_domain = host,
       ck_host_only = True, ck_path = default_path path, ck_expires_at = None, ck_secure = False, ck_http_only = False\<rparr>, None)
     = Some cm"
    and c: "c = (case cm of (c, max_age) \<Rightarrow>
       case max_age of Some m \<Rightarrow> c\<lparr>ck_expires_at := Some (i64_add now m)\<rparr> | None \<Rightarrow> c)"
    using assms parts
    by (auto simp: parse_set_cookie_def bind_eq_Some_conv split: list.splits if_splits)
  have "set_by_host host (fst cm)"
    using r by (rule read_attributes_host) (simp add: set_by_host_def)
  then have "set_by_host host c"
    by (auto simp: c set_by_host_def split: prod.split option.split)
  with parts show thesis by (rule that)
qed

section \<open>The jar as a map\<close>

text \<open>The cookies of a jar by name, domain and path.\<close>

definition cookie_key :: "cookie \<Rightarrow> string \<times> string \<times> string" where
  "cookie_key c = (ck_name c, ck_domain c, ck_path c)"

definition jar_map :: "cookie_jar \<Rightarrow> string \<times> string \<times> string \<rightharpoonup> cookie" where
  "jar_map jar = map_of (map (\<lambda>c. (cookie_key c, c)) jar)"

definition jar_wf :: "cookie_jar \<Rightarrow> bool" where
  "jar_wf jar = distinct (map cookie_key jar)"

lemma same_cookie_key: "same_cookie c d \<longleftrightarrow> cookie_key c = cookie_key d"
  by (simp add: same_cookie_def cookie_key_def)

lemma jar_wf_Nil [simp]: "jar_wf []"
  by (simp add: jar_wf_def)

lemma jar_wf_filter: "jar_wf jar \<Longrightarrow> jar_wf (filter P jar)"
  by (simp add: jar_wf_def distinct_map_filter)

lemma jar_map_Some_iff: "jar_wf jar \<Longrightarrow> jar_map jar k = Some c \<longleftrightarrow> c \<in> set jar \<and> cookie_key c = k"
  by (auto simp: jar_map_def jar_wf_def map_of_eq_Some_iff comp_def)

lemma set_jar_map: "jar_wf jar \<Longrightarrow> set jar = ran (jar_map jar)"
  by (auto simp: ran_def jar_map_Some_iff simp del: split_paired_Ex)

lemma jar_wf_put: "jar_wf jar \<Longrightarrow> jar_wf (put_cookie now c jar)"
  by (auto simp: put_cookie_def jar_wf_def same_cookie_key distinct_map_filter)

lemma set_put_cookie:
  "set (put_cookie now c jar) = {d \<in> set jar. cookie_key d \<noteq> cookie_key c} \<union> (if is_expired c now then {} else {c})"
  by (auto simp: put_cookie_def same_cookie_key)

lemma jar_map_eqI:
  "jar_wf jar \<Longrightarrow> (\<And>c. m (cookie_key c) = Some c \<longleftrightarrow> c \<in> set jar) \<Longrightarrow> (\<And>k c. m k = Some c \<Longrightarrow> cookie_key c = k) \<Longrightarrow>
     jar_map jar = m"
  by (rule ext, rename_tac k, case_tac "m k") (metis jar_map_Some_iff option.exhaust)+

lemma jar_map_put:
  assumes "jar_wf jar"
  shows "jar_map (put_cookie now c jar) = (jar_map jar)(cookie_key c := if is_expired c now then None else Some c)"
  using assms
  by (intro jar_map_eqI) (auto simp: jar_wf_put jar_map_Some_iff set_put_cookie split: if_splits)

lemma jar_map_filter:
  assumes "jar_wf jar"
  shows "jar_map (filter P jar) = (\<lambda>k. Option.bind (jar_map jar k) (\<lambda>c. if P c then Some c else None))"
  using assms
  by (intro jar_map_eqI) (auto simp: jar_wf_filter jar_map_Some_iff bind_eq_Some_conv split: if_splits)

text \<open>The abstract jar: a map from keys to cookies, in which a cookie replaces the one with its key, an expired one removes it,
  and every expired cookie is dropped at the end of a response.\<close>

definition map_set :: "int \<Rightarrow> cookie \<Rightarrow> (string \<times> string \<times> string \<rightharpoonup> cookie) \<Rightarrow> (string \<times> string \<times> string \<rightharpoonup> cookie)" where
  "map_set now c m = m(cookie_key c := if is_expired c now then None else Some c)"

definition unexpired :: "int \<Rightarrow> ('k \<rightharpoonup> cookie) \<Rightarrow> ('k \<rightharpoonup> cookie)" where
  "unexpired now m = (\<lambda>k. Option.bind (m k) (\<lambda>c. if is_expired c now then None else Some c))"

definition set_cookies_of :: "(string \<Rightarrow> int option) \<Rightarrow> (string \<times> string) list \<Rightarrow> string \<Rightarrow> int \<Rightarrow> cookie list" where
  "set_cookies_of parse_date headers url now = List.map_filter (\<lambda>(name, v).
     if eq_ignore_ascii_case name ''set-cookie'' then parse_set_cookie parse_date v url now else None) headers"

lemma set_cookies_of_Cons:
  "set_cookies_of parse_date ((name, v) # headers) url now =
     (if eq_ignore_ascii_case name ''set-cookie''
      then case parse_set_cookie parse_date v url now of None \<Rightarrow> [] | Some c \<Rightarrow> [c] else []) @
     set_cookies_of parse_date headers url now"
  by (auto simp: set_cookies_of_def List.map_filter_simps split: option.split)

lemma set_cookies_of_Nil [simp]: "set_cookies_of parse_date [] url now = []"
  by (simp add: set_cookies_of_def List.map_filter_simps)

lemma store_headers_eq:
  "store_headers parse_date headers url now (jar, cs) =
     (fold (put_cookie now) (set_cookies_of parse_date headers url now) jar, cs @ set_cookies_of parse_date headers url now)"
  by (induction headers arbitrary: jar cs) (auto simp: set_cookies_of_Cons split: option.split)

lemma store_eq:
  "store parse_date headers url now jar =
     (filter (\<lambda>c. \<not> is_expired c now) (fold (put_cookie now) (set_cookies_of parse_date headers url now) jar),
      set_cookies_of parse_date headers url now)"
  by (simp add: store_def store_headers_eq)

lemma jar_wf_puts: "jar_wf jar \<Longrightarrow> jar_wf (fold (put_cookie now) cs jar)"
  by (induction cs arbitrary: jar) (simp_all add: jar_wf_put)

lemma jar_wf_store: "jar_wf jar \<Longrightarrow> jar_wf (fst (store parse_date headers url now jar))"
  by (simp add: store_eq jar_wf_filter jar_wf_puts)

lemma jar_map_puts: "jar_wf jar \<Longrightarrow> jar_map (fold (put_cookie now) cs jar) = fold (map_set now) cs (jar_map jar)"
  by (induction cs arbitrary: jar) (simp_all add: jar_wf_put jar_map_put map_set_def)

lemma set_puts: "set (fold (put_cookie now) cs jar) \<subseteq> set jar \<union> set cs"
  by (induction cs arbitrary: jar) (force simp: set_put_cookie split: if_splits)+

text \<open>C21. \<open>store\<close> refines a map from name, domain and path to cookie: every cookie a \<open>Set-Cookie\<close> header sets replaces the one
  with the same key, in the order of the headers; a cookie that is already expired removes it; nothing expired stays.\<close>

theorem store_refines:
  assumes "jar_wf jar"
  shows "jar_wf (fst (store parse_date headers url now jar)) \<and>
    jar_map (fst (store parse_date headers url now jar)) =
      unexpired now (fold (map_set now) (set_cookies_of parse_date headers url now) (jar_map jar)) \<and>
    snd (store parse_date headers url now jar) = set_cookies_of parse_date headers url now \<and>
    (\<forall>c \<in> set (fst (store parse_date headers url now jar)). \<not> is_expired c now)"
  using assms
  by (auto simp: store_eq jar_wf_filter jar_wf_puts jar_map_filter jar_map_puts unexpired_def intro!: ext arg_cong2 [where f = Option.bind])

text \<open>The jar of a collection, after any responses.\<close>

definition came_from ::
  "(string \<Rightarrow> int option) \<Rightarrow> ((string \<times> string) list \<times> string \<times> int) list \<Rightarrow> cookie \<Rightarrow> string \<Rightarrow> bool" where
  "came_from parse_date responses c host = (\<exists>headers url now name v path is_https.
     (headers, url, now) \<in> set responses \<and> (name, v) \<in> set headers \<and>
     eq_ignore_ascii_case name ''set-cookie'' \<and> parse_set_cookie parse_date v url now = Some c \<and>
     url_parts url = Some (host, path, is_https))"

lemma store_all_wf: "jar_wf (store_all parse_date responses)"
  by (induction responses rule: rev_induct) (auto simp: store_all_def jar_wf_store)

lemma store_all_from:
  "c \<in> set (store_all parse_date responses) \<Longrightarrow>
     \<exists>(headers, url, now) \<in> set responses. c \<in> set (set_cookies_of parse_date headers url now)"
proof (induction responses rule: rev_induct)
  case (snoc r responses)
  obtain headers url now where r: "r = (headers, url, now)" by (cases r)
  have "c \<in> set (store_all parse_date responses) \<or> c \<in> set (set_cookies_of parse_date headers url now)"
    using snoc.prems set_puts [of now "set_cookies_of parse_date headers url now" "store_all parse_date responses"]
    by (auto simp: store_all_def r store_eq)
  with snoc.IH show ?case by (auto simp: r)
qed (simp add: store_all_def)

lemma store_all_host:
  assumes "c \<in> set (store_all parse_date responses)"
  shows "\<exists>host. came_from parse_date responses c host \<and> set_by_host host c"
proof -
  obtain headers url now where r: "(headers, url, now) \<in> set responses"
    and "c \<in> set (set_cookies_of parse_date headers url now)"
    using store_all_from [OF assms] by auto
  then obtain name v where h: "(name, v) \<in> set headers" "eq_ignore_ascii_case name ''set-cookie''"
    and c: "parse_set_cookie parse_date v url now = Some c"
    by (auto simp: set_cookies_of_def List.map_filter_def split: if_splits)
  obtain host path is_https where "url_parts url = Some (host, path, is_https)" "set_by_host host c"
    using c by (rule parse_set_cookie_host)
  with r h c show ?thesis unfolding came_from_def by blast
qed

lemma matching_set:
  "set (matching jar (host, path, is_https) now) = {c \<in> set jar. cookie_matches c host path is_https now}"
  by (simp add: matching_def)

lemma matching_sorted: "sorted_wrt (\<lambda>c d. utf8_len (ck_path d) \<le> utf8_len (ck_path c)) (matching jar parts now)"
proof -
  have "sorted (map (\<lambda>c. - int (utf8_len (ck_path c))) (matching jar parts now))"
    by (cases parts) (simp add: matching_def)
  then show ?thesis by (simp add: sorted_wrt_map)
qed


section \<open>Two ways in which the jar fails\<close>

lemma i64_add_wraps: "0 < now \<Longrightarrow> now < 2 ^ 63 \<Longrightarrow> i64_add now (2 ^ 63 - 1) = now - 2 ^ 63 - 1"
proof -
  assume "0 < now" "now < 2 ^ 63"
  then have "(now - 1) mod 2 ^ 64 = now - 1" by simp
  moreover have "now + (2 ^ 63 - 1) + 2 ^ 63 = now - 1 + 2 ^ 64" by simp
  ultimately show ?thesis by (simp only: i64_add_def mod_add_self2)
qed

lemma parse_i64_max: "parse_i64 ''9223372036854775807'' = Some (2 ^ 63 - 1)"
  by (simp add: parse_i64_def digit_val_def)

lemma parse_max_age:
  "parse_set_cookie parse_date ''sid=1; Max-Age=9223372036854775807'' ''https://api.test/'' now =
     Some \<lparr>ck_name = ''sid'', ck_value = ''1'', ck_domain = ''api.test'', ck_host_only = True, ck_path = ''/'',
       ck_expires_at = Some (i64_add now (2 ^ 63 - 1)), ck_secure = False, ck_http_only = False\<rparr>"
proof -
  have "url_parts ''https://api.test/'' = Some (''api.test'', ''/'', True)" by code_simp
  moreover have "to_ascii_lowercase ''Max-Age'' = ''max-age''" by code_simp
  ultimately show ?thesis
    using parse_i64_max
    by (simp add: parse_set_cookie_def read_attribute_def split_once_def trim_def trim_start_def trim_end_def is_ws_def
        trim_matches_def default_path_def Let_def)
qed

lemma parse_plain_cookie:
  "url_parts url = Some (host, ''/'', is_https) \<Longrightarrow>
     parse_set_cookie parse_date ''sid=1'' url now =
       Some \<lparr>ck_name = ''sid'', ck_value = ''1'', ck_domain = host, ck_host_only = True, ck_path = ''/'',
         ck_expires_at = None, ck_secure = False, ck_http_only = False\<rparr>"
  by (simp add: parse_set_cookie_def split_once_def trim_def trim_start_def trim_end_def is_ws_def trim_matches_def default_path_def
      Let_def)

text \<open>The longest lifetime deletes: \<open>now + max_age\<close> overflows, so a cookie whose \<open>Max-Age\<close> is the largest 64-bit number,
  which asks to be kept for ever, is taken to be expired and never stored.\<close>

lemma max_age_overflow:
  assumes "0 < now" and "now < 2 ^ 63"
  shows "fst (store parse_date [(''Set-Cookie'', ''sid=1; Max-Age=9223372036854775807'')] ''https://api.test/'' now []) = []"
proof -
  have "eq_ignore_ascii_case ''Set-Cookie'' ''set-cookie''" by code_simp
  then show ?thesis
    using assms by (simp add: store_eq set_cookies_of_Cons parse_max_age put_cookie_def is_expired_def i64_add_wraps [simplified])
qed

lemma takeWhile_rev_all: "\<forall>x \<in> set xs. P x \<Longrightarrow> rev (takeWhile P (rev xs)) = xs"
  by (simp add: takeWhile_eq_all_conv [THEN iffD2])

lemma url_parts_ipv6:
  assumes "set head \<inter> set ''/?#@:'' = {}" and "set tail \<inter> set ''/?#@'' = {}"
  shows "url_parts (''http://['' @ head @ '':'' @ tail @ '']/'') = Some (''['' @ to_ascii_lowercase head, ''/'', False)"
proof -
  let ?authority = "''['' @ head @ '':'' @ tail @ '']''"
  have find: "str_find ''://'' (''http://['' @ head @ '':'' @ tail @ '']/'') = Some 4" by simp
  have ends: "takeWhile (\<lambda>c. c \<notin> set ''/?#'') (?authority @ ''/'') = ?authority"
    "dropWhile (\<lambda>c. c \<notin> set ''/?#'') (?authority @ ''/'') = ''/''"
    using assms by (subst takeWhile_append2 dropWhile_append2; force)+
  have user: "rev (takeWhile (\<lambda>c. c \<noteq> CHR ''@'') (rev ?authority)) = ?authority"
    using assms by (intro takeWhile_rev_all) auto
  have host: "takeWhile (\<lambda>c. c \<noteq> CHR '':'') ?authority = ''['' @ head"
    using assms by (subst append_assoc [symmetric], subst takeWhile_append2) auto
  have rest: "drop (4 + 3) (''http://['' @ head @ '':'' @ tail @ '']/'') = ?authority @ ''/''" by simp
  show ?thesis
    unfolding url_parts_def find option.case Let_def rest ends user host
    by (simp add: to_ascii_lowercase_def eq_ignore_ascii_case_def ascii_lower_def)
qed

lemma same_host_sent:
  assumes "url_parts u = Some (host, ''/'', is_https)" and "url_parts w = Some (host, ''/'', is_https)"
  shows "header_for (fst (store parse_date [(''Set-Cookie'', ''sid=1'')] u now [])) w now = Some ''sid=1''"
proof -
  have "eq_ignore_ascii_case ''Set-Cookie'' ''set-cookie''" by code_simp
  with assms show ?thesis
    by (simp add: store_eq set_cookies_of_Cons parse_plain_cookie put_cookie_def is_expired_def header_for_def matching_def
        cookie_matches_def path_matches_def Let_def)
qed

text \<open>C37. Hosts that are IPv6 addresses are mixed up: \<open>url_parts\<close> cuts the authority at its first colon, which is inside the
  brackets, so addresses with the same first group are one host, and a cookie that one of them sets for itself alone goes to all
  of them.\<close>

theorem ipv6_hosts_share:
  assumes "set head \<inter> set ''/?#@:'' = {}" and "set a \<inter> set ''/?#@'' = {}" and "set b \<inter> set ''/?#@'' = {}"
  shows "header_for
      (fst (store parse_date [(''Set-Cookie'', ''sid=1'')] (''http://['' @ head @ '':'' @ a @ '']/'') now []))
      (''http://['' @ head @ '':'' @ b @ '']/'') now = Some ''sid=1''"
  by (rule same_host_sent [OF url_parts_ipv6 [OF assms(1,2)] url_parts_ipv6 [OF assms(1,3)]])

theorem ipv6_hosts_share_witness:
  "header_for (fst (store (\<lambda>_. None) [(''Set-Cookie'', ''sid=1'')] (''http://['' @ ''fe80'' @ '':'' @ '':1'' @ '']/'') 5 []))
     (''http://['' @ ''fe80'' @ '':'' @ '':2'' @ '']/'') 5 = Some ''sid=1''"
  by (rule ipv6_hosts_share) simp_all

theorem store_refines_witness:
  "jar_wf [] \<and> snd (store (\<lambda>_. None) [(''set-cookie'', ''a=1; Path=/x''), (''Set-Cookie'', ''a=2; path=/x'')] ''https://h/x'' 5 []) =
     set_cookies_of (\<lambda>_. None) [(''set-cookie'', ''a=1; Path=/x''), (''Set-Cookie'', ''a=2; path=/x'')] ''https://h/x'' 5"
  using store_refines [OF jar_wf_Nil] by simp


end
