(* ===== verification/ApiVars.thy ===== *)
theory ApiVars
  imports Cookies
begin

text \<open>
  Placeholders and JSON paths of the API client: \<open>crates/api_client/src/vars.rs\<close> (the ranges of \<open>{{name}}\<close> in a text and
  \<open>substitute\<close>) and \<open>crates/api_client/src/jsonpath.rs\<close> (\<open>parse\<close> and \<open>select\<close>). A lookup may draw fresh numbers or read the
  clock, so \<open>substitute\<close> threads the state \<open>'s\<close> that it draws from. A JSON value has the constructors of \<open>serde_json::Value\<close>;
  a number is the text it is written as, and an object is the list of its entries, in their order.

  The lemmas show that substitution is one pass from left to right that leaves alone what is not defined and reports exactly that, and
  that every place of a JSON value has a path that selects it.
\<close>

section \<open>Placeholders\<close>

definition SECRET_PREFIX :: string where
  "SECRET_PREFIX = ''secret.''"

text \<open>The end of the first placeholder that starts at or after an offset, with its start.\<close>

definition next_placeholder :: "string \<Rightarrow> nat \<Rightarrow> (nat \<times> nat) option" where
  "next_placeholder s offset = (case str_find ''{{'' (drop offset s) of
     None \<Rightarrow> None
   | Some i \<Rightarrow> let start = offset + i in
       (case str_find ''}}'' (drop (start + 2) s) of
          None \<Rightarrow> None
        | Some j \<Rightarrow> Some (start, start + 2 + j + 2)))"

lemma next_placeholder_bounds:
  assumes "next_placeholder s offset = Some (start, stop)"
  shows "offset \<le> start" "start + 4 \<le> stop" "stop \<le> length s"
  using assms
  by (auto simp: next_placeholder_def Let_def split: option.splits dest!: str_find_Some_decomp)

function ranges_from :: "string \<Rightarrow> nat \<Rightarrow> (nat \<times> nat) list" where
  "ranges_from s offset = (case next_placeholder s offset of
     None \<Rightarrow> []
   | Some (start, stop) \<Rightarrow> (start, stop) # ranges_from s stop)"
  by pat_completeness auto
termination
proof (relation "measure (\<lambda>(s, offset). length s - offset)", simp, clarsimp)
  fix s offset start stop
  assume "next_placeholder s offset = Some (start, stop)"
  from next_placeholder_bounds [OF this] show "length s - stop < length s - offset" by simp
qed

declare ranges_from.simps [simp del]

definition placeholder_ranges :: "string \<Rightarrow> (nat \<times> nat) list" where
  "placeholder_ranges s = ranges_from s 0"

definition substring :: "string \<Rightarrow> nat \<Rightarrow> nat \<Rightarrow> string" where
  "substring s i j = take (j - i) (drop i s)"

definition placeholder_name :: "string \<Rightarrow> nat \<times> nat \<Rightarrow> string" where
  "placeholder_name s = (\<lambda>(start, stop). trim (substring s (start + 2) (stop - 2)))"

definition placeholder_names :: "string \<Rightarrow> string list" where
  "placeholder_names s = map (placeholder_name s) (placeholder_ranges s)"

type_synonym 's lookup = "string \<Rightarrow> 's \<Rightarrow> string option \<times> 's"

definition note_missing :: "string list \<Rightarrow> string \<Rightarrow> string list" where
  "note_missing missing name = (if name \<in> set missing then missing else missing @ [name])"

fun substitute_ranges ::
  "string \<Rightarrow> 's lookup \<Rightarrow> (nat \<times> nat) list \<Rightarrow> nat \<Rightarrow> string \<Rightarrow> string list \<Rightarrow> 's \<Rightarrow> (string \<times> string list) \<times> 's" where
  "substitute_ranges s lookup [] last_end result missing st = ((result @ drop last_end s, missing), st)"
| "substitute_ranges s lookup ((start, stop) # ranges) last_end result missing st =
     (let result = result @ substring s last_end start; name = placeholder_name s (start, stop) in
      case lookup name st of
        (Some v, st) \<Rightarrow> substitute_ranges s lookup ranges stop (result @ v) missing st
      | (None, st) \<Rightarrow> substitute_ranges s lookup ranges stop (result @ substring s start stop) (note_missing missing name) st)"

definition substitute :: "string \<Rightarrow> 's lookup \<Rightarrow> 's \<Rightarrow> (string \<times> string list) \<times> 's" where
  "substitute s lookup st = substitute_ranges s lookup (placeholder_ranges s) 0 [] [] st"

section \<open>JSON values and paths\<close>

datatype json = JNull | JBool bool | JNumber string | JString string | JArray "json list" | JObject "(string \<times> json) list"

definition get_key :: "json \<Rightarrow> string \<Rightarrow> json option" where
  "get_key v key = (case v of JObject entries \<Rightarrow> map_of entries key | _ \<Rightarrow> None)"

definition get_index :: "json \<Rightarrow> nat \<Rightarrow> json option" where
  "get_index v i = (case v of JArray items \<Rightarrow> nth_opt items i | _ \<Rightarrow> None)"

datatype segment = Key string | Index nat

definition unquote :: "string \<Rightarrow> string \<Rightarrow> string option" where
  "unquote q s = Option.bind (strip_prefix q s) (strip_suffix q)"

text \<open>What is between brackets: a name in quotes, else an index.\<close>

definition bracket_segment :: "string \<Rightarrow> segment option" where
  "bracket_segment inside = (case unquote [CHR 0x27] inside of
     Some key \<Rightarrow> Some (Key key)
   | None \<Rightarrow> (case unquote [CHR 0x22] inside of
       Some key \<Rightarrow> Some (Key key)
     | None \<Rightarrow> map_option Index (parse_unsigned (2 ^ 64 - 1) inside)))"

function parse_segments :: "string \<Rightarrow> segment list \<Rightarrow> segment list option" where
  "parse_segments rest segments = (case rest of
     [] \<Rightarrow> Some segments
   | c # after \<Rightarrow>
       if c = CHR ''.'' then
         let key = takeWhile (\<lambda>d. d \<notin> set ''.['') after in
         if key = [] then None
         else parse_segments (drop (length key) after) (segments @ [Key key])
       else if c = CHR ''['' then
         (case position (\<lambda>d. d = CHR '']'') after of
            None \<Rightarrow> None
          | Some end_at \<Rightarrow> (case bracket_segment (trim (take end_at after)) of
              None \<Rightarrow> None
            | Some segment \<Rightarrow> parse_segments (drop (end_at + 1) after) (segments @ [segment])))
       else if segments = [] then
         let key = takeWhile (\<lambda>d. d \<notin> set ''.['') rest in
         parse_segments (drop (length key) rest) (segments @ [Key key])
       else None)"
  by pat_completeness auto
termination
  by (relation "measure (\<lambda>(rest, segments). length rest)") (auto split: if_splits)

declare parse_segments.simps [simp del]

definition parse_path :: "string \<Rightarrow> segment list option" where
  "parse_path path = (let path = trim path in
     parse_segments (case strip_prefix ''$'' path of Some rest \<Rightarrow> rest | None \<Rightarrow> path) [])"

definition is_valid :: "string \<Rightarrow> bool" where
  "is_valid path = (parse_path path \<noteq> None)"

fun select_at :: "json \<Rightarrow> segment list \<Rightarrow> json option" where
  "select_at current [] = Some current"
| "select_at current (Key key # segments) = Option.bind (get_key current key) (\<lambda>v. select_at v segments)"
| "select_at current (Index i # segments) = Option.bind (get_index current i) (\<lambda>v. select_at v segments)"

definition select :: "json \<Rightarrow> string \<Rightarrow> json option" where
  "select v path = Option.bind (parse_path path) (select_at v)"

text \<open>How a value is written is the business of a library: \<open>to_text\<close>.\<close>

definition select_string :: "(json \<Rightarrow> string) \<Rightarrow> json \<Rightarrow> string \<Rightarrow> string option" where
  "select_string to_text v path = Option.bind (select v path) (\<lambda>found. case found of
     JString s \<Rightarrow> Some s
   | JNull \<Rightarrow> None
   | other \<Rightarrow> Some (to_text other))"

section \<open>What substitution does\<close>

text \<open>A text is a list of placeholders, each with the text before it, and a rest.\<close>

type_synonym pieces = "(string \<times> string) list \<times> string"

definition placeholder_text :: "string \<Rightarrow> string" where
  "placeholder_text inner = ''{{'' @ inner @ ''}}''"

definition pieces_text :: "pieces \<Rightarrow> string" where
  "pieces_text = (\<lambda>(ps, rest). concat (map (\<lambda>(before, inner). before @ placeholder_text inner) ps) @ rest)"

text \<open>Each placeholder starts at the first pair of opening braces and ends at the first pair of closing braces after it; the rest has
  none.\<close>

definition pieces_ok :: "pieces \<Rightarrow> bool" where
  "pieces_ok = (\<lambda>(ps, rest). (\<forall>(before, inner) \<in> set ps. str_find ''{{'' (before @ ''{{'') = Some (length before) \<and>
     str_find ''}}'' (inner @ ''}}'') = Some (length inner)) \<and> next_placeholder rest 0 = None)"

fun fill_pieces :: "'s lookup \<Rightarrow> (string \<times> string) list \<Rightarrow> 's \<Rightarrow> (string \<times> string list) \<times> 's" where
  "fill_pieces lookup [] st = (([], []), st)"
| "fill_pieces lookup ((before, inner) # ps) st = (case lookup (trim inner) st of (found, st) \<Rightarrow>
     case fill_pieces lookup ps st of ((filled, undefined_names), st) \<Rightarrow>
       ((before @ (case found of Some v \<Rightarrow> v | None \<Rightarrow> placeholder_text inner) @ filled,
         (case found of Some _ \<Rightarrow> [] | None \<Rightarrow> [trim inner]) @ undefined_names), st))"

lemma str_find_first:
  "str_find p s = Some i \<Longrightarrow> str_find p (take i s @ p) = Some (length (take i s))"
proof (induction s arbitrary: i)
  case Nil
  then show ?case by (auto split: if_splits)
next
  case (Cons c s)
  show ?case
  proof (cases i)
    case 0
    have "str_find p p = Some 0" by (cases p) simp_all
    with 0 show ?thesis by simp
  next
    case (Suc j)
    with Cons.prems have j: "str_find p s = Some j" "\<not> prefix p (c # s)" by (auto split: if_splits)
    have "\<not> prefix p (c # take j s @ p)"
    proof
      assume "prefix p (c # take j s @ p)"
      moreover have "prefix (take j s @ p) s"
        using str_find_Some_decomp [OF j(1)] by (metis append_assoc prefixI)
      ultimately show False using j(2) by (meson Cons_prefix_Cons prefix_order.trans)
    qed
    with Cons.IH [OF j(1)] Suc show ?thesis by simp
  qed
qed

lemma next_placeholder_pieces:
  assumes "next_placeholder s offset = Some (start, stop)"
  obtains before inner where "drop offset s = before @ placeholder_text inner @ drop stop s"
    and "str_find ''{{'' (before @ ''{{'') = Some (length before)" and "str_find ''}}'' (inner @ ''}}'') = Some (length inner)"
    and "substring s offset start = before" and "substring s start stop = placeholder_text inner"
    and "placeholder_name s (start, stop) = trim inner"
proof -
  obtain i j where i: "str_find ''{{'' (drop offset s) = Some i" "start = offset + i"
    and j: "str_find ''}}'' (drop (start + 2) s) = Some j" "stop = start + 2 + j + 2"
    using assms by (auto simp: next_placeholder_def Let_def split: option.splits)
  let ?before = "take i (drop offset s)" and ?inner = "take j (drop (start + 2) s)"
  have 1: "drop offset s = ?before @ ''{{'' @ drop (start + 2) s" and len_i: "i + 2 \<le> length (drop offset s)"
    using str_find_Some_decomp [OF i(1)] i(2) by (simp_all add: add.commute)
  have 2: "drop (start + 2) s = ?inner @ ''}}'' @ drop stop s" and len_j: "j + 2 \<le> length (drop (start + 2) s)"
    using str_find_Some_decomp [OF j(1)] j(2) by (simp_all add: add.commute add.left_commute)
  have 3: "drop start s = ''{{'' @ ?inner @ ''}}'' @ drop stop s"
    using arg_cong [OF 1, of "drop i"] 2 i(2) len_i by (simp add: add.commute)
  show thesis
  proof (rule that [of ?before ?inner])
    show "drop offset s = ?before @ placeholder_text ?inner @ drop stop s"
      using 1 2 by (simp add: placeholder_text_def)
    show "str_find ''{{'' (?before @ ''{{'') = Some (length ?before)" using i(1) by (rule str_find_first)
    show "str_find ''}}'' (?inner @ ''}}'') = Some (length ?inner)" using j(1) by (rule str_find_first)
    show "substring s offset start = ?before" using i(2) by (simp add: substring_def)
    show "substring s start stop = placeholder_text ?inner"
      using 3 j(2) len_j by (simp add: substring_def placeholder_text_def numeral_eq_Suc)
    show "placeholder_name s (start, stop) = trim ?inner"
      using j(2) by (simp add: placeholder_name_def substring_def)
  qed
qed

lemma substitute_ranges_pieces:
  "\<exists>ps rest. drop offset s = pieces_text (ps, rest) \<and> pieces_ok (ps, rest) \<and>
     map (placeholder_name s) (ranges_from s offset) = map (trim \<circ> snd) ps \<and>
     (\<forall>(lookup :: 's lookup) result missing st. substitute_ranges s lookup (ranges_from s offset) offset result missing st =
       (case fill_pieces lookup ps st of ((filled, undefined_names), st) \<Rightarrow>
         ((result @ filled @ rest, fold (\<lambda>n ns. note_missing ns n) undefined_names missing), st)))"
proof (induction s offset rule: ranges_from.induct)
  case (1 s offset)
  show ?case
  proof (cases "next_placeholder s offset")
    case None
    then have "next_placeholder (drop offset s) 0 = None"
      by (auto simp: next_placeholder_def Let_def add.commute add.left_commute split: option.splits)
    then show ?thesis
      using None by (intro exI [of _ "[]"] exI [of _ "drop offset s"])
        (simp add: pieces_text_def pieces_ok_def ranges_from.simps [of s offset])
  next
    case (Some range)
    obtain start stop where range: "range = (start, stop)" by (cases range)
    obtain before inner where d: "drop offset s = before @ placeholder_text inner @ drop stop s"
      and ok: "str_find ''{{'' (before @ ''{{'') = Some (length before)" "str_find ''}}'' (inner @ ''}}'') = Some (length inner)"
      and sub: "substring s offset start = before" "substring s start stop = placeholder_text inner"
      and name: "placeholder_name s (start, stop) = trim inner"
      using next_placeholder_pieces [OF Some [unfolded range]] .
    obtain ps rest where ih: "drop stop s = pieces_text (ps, rest)" "pieces_ok (ps, rest)"
      "map (placeholder_name s) (ranges_from s stop) = map (trim \<circ> snd) ps"
      "\<And>(lookup :: 's lookup) result missing st. substitute_ranges s lookup (ranges_from s stop) stop result missing st =
       (case fill_pieces lookup ps st of ((filled, undefined_names), st) \<Rightarrow>
         ((result @ filled @ rest, fold (\<lambda>n ns. note_missing ns n) undefined_names missing), st))"
      using 1 [OF Some [unfolded range] refl] by blast
    have r: "ranges_from s offset = (start, stop) # ranges_from s stop"
      using Some range by (simp add: ranges_from.simps [of s offset])
    show ?thesis
    proof (intro exI [of _ "(before, inner) # ps"] exI [of _ rest] conjI allI)
      show "drop offset s = pieces_text ((before, inner) # ps, rest)"
        using d ih(1) by (simp add: pieces_text_def)
      show "pieces_ok ((before, inner) # ps, rest)" using ih(2) ok by (simp add: pieces_ok_def)
      show "map (placeholder_name s) (ranges_from s offset) = map (trim \<circ> snd) ((before, inner) # ps)"
        using ih(3) by (simp add: r name)
      fix lookup :: "'s lookup" and result missing st
      show "substitute_ranges s lookup (ranges_from s offset) offset result missing st =
       (case fill_pieces lookup ((before, inner) # ps) st of ((filled, undefined_names), st) \<Rightarrow>
         ((result @ filled @ rest, fold (\<lambda>n ns. note_missing ns n) undefined_names missing), st))"
        by (simp add: r sub name ih(4) split: prod.split option.split)
    qed
  qed
qed

text \<open>The names noted, each once, in the order they were met first.\<close>

definition firsts :: "'a list \<Rightarrow> 'a list" where
  "firsts xs = rev (remdups (rev xs))"

lemma set_firsts [simp]: "set (firsts xs) = set xs" and distinct_firsts [simp]: "distinct (firsts xs)"
  by (simp_all add: firsts_def)

lemma firsts_snoc: "firsts (xs @ [x]) = (if x \<in> set xs then firsts xs else firsts xs @ [x])"
  by (simp add: firsts_def)

lemma notes_firsts: "fold (\<lambda>n ns. note_missing ns n) xs [] = firsts xs"
  by (induction xs rule: rev_induct) (auto simp: firsts_snoc note_missing_def firsts_def)

lemma fill_pieces_undefined:
  assumes "\<And>n st. fst (lookup n st) = None \<longleftrightarrow> undef n"
  shows "snd (fst (fill_pieces lookup ps st)) = filter undef (map (trim \<circ> snd) ps)"
proof (induction ps arbitrary: st)
  case (Cons p ps)
  obtain before inner where p: "p = (before, inner)" by (cases p)
  obtain found st' where l: "lookup (trim inner) st = (found, st')" by (cases "lookup (trim inner) st")
  have "found = None \<longleftrightarrow> undef (trim inner)" using assms [of "trim inner" st] l by simp
  with Cons.IH [of st'] show ?case by (auto simp: p l split: prod.splits option.split)
qed simp

lemma fill_pieces_pure:
  "fill_pieces (\<lambda>n st. (f n, st)) ps st =
     ((concat (map (\<lambda>(before, inner). before @ (case f (trim inner) of Some v \<Rightarrow> v | None \<Rightarrow> placeholder_text inner)) ps),
       filter (\<lambda>n. f n = None) (map (trim \<circ> snd) ps)), st)"
  by (induction ps) (auto split: option.split)

lemma substitute_pieces:
  fixes lookup :: "'s lookup"
  obtains ps rest where "s = pieces_text (ps, rest)" and "pieces_ok (ps, rest)"
    and "placeholder_names s = map (trim \<circ> snd) ps"
    and "\<And>st. substitute s lookup st = (case fill_pieces lookup ps st of ((filled, undefined_names), st) \<Rightarrow>
      ((filled @ rest, firsts undefined_names), st))"
  using substitute_ranges_pieces [of 0 s, where 's = 's]
  by (auto simp: substitute_def placeholder_ranges_def placeholder_names_def notes_firsts split: prod.split)

lemma substitute_missing:
  fixes lookup :: "'s lookup"
  assumes "\<And>n st. fst (lookup n st) = None \<longleftrightarrow> undef n"
  shows "snd (fst (substitute s lookup st)) = firsts (filter undef (placeholder_names s))"
proof -
  obtain ps rest where "placeholder_names s = map (trim \<circ> snd) ps"
    and "\<And>st. substitute s lookup st = (case fill_pieces lookup ps st of ((filled, undefined_names), st) \<Rightarrow>
      ((filled @ rest, firsts undefined_names), st))"
    by (rule substitute_pieces [of s lookup]) blast
  then show ?thesis
    using fill_pieces_undefined [of lookup undef ps st, OF assms] by (auto split: prod.splits)
qed

text \<open>C20. Substitution is one pass from left to right. A text is a list of placeholders with what is before them, which are found at the
  first pair of opening braces and end at the first pair of closing braces, and a rest without any; each placeholder whose trimmed name
  is defined becomes its value, which is not looked at again, and all else stays. The missing names are those not defined, once each,
  in order; a text without missing names has every placeholder replaced.\<close>

theorem substitute_spec:
  fixes st :: 's
  shows "\<exists>ps rest. s = pieces_text (ps, rest) \<and> pieces_ok (ps, rest) \<and> placeholder_names s = map (trim \<circ> snd) ps \<and>
     substitute s (\<lambda>n st. (f n, st)) st =
       ((concat (map (\<lambda>(before, inner). before @ (case f (trim inner) of Some v \<Rightarrow> v | None \<Rightarrow> placeholder_text inner)) ps) @ rest,
         firsts (filter (\<lambda>n. f n = None) (placeholder_names s))), st)"
proof -
  obtain ps rest where "s = pieces_text (ps, rest)" "pieces_ok (ps, rest)" "placeholder_names s = map (trim \<circ> snd) ps"
    "\<And>st :: 's. substitute s (\<lambda>n st. (f n, st)) st = (case fill_pieces (\<lambda>n st. (f n, st)) ps st of ((filled, undefined_names), st) \<Rightarrow>
      ((filled @ rest, firsts undefined_names), st))"
    by (rule substitute_pieces [of s "\<lambda>n (st :: 's). (f n, st)"]) blast
  then show ?thesis by (intro exI [of _ ps] exI [of _ rest]) (simp add: fill_pieces_pure)
qed

section \<open>The language of paths\<close>

inductive path_text :: "string \<Rightarrow> segment list \<Rightarrow> bool" where
  path_end: "path_text [] []"
| path_dot: "key \<noteq> [] \<Longrightarrow> set key \<inter> set ''.['' = {} \<Longrightarrow> path_text t segments \<Longrightarrow>
    path_text (''.'' @ key @ t) (Key key # segments)"
| path_bracket: "CHR '']'' \<notin> set inside \<Longrightarrow> bracket_segment (trim inside) = Some segment \<Longrightarrow> path_text t segments \<Longrightarrow>
    path_text (''['' @ inside @ '']'' @ t) (segment # segments)"

lemma path_text_starts: "path_text t segments \<Longrightarrow> t = [] \<or> hd t \<in> set ''.[''"
  by (induction rule: path_text.induct) auto

lemma takeWhile_key:
  "set key \<inter> set ''.['' = {} \<Longrightarrow> t = [] \<or> hd t \<in> set ''.['' \<Longrightarrow> takeWhile (\<lambda>d. d \<notin> set ''.['') (key @ t) = key"
  by (subst takeWhile_append2) (force, cases t, auto)

lemma position_bracket: "CHR '']'' \<notin> set inside \<Longrightarrow> position (\<lambda>d. d = CHR '']'') (inside @ '']'' @ t) = Some (length inside)"
  by (induction inside) auto

definition key_of :: "string \<Rightarrow> string" where
  "key_of t = takeWhile (\<lambda>d. d \<notin> set ''.['') t"

lemma parse_segments_eqs:
  "parse_segments [] acc = Some acc"
  "parse_segments (CHR ''.'' # after) acc =
     (if key_of after = [] then None else parse_segments (drop (length (key_of after)) after) (acc @ [Key (key_of after)]))"
  "parse_segments (CHR ''['' # after) acc = (case position (\<lambda>d. d = CHR '']'') after of
     None \<Rightarrow> None
   | Some i \<Rightarrow> (case bracket_segment (trim (take i after)) of
       None \<Rightarrow> None
     | Some segment \<Rightarrow> parse_segments (drop (i + 1) after) (acc @ [segment])))"
  "c \<notin> set ''.['' \<Longrightarrow> parse_segments (c # after) acc =
     (if acc = [] then parse_segments (drop (length (key_of (c # after))) (c # after)) [Key (key_of (c # after))] else None)"
  unfolding key_of_def by (subst parse_segments.simps; simp add: Let_def)+

lemma key_of_append: "set key \<inter> set ''.['' = {} \<Longrightarrow> t = [] \<or> hd t \<in> set ''.['' \<Longrightarrow> key_of (key @ t) = key"
  unfolding key_of_def by (rule takeWhile_key)

lemma key_of_split: "t = key_of t @ drop (length (key_of t)) t" "set (key_of t) \<inter> set ''.['' = {}"
  unfolding key_of_def by (auto simp flip: dropWhile_eq_drop dest: set_takeWhileD)

lemma position_split:
  "position (\<lambda>d. d = c) t = Some i \<Longrightarrow> c \<notin> set (take i t) \<and> t = take i t @ [c] @ drop (i + 1) t"
  by (induction t arbitrary: i) (auto split: if_splits)

lemma parse_segments_complete: "path_text t segments \<Longrightarrow> parse_segments t acc = Some (acc @ segments)"
proof (induction arbitrary: acc rule: path_text.induct)
  case (path_dot key t segments)
  then show ?case
    using key_of_append [OF path_dot.hyps(2) path_text_starts [OF path_dot.hyps(3)]] by (simp add: parse_segments_eqs)
next
  case (path_bracket inside segment t segments)
  then show ?case using position_bracket [OF path_bracket.hyps(1), of t] by (simp add: parse_segments_eqs)
qed (simp add: parse_segments_eqs)

text \<open>A first key that stands alone.\<close>

definition bare_text :: "string \<Rightarrow> segment list \<Rightarrow> bool" where
  "bare_text t segments = (\<exists>key u rest. t = key @ u \<and> key \<noteq> [] \<and> set key \<inter> set ''.['' = {} \<and> path_text u rest \<and> segments = Key key # rest)"

lemma parse_segments_sound:
  "parse_segments t acc = Some segments \<Longrightarrow>
     \<exists>found. segments = acc @ found \<and> (path_text t found \<or> acc = [] \<and> bare_text t found)"
proof (induction "length t" arbitrary: t acc rule: less_induct)
  case less
  show ?case
  proof (cases t)
    case Nil
    with less.prems show ?thesis by (simp add: parse_segments_eqs path_end)
  next
    case (Cons c after)
    consider (dot) "c = CHR ''.''" | (bracket) "c = CHR ''[''" | (other) "c \<notin> set ''.[''" by auto
    then show ?thesis
    proof cases
      case dot
      let ?u = "drop (length (key_of after)) after"
      have k: "key_of after \<noteq> []" and p: "parse_segments ?u (acc @ [Key (key_of after)]) = Some segments"
        using less.prems by (simp_all add: Cons dot parse_segments_eqs split: if_splits)
      have "length ?u < length t" by (simp add: Cons)
      from less.hyps [OF this p] obtain ss where ss: "segments = acc @ Key (key_of after) # ss" "path_text ?u ss" by auto
      from path_dot [OF k key_of_split(2) ss(2)] ss(1) show ?thesis
        using key_of_split(1) [of after] by (auto simp: Cons dot)
    next
      case bracket
      obtain i segment where i: "position (\<lambda>d. d = CHR '']'') after = Some i"
        and seg: "bracket_segment (trim (take i after)) = Some segment"
        and p: "parse_segments (drop (i + 1) after) (acc @ [segment]) = Some segments"
        using less.prems by (auto simp: Cons bracket parse_segments_eqs split: option.splits)
      have "length (drop (i + 1) after) < length t" by (simp add: Cons)
      from less.hyps [OF this p] obtain ss where ss: "segments = acc @ segment # ss" "path_text (drop (i + 1) after) ss" by auto
      note b = position_split [OF i]
      have "t = ''['' @ take i after @ '']'' @ drop (i + 1) after" using b by (simp add: Cons bracket)
      then show ?thesis using path_bracket [OF b [THEN conjunct1] seg ss(2)] ss(1) by auto
    next
      case other
      let ?u = "drop (length (key_of t)) t"
      have acc: "acc = []" and p: "parse_segments ?u [Key (key_of t)] = Some segments"
        using less.prems parse_segments_eqs(4) [OF other] by (auto simp: Cons split: if_splits)
      have k: "key_of t \<noteq> []" using other by (simp add: Cons key_of_def)
      then have "length ?u < length t" by (simp add: Cons)
      from less.hyps [OF this p] obtain ss where ss: "segments = Key (key_of t) # ss" "path_text ?u ss" by auto
      have "bare_text t segments"
        unfolding bare_text_def using key_of_split [of t] k ss by blast
      then show ?thesis using acc by simp
    qed
  qed
qed

lemma parse_segments_bare: "bare_text t segments \<Longrightarrow> parse_segments t [] = Some segments"
proof -
  assume "bare_text t segments"
  then obtain key u rest where t: "t = key @ u" "key \<noteq> []" "set key \<inter> set ''.['' = {}" and u: "path_text u rest"
    and segments: "segments = Key key # rest"
    unfolding bare_text_def by blast
  have "key_of t = key" using t key_of_append path_text_starts [OF u] by simp
  moreover obtain c key' where "key = c # key'" using t(2) by (cases key) auto
  ultimately show ?thesis
    using t parse_segments_eqs(4) [of c "key' @ u" "[]"] parse_segments_complete [OF u, of "[Key key]"] by (auto simp: segments)
qed

text \<open>A path as it may be written: the dollar sign may be left out, and then, or after it, the first key may stand alone.\<close>

definition after_dollar :: "string \<Rightarrow> string" where
  "after_dollar path = (case strip_prefix ''$'' path of Some rest \<Rightarrow> rest | None \<Rightarrow> path)"

lemma parse_path_iff:
  "parse_path path = Some segments \<longleftrightarrow>
     path_text (after_dollar (trim path)) segments \<or> bare_text (after_dollar (trim path)) segments"
  using parse_segments_sound [of "after_dollar (trim path)" "[]" segments] parse_segments_complete [of _ segments "[]"]
    parse_segments_bare
  by (auto simp: parse_path_def after_dollar_def Let_def)

section \<open>Every place has a path\<close>

fun segment_text :: "segment \<Rightarrow> string" where
  "segment_text (Key key) = ''['' @ [CHR 0x27] @ key @ [CHR 0x27] @ '']''"
| "segment_text (Index i) = ''['' @ nat_to_string i @ '']''"

definition path_of :: "segment list \<Rightarrow> string" where
  "path_of segments = ''$'' @ concat (map segment_text segments)"

fun segment_ok :: "segment \<Rightarrow> bool" where
  "segment_ok (Key key) = (CHR '']'' \<notin> set key)"
| "segment_ok (Index i) = (i < 2 ^ 64)"

lemma unquote_quoted: "unquote q (q @ s @ q) = Some s"
  by (simp add: unquote_def strip_prefix_def strip_suffix_def suffix_def)

lemma unquote_digits: "c \<notin> set (nat_to_string i) \<Longrightarrow> unquote [c] (nat_to_string i) = None"
  by (cases "nat_to_string i") (auto simp: unquote_def strip_prefix_def)

lemma quotes_no_digits: "CHR 0x27 \<notin> set (nat_to_string i)" "CHR 0x22 \<notin> set (nat_to_string i)" "CHR '']'' \<notin> set (nat_to_string i)"
  using nat_to_string_alphanumeric [of _ i] by (force simp: is_ascii_alphanumeric_def)+

lemma segment_text_grammar: "\<forall>segment \<in> set segments. segment_ok segment \<Longrightarrow> path_text (concat (map segment_text segments)) segments"
proof (induction segments)
  case (Cons segment segments)
  then have rest: "path_text (concat (map segment_text segments)) segments" by simp
  show ?case
  proof (cases segment)
    case (Key key)
    have "trim ([CHR 0x27] @ key @ [CHR 0x27]) = [CHR 0x27] @ key @ [CHR 0x27]"
      by (rule trim_id) (simp add: is_ws_def)
    then have "bracket_segment (trim ([CHR 0x27] @ key @ [CHR 0x27])) = Some (Key key)"
      by (simp only: bracket_segment_def unquote_quoted option.case)
    moreover have "CHR '']'' \<notin> set ([CHR 0x27] @ key @ [CHR 0x27])" using Cons.prems Key by simp
    ultimately show ?thesis using path_bracket [OF _ _ rest] Key by fastforce
  next
    case (Index i)
    have "bracket_segment (trim (nat_to_string i)) = Some (Index i)"
      using Cons.prems Index
      by (simp add: bracket_segment_def unquote_digits quotes_no_digits parse_unsigned_nat_to_string)
    then show ?thesis using path_bracket [OF quotes_no_digits(3) _ rest] Index by fastforce
  qed
qed (simp add: path_end)

lemma path_of_trim: "trim (path_of segments) = path_of segments"
proof (rule trim_id, intro disjI2 conjI)
  have "last (path_of segments) \<in> {CHR ''$'', CHR '']''}"
    by (cases segments rule: rev_cases; cases "last segments") (auto simp: path_of_def)
  then show "\<not> is_ws (last (path_of segments))" by (auto simp: is_ws_def)
qed (simp add: path_of_def is_ws_def)

text \<open>Every place of a JSON value whose keys have no closing bracket has a path that selects it: \<open>parse\<close> reads the written path back,
  and \<open>select\<close> follows it; what is not there is not found.\<close>

lemma path_selects:
  assumes "\<forall>segment \<in> set segments. segment_ok segment"
  shows "parse_path (path_of segments) = Some segments \<and> select v (path_of segments) = select_at v segments"
proof -
  have "after_dollar (trim (path_of segments)) = concat (map segment_text segments)"
    by (simp only: path_of_trim) (simp add: path_of_def after_dollar_def strip_prefix_def)
  then have "parse_path (path_of segments) = Some segments"
    using segment_text_grammar [OF assms] by (simp add: parse_path_iff)
  then show ?thesis by (simp add: select_def)
qed

lemma path_selects_witness:
  "select (JObject [(''a b'', JArray [JNull, JObject [(''token'', JString ''x'')]])]) (path_of [Key ''a b'', Index 1, Key ''token'']) =
     Some (JString ''x'')"
proof -
  have "\<forall>segment \<in> set [Key ''a b'', Index 1, Key ''token'']. segment_ok segment" by simp
  note path_selects [OF this, THEN conjunct2]
  then show ?thesis by (simp add: get_key_def get_index_def nth_opt_def)
qed

end
