(* ===== verification/ApiSend.thy ===== *)
theory ApiSend
  imports ApiVars I18n
begin

text \<open>
  How the API client turns an operation and a draft into a request: \<open>crates/api_client/src/send.rs\<close> (\<open>inherited_headers\<close>, \<open>auth_plan\<close>,
  \<open>prepare\<close>, \<open>masked\<close>, \<open>curl\<close>), the parts of \<open>spec.rs\<close>, \<open>config.rs\<close> and \<open>schema.rs\<close> it calls, and \<open>Collection::prepare\<close> of
  \<open>collection.rs\<close>, which adds the cookies of the jar. Percent encoding, base 64, JSON texts, JSON pointers, fresh identifiers and the
  clock belong to libraries and are the fields of \<open>send_env\<close>; what is drawn from a generator or a clock threads a state \<open>'s\<close>.
  The bullet and the ellipsis that \<open>mask\<close> writes are outside the modelled characters and are written \<open>*\<close> and \<open>...\<close>.

  The lemmas show which headers a request has and which names it reports as missing, that a shell reads the copied command as the
  arguments of the request, what masking hides, and that it leaves API keys in the URL.
\<close>

section \<open>Specifications\<close>

datatype api_key_location = KeyHeader | KeyQuery | KeyCookie

datatype scheme_kind = Bearer "string option" | Basic | ApiKey api_key_location string | OAuth2 | UnsupportedScheme string

record security_scheme =
  sc_name :: string
  sc_kind :: scheme_kind
  sc_description :: "string option"

type_synonym security_requirements = "string list list"

datatype parameter_location = InPath | InQuery | InHeader | InCookie

record parameter =
  pa_name :: string
  pa_location :: parameter_location
  pa_required :: bool
  pa_description :: "string option"
  pa_schema :: "json option"
  pa_example :: "json option"

record request_body =
  rb_content_type :: string
  rb_other_content_types :: "string list"
  rb_required :: bool
  rb_schema :: "json option"
  rb_example :: "json option"

record response_spec =
  rs_status :: string
  rs_description :: "string option"
  rs_content_type :: "string option"
  rs_schema :: "json option"

record operation =
  op_key :: string
  op_method :: string
  op_path :: string
  op_operation_id :: "string option"
  op_summary :: "string option"
  op_description :: "string option"
  op_tags :: "string list"
  op_deprecated :: bool
  op_parameters :: "parameter list"
  op_request_body :: "request_body option"
  op_responses :: "response_spec list"
  op_security :: "security_requirements option"

datatype spec_format = OpenApi30 | OpenApi31 | Swagger2

record server =
  sv_url :: string
  sv_description :: "string option"

record tag =
  tg_name :: string
  tg_description :: "string option"

record spec =
  sp_format :: spec_format
  sp_version_string :: string
  sp_title :: string
  sp_api_version :: string
  sp_servers :: "server list"
  sp_security_schemes :: "security_scheme list"
  sp_default_security :: security_requirements
  sp_tags :: "tag list"
  sp_operations :: "operation list"
  sp_warnings :: "string list"
  sp_document :: json

definition success_response :: "operation \<Rightarrow> response_spec option" where
  "success_response op = (case find (\<lambda>r. prefix ''2'' (rs_status r)) (op_responses op) of
     Some r \<Rightarrow> Some r
   | None \<Rightarrow> find (\<lambda>r. rs_status r = ''default'') (op_responses op))"

definition operation_of :: "spec \<Rightarrow> string \<Rightarrow> operation option" where
  "operation_of spec key = find (\<lambda>op. op_key op = key) (sp_operations spec)"

definition scheme_of :: "spec \<Rightarrow> string \<Rightarrow> security_scheme option" where
  "scheme_of spec name = find (\<lambda>s. sc_name s = name) (sp_security_schemes spec)"

definition effective_security :: "spec \<Rightarrow> operation \<Rightarrow> security_requirements" where
  "effective_security spec op = (case op_security op of Some s \<Rightarrow> s | None \<Rightarrow> sp_default_security spec)"

definition schemes_for :: "spec \<Rightarrow> operation \<Rightarrow> security_scheme list" where
  "schemes_for spec op = List.map_filter (scheme_of spec)
     (fold (fold (\<lambda>name names. if name \<in> set names then names else names @ [name])) (effective_security spec op) [])"

definition essence :: "string \<Rightarrow> string" where
  "essence content_type = to_ascii_lowercase (trim (hd (str_split (CHR '';'') content_type)))"

definition is_json_content_type :: "string \<Rightarrow> bool" where
  "is_json_content_type content_type =
     (essence content_type = ''application/json'' \<or> suffix ''+json'' (essence content_type) \<or> essence content_type = ''*/*'')"

datatype body_kind = BodyJson | BodyText | BodyUrlEncoded | BodyMultipart

definition for_content_type :: "string \<Rightarrow> body_kind" where
  "for_content_type content_type = (let e = essence content_type in
     if e = ''multipart/form-data'' \<or> prefix ''multipart/'' e then BodyMultipart
     else if e = ''application/x-www-form-urlencoded'' then BodyUrlEncoded
     else if is_json_content_type e then BodyJson
     else BodyText)"

definition is_form :: "body_kind \<Rightarrow> bool" where
  "is_form k = (k = BodyUrlEncoded \<or> k = BodyMultipart)"

section \<open>Drafts and requests\<close>

record header_entry =
  he_name :: string
  he_value :: string
  he_enabled :: bool

record param_entry =
  pe_name :: string
  pe_value :: string
  pe_enabled :: bool

record form_field =
  ff_name :: string
  ff_value :: string
  ff_is_file :: bool
  ff_enabled :: bool

record request_draft =
  dr_url :: string
  dr_path_params :: "param_entry list"
  dr_query :: "param_entry list"
  dr_headers :: "header_entry list"
  dr_disabled_inherited :: "string list"
  dr_body :: "string option"
  dr_form :: "form_field list"

datatype header_origin = OriginSpec | OriginCollection | OriginScheme string

record planned_header =
  ph_name :: string
  ph_value :: string
  ph_origin :: header_origin
  ph_enabled :: bool

record auth_plan =
  ap_scheme :: string
  ap_summary :: string
  ap_missing :: "string option"

record multipart_part =
  mp_name :: string
  mp_value :: string
  mp_file :: "string option"

datatype prepared_body = TextBody string | UrlEncodedBody "(string \<times> string) list" | MultipartBody string "multipart_part list"

record prepared_request =
  pr_method :: string
  pr_url :: string
  pr_headers :: "(string \<times> string) list"
  pr_body :: "prepared_body option"
  pr_missing :: "string list"

record 's send_env =
  en_encode :: "string \<Rightarrow> string"
  en_base64 :: "string \<Rightarrow> string"
  en_parse_json :: "string \<Rightarrow> json option"
  en_pretty_json :: "json \<Rightarrow> string option"
  en_parse_number :: "string \<Rightarrow> string option"
  en_pointer :: "json \<Rightarrow> string \<Rightarrow> json option"
  en_new_uuid :: "'s \<Rightarrow> nat \<times> 's"
  en_uuid_text :: "nat \<Rightarrow> string"
  en_uuid_simple :: "nat \<Rightarrow> string"
  en_timestamp :: "'s \<Rightarrow> int \<times> 's"
  en_rfc3339 :: "'s \<Rightarrow> string \<times> 's"

section \<open>What a request inherits\<close>

definition TOKEN_VARIABLE :: string where
  "TOKEN_VARIABLE = ''token''"

definition api_key_secret :: "string \<Rightarrow> string" where
  "api_key_secret scheme = SECRET_PREFIX @ ''apiKey.'' @ scheme"

definition basic_secret :: "string \<Rightarrow> string \<Rightarrow> string" where
  "basic_secret scheme part = SECRET_PREFIX @ ''basic.'' @ scheme @ ''.'' @ part"

definition scheme_headers :: "'s send_env \<Rightarrow> (string \<Rightarrow> string option) \<Rightarrow> security_scheme \<Rightarrow> planned_header list" where
  "scheme_headers E variables scheme = (let origin = OriginScheme (sc_name scheme) in
     case sc_kind scheme of
       Bearer _ \<Rightarrow> if variables TOKEN_VARIABLE \<noteq> None
         then [\<lparr>ph_name = ''Authorization'', ph_value = ''Bearer '' @ placeholder_text TOKEN_VARIABLE, ph_origin = origin, ph_enabled = True\<rparr>]
         else []
     | OAuth2 \<Rightarrow> if variables TOKEN_VARIABLE \<noteq> None
         then [\<lparr>ph_name = ''Authorization'', ph_value = ''Bearer '' @ placeholder_text TOKEN_VARIABLE, ph_origin = origin, ph_enabled = True\<rparr>]
         else []
     | Basic \<Rightarrow> (case (variables (basic_secret (sc_name scheme) ''username''), variables (basic_secret (sc_name scheme) ''password'')) of
         (Some username, Some password) \<Rightarrow>
           [\<lparr>ph_name = ''Authorization'', ph_value = ''Basic '' @ en_base64 E (username @ '':'' @ password), ph_origin = origin, ph_enabled = True\<rparr>]
       | _ \<Rightarrow> [])
     | ApiKey location name \<Rightarrow>
         let secret = api_key_secret (sc_name scheme) in
         if variables secret = None then []
         else (case location of
           KeyHeader \<Rightarrow> [\<lparr>ph_name = name, ph_value = placeholder_text secret, ph_origin = origin, ph_enabled = True\<rparr>]
         | KeyCookie \<Rightarrow> [\<lparr>ph_name = ''Cookie'', ph_value = name @ ''='' @ placeholder_text secret, ph_origin = origin, ph_enabled = True\<rparr>]
         | KeyQuery \<Rightarrow> [])
     | UnsupportedScheme _ \<Rightarrow> [])"

definition inherited_headers ::
  "'s send_env \<Rightarrow> spec \<Rightarrow> string \<Rightarrow> header_entry list \<Rightarrow> (string \<Rightarrow> string option) \<Rightarrow> bool \<Rightarrow> planned_header list" where
  "inherited_headers E spec operation_key collection_headers variables has_body = (case operation_of spec operation_key of
     None \<Rightarrow> []
   | Some op \<Rightarrow>
       (case Option.bind (success_response op) rs_content_type of
          Some content_type \<Rightarrow> if content_type \<noteq> ''*/*''
            then [\<lparr>ph_name = ''Accept'', ph_value = content_type, ph_origin = OriginSpec, ph_enabled = True\<rparr>] else []
        | None \<Rightarrow> []) @
       (case op_request_body op of
          Some body \<Rightarrow> if has_body
            then [\<lparr>ph_name = ''Content-Type'', ph_value = rb_content_type body, ph_origin = OriginSpec, ph_enabled = True\<rparr>] else []
        | None \<Rightarrow> []) @
       map (\<lambda>h. \<lparr>ph_name = he_name h, ph_value = he_value h, ph_origin = OriginCollection, ph_enabled = he_enabled h\<rparr>) collection_headers @
       concat (map (scheme_headers E variables) (schemes_for spec op)))"

definition middle_dot :: string where
  "middle_dot = [CHR '' '', CHR 0xB7, CHR '' '']"

definition scheme_summary :: "i18n \<Rightarrow> security_scheme \<Rightarrow> string" where
  "scheme_summary L scheme = (case sc_kind scheme of
     Bearer (Some format) \<Rightarrow> ''http'' @ middle_dot @ ''bearer'' @ middle_dot @ format
   | Bearer None \<Rightarrow> ''http'' @ middle_dot @ ''bearer''
   | Basic \<Rightarrow> ''http'' @ middle_dot @ ''basic''
   | ApiKey location name \<Rightarrow> ''apiKey'' @ middle_dot @
       (case location of KeyHeader \<Rightarrow> ''header'' | KeyQuery \<Rightarrow> ''query'' | KeyCookie \<Rightarrow> ''cookie'') @ '' '' @ name
   | OAuth2 \<Rightarrow> ''oauth2'' @ middle_dot @ ''token bearer''
   | UnsupportedScheme kind \<Rightarrow> translate_with L ''api_client.spec.scheme_unsupported'' [(''kind'', kind)])"

definition scheme_missing :: "i18n \<Rightarrow> (string \<Rightarrow> string option) \<Rightarrow> security_scheme \<Rightarrow> string option" where
  "scheme_missing L variables scheme = (case sc_kind scheme of
     Bearer _ \<Rightarrow> if variables TOKEN_VARIABLE = None then Some (translate L ''api_client.send.missing_token'') else None
   | OAuth2 \<Rightarrow> if variables TOKEN_VARIABLE = None then Some (translate L ''api_client.send.missing_token'') else None
   | Basic \<Rightarrow>
       if variables (basic_secret (sc_name scheme) ''username'') = None \<or> variables (basic_secret (sc_name scheme) ''password'') = None
       then Some (translate L ''api_client.send.missing_basic'') else None
   | ApiKey _ _ \<Rightarrow>
       if variables (api_key_secret (sc_name scheme)) = None then Some (translate L ''api_client.send.missing_api_key'') else None
   | UnsupportedScheme kind \<Rightarrow> Some (translate_with L ''api_client.send.scheme_unsupported'' [(''kind'', kind)]))"

definition auth_plans :: "i18n \<Rightarrow> spec \<Rightarrow> string \<Rightarrow> (string \<Rightarrow> string option) \<Rightarrow> auth_plan list" where
  "auth_plans L spec operation_key variables = (case operation_of spec operation_key of
     None \<Rightarrow> []
   | Some op \<Rightarrow> map (\<lambda>scheme. \<lparr>ap_scheme = sc_name scheme, ap_summary = scheme_summary L scheme,
       ap_missing = scheme_missing L variables scheme\<rparr>) (schemes_for spec op))"

section \<open>Filling in\<close>

definition int_text :: "int \<Rightarrow> string" where
  "int_text i = (if i < 0 then ''-'' @ nat_to_string (nat (- i)) else nat_to_string (nat i))"

definition dynamic_value :: "'s send_env \<Rightarrow> string \<Rightarrow> 's \<Rightarrow> string option \<times> 's" where
  "dynamic_value E name st =
     (if name = ''$uuid'' \<or> name = ''$guid'' then case en_new_uuid E st of (u, st) \<Rightarrow> (Some (en_uuid_text E u), st)
      else if name = ''$timestamp'' then case en_timestamp E st of (t, st) \<Rightarrow> (Some (int_text t), st)
      else if name = ''$isoTimestamp'' then case en_rfc3339 E st of (t, st) \<Rightarrow> (Some t, st)
      else if name = ''$randomInt'' then case en_new_uuid E st of (u, st) \<Rightarrow> (Some (nat_to_string (u mod 1000)), st)
      else (None, st))"

definition value_for :: "'s send_env \<Rightarrow> (string \<Rightarrow> string option) \<Rightarrow> 's lookup" where
  "value_for E variables name st = (case dynamic_value E name st of
     (Some v, st) \<Rightarrow> (Some v, st)
   | (None, st) \<Rightarrow> (variables name, st))"

text \<open>The closure \<open>fill\<close> of \<open>prepare\<close>, with the missing names it collects.\<close>

type_synonym 's filling = "string list \<times> 's"

definition fill :: "'s send_env \<Rightarrow> (string \<Rightarrow> string option) \<Rightarrow> string \<Rightarrow> 's filling \<Rightarrow> string \<times> 's filling" where
  "fill E variables t = (\<lambda>(missing, st). case substitute t (value_for E variables) st of
     ((filled, names), st) \<Rightarrow> (filled, (fold (\<lambda>n ns. note_missing ns n) names missing, st)))"

fun fill_all :: "'s send_env \<Rightarrow> (string \<Rightarrow> string option) \<Rightarrow> string list \<Rightarrow> 's filling \<Rightarrow> string list \<times> 's filling" where
  "fill_all E variables [] f = ([], f)"
| "fill_all E variables (t # ts) f = (case fill E variables t f of (v, f) \<Rightarrow>
     case fill_all E variables ts f of (vs, f) \<Rightarrow> (v # vs, f))"

fun fill_path_params ::
  "'s send_env \<Rightarrow> (string \<Rightarrow> string option) \<Rightarrow> param_entry list \<Rightarrow> string \<Rightarrow> 's filling \<Rightarrow> string \<times> 's filling" where
  "fill_path_params E variables [] url f = (url, f)"
| "fill_path_params E variables (p # ps) url f = (case fill E variables (pe_value p) f of (v, f) \<Rightarrow>
     fill_path_params E variables ps (str_replace url (''{'' @ pe_name p @ ''}'') (en_encode E v)) f)"

definition encode_pairs :: "'s send_env \<Rightarrow> (string \<times> string) list \<Rightarrow> string" where
  "encode_pairs E pairs = str_join ''&'' (map (\<lambda>(name, v). en_encode E name @ ''='' @ en_encode E v) pairs)"

definition query_keys :: "spec \<Rightarrow> operation \<Rightarrow> (string \<Rightarrow> string option) \<Rightarrow> (string \<times> string) list" where
  "query_keys spec op variables = List.map_filter (\<lambda>scheme. case sc_kind scheme of
       ApiKey KeyQuery name \<Rightarrow> map_option (\<lambda>v. (name, v)) (variables (api_key_secret (sc_name scheme)))
     | _ \<Rightarrow> None) (schemes_for spec op)"

definition sent_query :: "request_draft \<Rightarrow> param_entry list" where
  "sent_query draft = filter (\<lambda>p. pe_enabled p \<and> pe_name p \<noteq> []) (dr_query draft)"

definition with_query :: "'s send_env \<Rightarrow> (string \<times> string) list \<Rightarrow> string \<Rightarrow> string" where
  "with_query E query url = (if query = [] then url
     else url @ (if CHR ''?'' \<in> set url then ''&'' else ''?'') @ encode_pairs E query)"

section \<open>Bodies\<close>

definition MAX_REF_DEPTH :: nat where
  "MAX_REF_DEPTH = 32"

primrec deref_steps :: "(json \<Rightarrow> string \<Rightarrow> json option) \<Rightarrow> json \<Rightarrow> nat \<Rightarrow> json \<Rightarrow> json" where
  "deref_steps pointer document 0 v = v"
| "deref_steps pointer document (Suc n) v = (case get_key v ''$ref'' of
     Some (JString reference) \<Rightarrow> (case Option.bind (strip_prefix ''#'' reference) (pointer document) of
       Some target \<Rightarrow> deref_steps pointer document n target
     | None \<Rightarrow> v)
   | _ \<Rightarrow> v)"

definition deref :: "(json \<Rightarrow> string \<Rightarrow> json option) \<Rightarrow> json \<Rightarrow> json \<Rightarrow> json" where
  "deref pointer document v = deref_steps pointer document MAX_REF_DEPTH v"

fun as_str :: "json \<Rightarrow> string option" where
  "as_str (JString s) = Some s"
| "as_str _ = None"

definition schema_type :: "json \<Rightarrow> string option" where
  "schema_type schema = Option.bind (get_key schema ''type'') (\<lambda>t. case t of
     JString kind \<Rightarrow> Some kind
   | JArray kinds \<Rightarrow> find (\<lambda>kind. kind \<noteq> ''null'') (List.map_filter as_str kinds)
   | _ \<Rightarrow> None)"

definition coerced :: "'s send_env \<Rightarrow> json \<Rightarrow> string \<Rightarrow> json option" where
  "coerced E schema s = (let s = trim s in case schema_type schema of
     None \<Rightarrow> None
   | Some kind \<Rightarrow>
       if kind = ''boolean'' then (if s = ''true'' then Some (JBool True) else if s = ''false'' then Some (JBool False) else None)
       else if kind = ''integer'' then map_option (\<lambda>i. JNumber (int_text i)) (parse_i64 s)
       else if kind = ''number'' then map_option JNumber (en_parse_number E s)
       else None)"

definition MAX_EXAMPLE_DEPTH :: nat where
  "MAX_EXAMPLE_DEPTH = 8"

text \<open>\<open>coerce_at\<close> with the number of levels left: at depth \<open>d\<close> it is \<open>MAX_EXAMPLE_DEPTH + 1 - d\<close>.\<close>

primrec coerce_at :: "nat \<Rightarrow> 's send_env \<Rightarrow> json \<Rightarrow> json \<Rightarrow> json \<Rightarrow> json" where
  "coerce_at 0 E document schema v = v"
| "coerce_at (Suc n) E document schema v = (let schema = deref (en_pointer E) document schema;
     v = (case get_key schema ''allOf'' of Some (JArray parts) \<Rightarrow> fold (coerce_at n E document) parts v | _ \<Rightarrow> v) in
     case v of
       JObject entries \<Rightarrow> (case get_key schema ''properties'' of
         Some (JObject properties) \<Rightarrow> JObject (fold (\<lambda>(name, property).
           map (\<lambda>(key, field). if key = name then (key, coerce_at n E document property field) else (key, field))) properties entries)
       | _ \<Rightarrow> v)
     | JArray items \<Rightarrow> (case get_key schema ''items'' of
         Some item_schema \<Rightarrow> JArray (map (coerce_at n E document item_schema) items)
       | None \<Rightarrow> v)
     | JString s \<Rightarrow> (case coerced E schema s of Some c \<Rightarrow> c | None \<Rightarrow> v)
     | _ \<Rightarrow> v)"

definition coerce_to_schema :: "'s send_env \<Rightarrow> json \<Rightarrow> json \<Rightarrow> json \<Rightarrow> json" where
  "coerce_to_schema E document schema v = coerce_at (MAX_EXAMPLE_DEPTH + 1) E document schema v"

definition typed_json_body :: "'s send_env \<Rightarrow> spec \<Rightarrow> operation \<Rightarrow> string \<Rightarrow> string" where
  "typed_json_body E spec op body = (case op_request_body op of
     None \<Rightarrow> body
   | Some request_body \<Rightarrow> (case rb_schema request_body of
       None \<Rightarrow> body
     | Some schema \<Rightarrow>
         if \<not> is_json_content_type (rb_content_type request_body) then body
         else (case en_parse_json E body of
           None \<Rightarrow> body
         | Some parsed \<Rightarrow> let typed = coerce_to_schema E (sp_document spec) schema parsed in
             if typed = parsed then body
             else (case en_pretty_json E typed of Some t \<Rightarrow> t | None \<Rightarrow> body))))"

definition sent_fields :: "request_draft \<Rightarrow> form_field list" where
  "sent_fields draft = filter (\<lambda>f. ff_enabled f \<and> trim (ff_name f) \<noteq> []) (dr_form draft)"

definition body_kind_of :: "operation \<Rightarrow> body_kind" where
  "body_kind_of op = (case op_request_body op of Some body \<Rightarrow> for_content_type (rb_content_type body) | None \<Rightarrow> BodyJson)"

definition multipart_part_of :: "form_field \<Rightarrow> string \<Rightarrow> multipart_part" where
  "multipart_part_of field v = \<lparr>mp_name = trim (ff_name field), mp_value = v,
     mp_file = (if ff_is_file field \<and> trim v \<noteq> [] then Some (trim v) else None)\<rparr>"

definition prepare_body ::
  "'s send_env \<Rightarrow> spec \<Rightarrow> operation \<Rightarrow> request_draft \<Rightarrow> (string \<Rightarrow> string option) \<Rightarrow> 's filling \<Rightarrow> prepared_body option \<times> 's filling" where
  "prepare_body E spec op draft variables f =
     (if is_form (body_kind_of op) then
        let fields = sent_fields draft in
        if fields = [] then (None, f)
        else if body_kind_of op = BodyUrlEncoded then
          case fill_all E variables (map ff_value fields) f of (vs, f) \<Rightarrow>
            (Some (UrlEncodedBody (zip (map (\<lambda>field. trim (ff_name field)) fields) vs)), f)
        else
          (case f of (missing, st) \<Rightarrow> case en_new_uuid E st of (u, st) \<Rightarrow>
           case fill_all E variables (map ff_value fields) (missing, st) of (vs, f) \<Rightarrow>
             (Some (MultipartBody (''asylum-'' @ en_uuid_simple E u) (map2 multipart_part_of fields vs)), f))
      else (case dr_body draft of
        Some body \<Rightarrow> if trim body \<noteq> []
          then case fill E variables body f of (t, f) \<Rightarrow> (Some (TextBody (typed_json_body E spec op t)), f)
          else (None, f)
      | None \<Rightarrow> (None, f)))"

section \<open>Headers\<close>

definition set_header :: "string \<Rightarrow> string \<Rightarrow> (string \<times> string) list \<Rightarrow> (string \<times> string) list" where
  "set_header name v headers = filter (\<lambda>(existing, _). \<not> eq_ignore_ascii_case existing name) headers @ [(name, v)]"

fun set_filled ::
  "'s send_env \<Rightarrow> (string \<Rightarrow> string option) \<Rightarrow> (string \<times> string) list \<Rightarrow> (string \<times> string) list \<Rightarrow> 's filling \<Rightarrow>
    (string \<times> string) list \<times> 's filling" where
  "set_filled E variables [] headers f = (headers, f)"
| "set_filled E variables ((name, t) # sources) headers f = (case fill E variables t f of (v, f) \<Rightarrow>
     set_filled E variables sources (set_header name v headers) f)"

definition sent_inherited :: "request_draft \<Rightarrow> planned_header list \<Rightarrow> (string \<times> string) list" where
  "sent_inherited draft headers = map (\<lambda>h. (ph_name h, ph_value h)) (filter (\<lambda>h. ph_enabled h \<and>
     \<not> (\<exists>name \<in> set (dr_disabled_inherited draft). eq_ignore_ascii_case name (ph_name h)) \<and> ph_name h \<noteq> []) headers)"

definition sent_own :: "request_draft \<Rightarrow> (string \<times> string) list" where
  "sent_own draft = map (\<lambda>h. (he_name h, he_value h)) (filter (\<lambda>h. he_enabled h \<and> he_name h \<noteq> []) (dr_headers draft))"

definition missing_path_params :: "operation \<Rightarrow> request_draft \<Rightarrow> string list" where
  "missing_path_params op draft = map (\<lambda>p. ''{'' @ pa_name p @ ''}'') (filter (\<lambda>p. pa_location p = InPath \<and>
     \<not> (\<exists>entry \<in> set (dr_path_params draft). pe_name entry = pa_name p)) (op_parameters op))"

definition prepare ::
  "'s send_env \<Rightarrow> i18n \<Rightarrow> spec \<Rightarrow> string \<Rightarrow> request_draft \<Rightarrow> header_entry list \<Rightarrow> (string \<Rightarrow> string option) \<Rightarrow> 's \<Rightarrow>
    (string + prepared_request) \<times> 's" where
  "prepare E L spec operation_key draft collection_headers variables st = (case operation_of spec operation_key of
     None \<Rightarrow> (Inl (translate_with L ''api_client.send.error_operation_gone'' [(''operation'', operation_key)]), st)
   | Some op \<Rightarrow>
       case fill E variables (dr_url draft) ([], st) of (url, f) \<Rightarrow>
       case fill_path_params E variables (dr_path_params draft) url f of (url, f) \<Rightarrow>
       case fill_all E variables (map pe_value (sent_query draft)) f of (vs, f) \<Rightarrow>
       let query = zip (map pe_name (sent_query draft)) vs @ query_keys spec op variables;
           url = with_query E query url in
       case prepare_body E spec op draft variables f of (body, f) \<Rightarrow>
       case set_filled E variables
           (sent_inherited draft (inherited_headers E spec operation_key collection_headers variables (body \<noteq> None)) @ sent_own draft) [] f of
         (headers, (missing, st)) \<Rightarrow>
       let headers = (case body of
             Some (MultipartBody boundary _) \<Rightarrow> set_header ''Content-Type'' (''multipart/form-data; boundary='' @ boundary) headers
           | _ \<Rightarrow> headers) in
       (Inr \<lparr>pr_method = op_method op, pr_url = url, pr_headers = headers, pr_body = body,
          pr_missing = missing @ missing_path_params op draft\<rparr>, st))"

section \<open>Showing and copying\<close>

definition mask :: "string \<Rightarrow> string" where
  "mask v = (if length v \<le> 12 then ''****'' else take 6 v @ ''...'' @ drop (length v - 3) v)"

definition masked_header :: "string \<times> string \<Rightarrow> string \<times> string" where
  "masked_header = (\<lambda>(name, v). let lower = to_ascii_lowercase name in
     (name, if lower = ''authorization'' then
        hd (str_split (CHR '' '') v) @ '' '' @ mask (case split_once (CHR '' '') v of Some (_, rest) \<Rightarrow> rest | None \<Rightarrow> [])
      else if str_contains lower ''key'' \<or> str_contains lower ''token'' \<or> lower = ''cookie'' then mask v
      else v))"

definition masked :: "prepared_request \<Rightarrow> prepared_request" where
  "masked r = r\<lparr>pr_headers := map masked_header (pr_headers r)\<rparr>"

text \<open>A text in single quotes for a shell.\<close>

definition sh_quote :: "string \<Rightarrow> string" where
  "sh_quote t = [CHR 0x27] @ concat (map (\<lambda>c. if c = CHR 0x27 then [CHR 0x27, CHR 0x5C, CHR 0x27, CHR 0x27] else [c]) t) @ [CHR 0x27]"

definition new_line :: string where
  "new_line = [CHR '' '', CHR 0x5C, CHR 0x0A, CHR '' '', CHR '' '']"

definition header_option :: "string \<times> string \<Rightarrow> string" where
  "header_option = (\<lambda>(name, v). new_line @ ''-H '' @ sh_quote (name @ '': '' @ v))"

definition curl :: "prepared_request \<Rightarrow> string" where
  "curl r = (let command = ''curl -X '' @ pr_method r @ '' '' @ sh_quote (pr_url r) @ concat (map header_option (pr_headers r)) in
     case pr_body r of
       Some (TextBody body) \<Rightarrow> command @ new_line @ ''--data-raw '' @ sh_quote body
     | Some (UrlEncodedBody pairs) \<Rightarrow> command @
         concat (map (\<lambda>(name, v). new_line @ ''--data-urlencode '' @ sh_quote (name @ ''='' @ v)) pairs)
     | Some (MultipartBody _ parts) \<Rightarrow>
         str_replace command (case find (\<lambda>(name, _). eq_ignore_ascii_case name ''content-type'') (pr_headers r) of
             Some header \<Rightarrow> header_option header | None \<Rightarrow> []) [] @
         concat (map (\<lambda>part. new_line @ ''-F '' @ sh_quote (mp_name part @ (case mp_file part of
             Some path \<Rightarrow> ''=@'' @ path | None \<Rightarrow> ''='' @ mp_value part))) parts)
     | None \<Rightarrow> command)"

section \<open>The headers of a request\<close>

definition header_get :: "string \<Rightarrow> (string \<times> string) list \<Rightarrow> string option" where
  "header_get name headers = map_option snd (find (\<lambda>(existing, _). eq_ignore_ascii_case existing name) headers)"

lemma eq_ignore_ascii_case_simps:
  "eq_ignore_ascii_case a a" "eq_ignore_ascii_case a b \<Longrightarrow> eq_ignore_ascii_case b c \<Longrightarrow> eq_ignore_ascii_case a c"
  "eq_ignore_ascii_case a b \<longleftrightarrow> eq_ignore_ascii_case b a"
  by (auto simp: eq_ignore_ascii_case_def)

lemma find_append: "find P (xs @ ys) = (case find P xs of Some x \<Rightarrow> Some x | None \<Rightarrow> find P ys)"
  by (induction xs) auto

lemma find_filter_other:
  "(\<And>x. P x \<Longrightarrow> Q x) \<Longrightarrow> find P (filter Q xs) = find P xs"
  by (induction xs) auto

lemma find_filter_same: "(\<And>x. P x \<Longrightarrow> \<not> Q x) \<Longrightarrow> find P (filter Q xs) = None"
  by (induction xs) auto

lemma header_get_set:
  "header_get n (set_header m v headers) = (if eq_ignore_ascii_case m n then Some v else header_get n headers)"
proof (cases "eq_ignore_ascii_case m n")
  case True
  then have "find (\<lambda>(existing, _). eq_ignore_ascii_case existing n)
      (filter (\<lambda>(existing, _). \<not> eq_ignore_ascii_case existing m) headers) = None"
    by (intro find_filter_same) (auto simp: eq_ignore_ascii_case_def)
  with True show ?thesis by (simp add: header_get_def set_header_def find_append)
next
  case False
  then have "find (\<lambda>(existing, _). eq_ignore_ascii_case existing n)
      (filter (\<lambda>(existing, _). \<not> eq_ignore_ascii_case existing m) headers) =
      find (\<lambda>(existing, _). eq_ignore_ascii_case existing n) headers"
    by (intro find_filter_other) (auto simp: eq_ignore_ascii_case_def)
  with False show ?thesis by (simp add: header_get_def set_header_def find_append split: option.split)
qed

definition distinct_names :: "(string \<times> string) list \<Rightarrow> bool" where
  "distinct_names headers = distinct (map (to_ascii_lowercase \<circ> fst) headers)"

lemma distinct_names_set: "distinct_names headers \<Longrightarrow> distinct_names (set_header name v headers)"
  by (auto simp: distinct_names_def set_header_def distinct_map_filter eq_ignore_ascii_case_def)

lemma distinct_names_filled: "distinct_names headers \<Longrightarrow> distinct_names (fst (set_filled E variables sources headers f))"
  by (induction sources arbitrary: headers f) (auto simp: distinct_names_set split: prod.splits)

text \<open>The text a header is filled from: that of the last source with its name.\<close>

definition last_source :: "string \<Rightarrow> (string \<times> string) list \<Rightarrow> string option" where
  "last_source n sources = header_get n (rev sources)"

lemma last_source_Cons:
  "last_source n ((m, t) # sources) =
     (case last_source n sources of Some u \<Rightarrow> Some u | None \<Rightarrow> if eq_ignore_ascii_case m n then Some t else None)"
  by (simp add: last_source_def header_get_def find_append split: option.split)

lemma last_source_None: "last_source n sources = None \<longleftrightarrow> (\<forall>(m, t) \<in> set sources. \<not> eq_ignore_ascii_case m n)"
  by (auto simp: last_source_def header_get_def find_None_iff)

lemma header_get_filled:
  "case last_source n sources of
     Some t \<Rightarrow> \<exists>g. header_get n (fst (set_filled E variables sources headers f)) = Some (fst (fill E variables t g))
   | None \<Rightarrow> header_get n (fst (set_filled E variables sources headers f)) = header_get n headers"
proof (induction sources arbitrary: headers f)
  case (Cons source sources)
  obtain m t where source: "source = (m, t)" by (cases source)
  obtain v g where v: "fill E variables t f = (v, g)" by (cases "fill E variables t f")
  have "\<exists>missing st. v = fst (fill E variables t (missing, st))" using v by (metis fst_conv surj_pair)
  with Cons.IH [of "set_header m v headers" g] show ?case
    by (auto simp: source v last_source_Cons header_get_set split: option.splits)
qed (simp add: last_source_def header_get_def)

text \<open>What a request is made from: the texts of its headers in the order they apply, and its boundary.\<close>

definition header_sources ::
  "'s send_env \<Rightarrow> spec \<Rightarrow> string \<Rightarrow> request_draft \<Rightarrow> header_entry list \<Rightarrow> (string \<Rightarrow> string option) \<Rightarrow> bool \<Rightarrow> (string \<times> string) list" where
  "header_sources E spec operation_key draft collection_headers variables has_body =
     sent_inherited draft (inherited_headers E spec operation_key collection_headers variables has_body) @ sent_own draft"

definition boundary_of :: "prepared_request \<Rightarrow> string option" where
  "boundary_of r = (case pr_body r of Some (MultipartBody boundary _) \<Rightarrow> Some boundary | _ \<Rightarrow> None)"

lemma prepare_cases:
  assumes "prepare E L spec operation_key draft collection_headers variables st = (Inr r, st')"
  obtains op url f url' f' vs f'' body f3 headers missing where
    "operation_of spec operation_key = Some op"
    "fill E variables (dr_url draft) ([], st) = (url, f)"
    "fill_path_params E variables (dr_path_params draft) url f = (url', f')"
    "fill_all E variables (map pe_value (sent_query draft)) f' = (vs, f'')"
    "prepare_body E spec op draft variables f'' = (body, f3)"
    "set_filled E variables (header_sources E spec operation_key draft collection_headers variables (body \<noteq> None)) [] f3 =
       (headers, (missing, st'))"
    "pr_url r = with_query E (zip (map pe_name (sent_query draft)) vs @ query_keys spec op variables) url'"
    "pr_body r = body" "pr_method r = op_method op" "pr_missing r = missing @ missing_path_params op draft"
    "pr_headers r = (case boundary_of r of
       Some boundary \<Rightarrow> set_header ''Content-Type'' (''multipart/form-data; boundary='' @ boundary) headers | None \<Rightarrow> headers)"
  using assms unfolding prepare_def header_sources_def [symmetric]
  by (fastforce simp: Let_def boundary_of_def split: option.splits prod.splits prepared_body.splits)

lemma prepare_filled:
  assumes "prepare E L spec operation_key draft collection_headers variables st = (Inr r, st')"
  obtains headers f where
    "headers = fst (set_filled E variables
       (header_sources E spec operation_key draft collection_headers variables (pr_body r \<noteq> None)) [] f)"
    and "pr_headers r = (case boundary_of r of
       Some boundary \<Rightarrow> set_header ''Content-Type'' (''multipart/form-data; boundary='' @ boundary) headers | None \<Rightarrow> headers)"
  using assms by (rule prepare_cases) (metis fst_conv)

lemma prepare_distinct:
  assumes "prepare E L spec operation_key draft collection_headers variables st = (Inr r, st')"
  shows "distinct_names (pr_headers r)"
proof -
  obtain headers f where "headers = fst (set_filled E variables
       (header_sources E spec operation_key draft collection_headers variables (pr_body r \<noteq> None)) [] f)"
    and headers: "pr_headers r = (case boundary_of r of
       Some boundary \<Rightarrow> set_header ''Content-Type'' (''multipart/form-data; boundary='' @ boundary) headers | None \<Rightarrow> headers)"
    using assms by (rule prepare_filled)
  then have "distinct_names headers" by (simp add: distinct_names_filled distinct_names_def [of "[]"])
  then show ?thesis by (simp add: headers distinct_names_set split: option.split)
qed

text \<open>C17. A prepared request has one header per name, whatever its case. The boundary of a multipart body sets the content type;
  every other header is filled from the last text given for its name, the request's own headers after the security schemes', the
  collection's and those of the specification. A header the draft turns off is not sent unless the draft itself sets it.\<close>

theorem prepare_headers:
  assumes "prepare E L spec operation_key draft collection_headers variables st = (Inr r, st')"
  shows "distinct_names (pr_headers r) \<and>
    (\<forall>n. case boundary_of r of
       Some boundary \<Rightarrow> eq_ignore_ascii_case ''Content-Type'' n \<longrightarrow>
         header_get n (pr_headers r) = Some (''multipart/form-data; boundary='' @ boundary)
     | None \<Rightarrow> True) \<and>
    (\<forall>n. boundary_of r = None \<or> \<not> eq_ignore_ascii_case ''Content-Type'' n \<longrightarrow>
       (case last_source n (header_sources E spec operation_key draft collection_headers variables (pr_body r \<noteq> None)) of
          Some t \<Rightarrow> \<exists>f. header_get n (pr_headers r) = Some (fst (fill E variables t f))
        | None \<Rightarrow> header_get n (pr_headers r) = None)) \<and>
    (\<forall>n \<in> set (dr_disabled_inherited draft). last_source n (sent_own draft) = None \<longrightarrow>
       last_source n (header_sources E spec operation_key draft collection_headers variables (pr_body r \<noteq> None)) = None)"
proof -
  define sources where "sources = header_sources E spec operation_key draft collection_headers variables (pr_body r \<noteq> None)"
  obtain headers f3 where eq: "headers = fst (set_filled E variables sources [] f3)"
    and headers: "pr_headers r = (case boundary_of r of
       Some boundary \<Rightarrow> set_header ''Content-Type'' (''multipart/form-data; boundary='' @ boundary) headers | None \<Rightarrow> headers)"
    unfolding sources_def using assms(1) by (rule prepare_filled)
  from eq have get: "case last_source n sources of
      Some t \<Rightarrow> \<exists>g. header_get n headers = Some (fst (fill E variables t g)) | None \<Rightarrow> header_get n headers = None" for n
    using header_get_filled [of n E variables sources "[]" f3] by (simp add: header_get_def cong: option.case_cong)
  have 1: "distinct_names (pr_headers r)" using assms(1) by (rule prepare_distinct)
  have 2: "case boundary_of r of
       Some boundary \<Rightarrow> eq_ignore_ascii_case ''Content-Type'' n \<longrightarrow>
         header_get n (pr_headers r) = Some (''multipart/form-data; boundary='' @ boundary)
     | None \<Rightarrow> True" for n
    by (simp add: headers header_get_set split: option.split)
  have 3: "case last_source n sources of
      Some t \<Rightarrow> \<exists>f. header_get n (pr_headers r) = Some (fst (fill E variables t f)) | None \<Rightarrow> header_get n (pr_headers r) = None"
    if "boundary_of r = None \<or> \<not> eq_ignore_ascii_case ''Content-Type'' n" for n
  proof -
    have "header_get n (pr_headers r) = header_get n headers"
      using that by (auto simp: headers header_get_set split: option.split)
    then show ?thesis using get [of n] by (auto split: option.splits)
  qed
  have 4: "last_source n sources = None" if "n \<in> set (dr_disabled_inherited draft)" "last_source n (sent_own draft) = None" for n
    using that
    by (auto simp: sources_def header_sources_def last_source_None sent_inherited_def eq_ignore_ascii_case_def)
  from 1 2 3 4 show ?thesis unfolding sources_def by blast
qed

section \<open>What is missing\<close>

definition is_dynamic :: "string \<Rightarrow> bool" where
  "is_dynamic name = (name \<in> {''$uuid'', ''$guid'', ''$timestamp'', ''$isoTimestamp'', ''$randomInt''})"

definition undefined_name :: "(string \<Rightarrow> string option) \<Rightarrow> string \<Rightarrow> bool" where
  "undefined_name variables name = (\<not> is_dynamic name \<and> variables name = None)"

lemma value_for_None: "fst (value_for E variables n st) = None \<longleftrightarrow> undefined_name variables n"
  by (auto simp: value_for_def dynamic_value_def undefined_name_def is_dynamic_def split: prod.splits)

abbreviation noting :: "string list \<Rightarrow> string list \<Rightarrow> string list" where
  "noting \<equiv> fold (\<lambda>n ns. note_missing ns n)"

definition undefined_names :: "(string \<Rightarrow> string option) \<Rightarrow> string \<Rightarrow> string list" where
  "undefined_names variables t = filter (undefined_name variables) (placeholder_names t)"

lemma note_noted: "n \<in> set ns \<Longrightarrow> note_missing ns n = ns"
  by (simp add: note_missing_def)

lemma set_notes: "set (noting xs ns) = set ns \<union> set xs"
  by (induction xs arbitrary: ns) (auto simp: note_missing_def)

lemma notes_firsts_eq: "noting (firsts xs) ns = noting xs ns"
  by (induction xs rule: rev_induct) (auto simp: firsts_snoc note_noted set_notes firsts_def)

lemma fill_missing: "fst (snd (fill E variables t f)) = noting (undefined_names variables t) (fst f)"
  using substitute_missing [of "value_for E variables" "undefined_name variables" t "snd f", OF value_for_None]
  by (auto simp: fill_def undefined_names_def notes_firsts_eq split: prod.splits)

lemma fill_all_missing:
  "fst (snd (fill_all E variables ts f)) = noting (concat (map (undefined_names variables) ts)) (fst f)"
proof (induction ts arbitrary: f)
  case (Cons t ts)
  show ?case using Cons.IH [of "snd (fill E variables t f)"] fill_missing [of E variables t f] by (simp add: case_prod_beta)
qed simp

lemma fill_path_params_missing:
  "fst (snd (fill_path_params E variables ps url f)) = noting (concat (map (undefined_names variables \<circ> pe_value) ps)) (fst f)"
proof (induction ps arbitrary: url f)
  case (Cons p ps)
  show ?case
    using Cons.IH [of _ "snd (fill E variables (pe_value p) f)"] fill_missing [of E variables "pe_value p" f]
    by (simp add: case_prod_beta)
qed simp

lemma set_filled_missing:
  "fst (snd (set_filled E variables sources headers f)) = noting (concat (map (undefined_names variables \<circ> snd) sources)) (fst f)"
proof (induction sources arbitrary: headers f)
  case (Cons source sources)
  obtain m t where source: "source = (m, t)" by (cases source)
  show ?case
    using Cons.IH [of _ "snd (fill E variables t f)"] fill_missing [of E variables t f] by (simp add: source case_prod_beta)
qed simp

definition body_texts :: "operation \<Rightarrow> request_draft \<Rightarrow> string list" where
  "body_texts op draft = (if is_form (body_kind_of op) then map ff_value (sent_fields draft)
     else case dr_body draft of Some body \<Rightarrow> if trim body \<noteq> [] then [body] else [] | None \<Rightarrow> [])"

lemma prepare_body_missing:
  "fst (snd (prepare_body E spec op draft variables f)) = noting (concat (map (undefined_names variables) (body_texts op draft))) (fst f)"
  by (cases f) (simp add: prepare_body_def body_texts_def Let_def case_prod_beta fill_all_missing fill_missing split: option.split)

text \<open>The texts that are filled, in the order \<open>prepare\<close> comes to them.\<close>

definition filled_texts ::
  "'s send_env \<Rightarrow> spec \<Rightarrow> string \<Rightarrow> operation \<Rightarrow> request_draft \<Rightarrow> header_entry list \<Rightarrow> (string \<Rightarrow> string option) \<Rightarrow> bool \<Rightarrow> string list" where
  "filled_texts E spec operation_key op draft collection_headers variables has_body =
     [dr_url draft] @ map pe_value (dr_path_params draft) @ map pe_value (sent_query draft) @ body_texts op draft @
     map snd (header_sources E spec operation_key draft collection_headers variables has_body)"

text \<open>C18. A request reports exactly what it lacks: the names of the placeholders in its URL, parameters, body and headers that neither a
  variable nor a generated value defines, once each and in order, and then the path parameters of the operation the draft does not
  have. So when nothing is reported, every placeholder was replaced.\<close>

theorem prepare_missing:
  assumes "prepare E L spec operation_key draft collection_headers variables st = (Inr r, st')"
  shows "\<exists>op. operation_of spec operation_key = Some op \<and>
    pr_missing r = firsts (filter (undefined_name variables) (concat (map placeholder_names
        (filled_texts E spec operation_key op draft collection_headers variables (pr_body r \<noteq> None))))) @
      missing_path_params op draft"
proof -
  from assms(1) obtain op url f url' f' vs f'' body f3 headers missing where
    op: "operation_of spec operation_key = Some op"
    and 1: "fill E variables (dr_url draft) ([], st) = (url, f)"
    and 2: "fill_path_params E variables (dr_path_params draft) url f = (url', f')"
    and 3: "fill_all E variables (map pe_value (sent_query draft)) f' = (vs, f'')"
    and 4: "prepare_body E spec op draft variables f'' = (body, f3)"
    and 5: "set_filled E variables (header_sources E spec operation_key draft collection_headers variables (body \<noteq> None)) [] f3 =
       (headers, (missing, st'))"
    and "pr_url r = with_query E (zip (map pe_name (sent_query draft)) vs @ query_keys spec op variables) url'"
    and body: "pr_body r = body"
    and "pr_method r = op_method op" and missing: "pr_missing r = missing @ missing_path_params op draft"
    and "pr_headers r = (case boundary_of r of
       Some boundary \<Rightarrow> set_header ''Content-Type'' (''multipart/form-data; boundary='' @ boundary) headers | None \<Rightarrow> headers)"
    by (rule prepare_cases)
  let ?texts = "filled_texts E spec operation_key op draft collection_headers variables (body \<noteq> None)"
  have "missing = noting (concat (map (undefined_names variables) ?texts)) []"
    using fill_missing [of E variables "dr_url draft" "([], st)"] fill_path_params_missing [of E variables "dr_path_params draft" url f]
      fill_all_missing [of E variables "map pe_value (sent_query draft)" f'] prepare_body_missing [of E spec op draft variables f'']
      set_filled_missing [of E variables
        "header_sources E spec operation_key draft collection_headers variables (body \<noteq> None)" "[]" f3]
    by (simp add: 1 2 3 4 5 filled_texts_def comp_def del: not_None_eq)
  moreover have "concat (map (undefined_names variables) ts) = filter (undefined_name variables) (concat (map placeholder_names ts))" for ts
    by (induction ts) (simp_all add: undefined_names_def)
  ultimately show ?thesis using op missing by (simp add: notes_firsts body del: not_None_eq)
qed

section \<open>What a shell reads\<close>

text \<open>The words of a command line, as a POSIX shell splits it: single quotes, the backslash, blanks. A character that means anything else to
  the shell, outside quotes, is not accepted.\<close>

definition sh_plain :: "char \<Rightarrow> bool" where
  "sh_plain c = (is_ascii_alphanumeric c \<or> c \<in> set ''-_./:'')"

definition sh_push :: "string option \<Rightarrow> string \<Rightarrow> string option" where
  "sh_push w t = Some (case w of Some u \<Rightarrow> u @ t | None \<Rightarrow> t)"

fun sh_words :: "bool \<Rightarrow> string option \<Rightarrow> string \<Rightarrow> string list option" where
  "sh_words True w [] = None"
| "sh_words True w (c # s) = (if c = CHR 0x27 then sh_words False w s else sh_words True (sh_push w [c]) s)"
| "sh_words False w [] = Some (case w of Some u \<Rightarrow> [u] | None \<Rightarrow> [])"
| "sh_words False w (c # s) =
     (if c = CHR 0x27 then sh_words True (sh_push w []) s
      else if c = CHR 0x5C then (case s of
          [] \<Rightarrow> None
        | d # s \<Rightarrow> if d = CHR 0x0A then sh_words False w s else sh_words False (sh_push w [d]) s)
      else if c = CHR '' '' then (case w of Some u \<Rightarrow> map_option ((#) u) (sh_words False None s) | None \<Rightarrow> sh_words False None s)
      else if sh_plain c then sh_words False (sh_push w [c]) s
      else None)"

lemma sh_push_push [simp]: "sh_push (sh_push w t) u = sh_push w (t @ u)"
  by (simp add: sh_push_def split: option.split)

lemma sh_words_in_quotes:
  "sh_words True (sh_push w u) (concat (map (\<lambda>c. if c = CHR 0x27 then [CHR 0x27, CHR 0x5C, CHR 0x27, CHR 0x27] else [c]) t) @ [CHR 0x27] @ s) =
     sh_words False (sh_push w (u @ t)) s"
  by (induction t arbitrary: u) simp_all

lemma sh_words_quote: "sh_words False w (sh_quote t @ s) = sh_words False (sh_push w t) s"
  using sh_words_in_quotes [of w "[]" t s] by (simp add: sh_quote_def)

lemma sh_words_plain: "\<forall>c \<in> set t. sh_plain c \<Longrightarrow> t \<noteq> [] \<Longrightarrow> sh_words False w (t @ s) = sh_words False (sh_push w t) s"
proof (induction t arbitrary: w)
  case (Cons c t)
  then have "c \<noteq> CHR 0x27" "c \<noteq> CHR 0x5C" "c \<noteq> CHR '' ''" by (auto simp: sh_plain_def is_ascii_alphanumeric_def)
  with Cons show ?case by (cases "t = []") simp_all
qed simp

lemma sh_words_blank: "sh_words False (Some u) ('' '' @ s) = map_option ((#) u) (sh_words False None s)"
  by simp

lemma sh_words_new_line: "sh_words False (Some u) (new_line @ s) = map_option ((#) u) (sh_words False None s)"
  by (simp add: new_line_def)

lemma sh_push_None: "sh_push None t = Some t"
  by (simp add: sh_push_def)

text \<open>An option with its argument, each on its line.\<close>

lemma sh_words_option:
  assumes "\<forall>c \<in> set name. sh_plain c" "name \<noteq> []"
  shows "sh_words False (Some u) (new_line @ name @ '' '' @ sh_quote t @ s) = map_option (\<lambda>ws. u # name # ws) (sh_words False (Some t) s)"
  by (simp only: sh_words_new_line sh_words_plain [OF assms] sh_push_None sh_words_blank sh_words_quote option.map_comp comp_def)

definition option_words :: "string \<Rightarrow> string list \<Rightarrow> string list" where
  "option_words name args = concat (map (\<lambda>a. [name, a]) args)"

lemma sh_words_options:
  assumes "\<forall>c \<in> set name. sh_plain c" "name \<noteq> []"
    and "\<And>t. sh_words False (Some t) s = map_option ((#) t) (Some ws)"
  shows "sh_words False (Some u) (concat (map (\<lambda>a. new_line @ name @ '' '' @ sh_quote a) args) @ s) = Some (u # option_words name args @ ws)"
proof (induction args arbitrary: u)
  case (Cons a args)
  show ?case
    using sh_words_option [OF assms(1,2), of u a "concat (map (\<lambda>a. new_line @ name @ '' '' @ sh_quote a) args) @ s"] Cons.IH [of a]
    by (simp add: option_words_def)
qed (simp add: assms(3) option_words_def)

definition body_words :: "prepared_body option \<Rightarrow> string list" where
  "body_words body = (case body of
     Some (TextBody t) \<Rightarrow> option_words ''--data-raw'' [t]
   | Some (UrlEncodedBody pairs) \<Rightarrow> option_words ''--data-urlencode'' (map (\<lambda>(name, v). name @ ''='' @ v) pairs)
   | _ \<Rightarrow> [])"

definition body_option :: "prepared_body option \<Rightarrow> string" where
  "body_option body = (case body of
     Some (TextBody t) \<Rightarrow> concat (map (\<lambda>a. new_line @ ''--data-raw'' @ '' '' @ sh_quote a) [t])
   | Some (UrlEncodedBody pairs) \<Rightarrow>
       concat (map (\<lambda>a. new_line @ ''--data-urlencode'' @ '' '' @ sh_quote a) (map (\<lambda>(name, v). name @ ''='' @ v) pairs))
   | _ \<Rightarrow> [])"

lemma curl_options:
  assumes "boundary_of r = None"
  shows "curl r = ''curl'' @ '' '' @ ''-X'' @ '' '' @ pr_method r @ '' '' @ sh_quote (pr_url r) @
    concat (map (\<lambda>a. new_line @ ''-H'' @ '' '' @ sh_quote a) (map (\<lambda>(name, v). name @ '': '' @ v) (pr_headers r))) @ body_option (pr_body r)"
proof -
  have "concat (map header_option hs) = concat (map (\<lambda>a. new_line @ ''-H'' @ '' '' @ sh_quote a) (map (\<lambda>(name, v). name @ '': '' @ v) hs))" for hs
    by (induction hs) (simp_all add: header_option_def case_prod_beta)
  moreover have "concat (map (\<lambda>(name, v). new_line @ ''--data-urlencode '' @ sh_quote (name @ ''='' @ v)) pairs) =
      concat (map (\<lambda>a. new_line @ ''--data-urlencode'' @ '' '' @ sh_quote a) (map (\<lambda>(name, v). name @ ''='' @ v) pairs))" for pairs
    by (induction pairs) (simp_all add: case_prod_beta)
  ultimately show ?thesis
    using assms by (simp add: curl_def boundary_of_def body_option_def Let_def split: option.splits prepared_body.splits)
qed

lemma sh_words_body: "sh_words False (Some u) (body_option body) = Some (u # body_words body)"
proof -
  have 1: "\<forall>c \<in> set ''--data-raw''. sh_plain c" "\<forall>c \<in> set ''--data-urlencode''. sh_plain c" by code_simp+
  have 2: "sh_words False (Some t) [] = map_option ((#) t) (Some [])" for t by simp
  have raw: "sh_words False (Some u) (concat (map (\<lambda>a. new_line @ ''--data-raw'' @ '' '' @ sh_quote a) args)) =
      Some (u # option_words ''--data-raw'' args)" for args
    using sh_words_options [OF 1(1) _ 2, of u args] by simp
  have encoded: "sh_words False (Some u) (concat (map (\<lambda>a. new_line @ ''--data-urlencode'' @ '' '' @ sh_quote a) args)) =
      Some (u # option_words ''--data-urlencode'' args)" for args
    using sh_words_options [OF 1(2) _ 2, of u args] by simp
  consider (t) t where "body = Some (TextBody t)" | (pairs) pairs where "body = Some (UrlEncodedBody pairs)"
    | (rest) "body = None \<or> (\<exists>boundary parts. body = Some (MultipartBody boundary parts))"
    by (metis option.exhaust prepared_body.exhaust)
  then show ?thesis
    by cases (simp_all only: body_option_def body_words_def option.case prepared_body.case raw encoded,
      auto simp: body_option_def body_words_def)
qed


section \<open>What masking hides\<close>

text \<open>What of a value its mask tells.\<close>

lemma mask_hides:
  "length v > 12 \<Longrightarrow> length w > 12 \<Longrightarrow> take 6 v = take 6 w \<Longrightarrow> drop (length v - 3) v = drop (length w - 3) w \<Longrightarrow> mask v = mask w"
  "length v \<le> 12 \<Longrightarrow> length w \<le> 12 \<Longrightarrow> mask v = mask w"
  by (simp_all add: mask_def)

lemma str_join_part: "x \<in> set xs \<Longrightarrow> \<exists>u v. str_join sep xs = u @ x @ v"
proof (induction sep xs rule: str_join.induct)
  case (3 sep y z xs)
  then show ?case by (metis (no_types, lifting) append.assoc append_Nil set_ConsD str_join.simps(3))
next
  case (2 sep y)
  then show ?case by (intro exI [of _ "[]"]) simp
qed simp

lemma str_contains_append: "str_contains s p \<Longrightarrow> str_contains (u @ s) p"
  by (metis append.assoc str_contains_iff)

lemma str_contains_Cons: "str_contains s p \<Longrightarrow> str_contains (c # s) p"
  using str_contains_append [of s p "[c]"] by simp

lemma with_query_contains:
  assumes "(name, v) \<in> set query"
  shows "str_contains (with_query E query url) (en_encode E name @ ''='' @ en_encode E v)"
proof -
  have "en_encode E name @ ''='' @ en_encode E v \<in> set (map (\<lambda>(name, v). en_encode E name @ ''='' @ en_encode E v) query)"
    using assms by force
  from str_join_part [OF this, of "''&''"] have "str_contains (encode_pairs E query) (en_encode E name @ ''='' @ en_encode E v)"
    by (simp add: str_contains_iff encode_pairs_def)
  then show ?thesis using assms by (auto simp: with_query_def intro!: str_contains_append str_contains_Cons)
qed

lemma split_no_space: "CHR '' '' \<notin> set v \<Longrightarrow> str_split (CHR '' '') v = [v] \<and> split_once (CHR '' '') v = None"
  by (induction v) (auto simp: split_once_def)

text \<open>C36. Masking leaves secrets in sight. The copy of a request that is meant to hide its credentials keeps an API key that goes into the
  query in its URL, whatever the key is; and of an \<open>Authorization\<close> header whose text has no space, such as an API key sent in
  that header, it keeps all and adds a mask after it.\<close>

theorem masking_leaks:
  assumes "prepare E L spec operation_key draft collection_headers variables st = (Inr r, st')"
    and "operation_of spec operation_key = Some op" and "scheme \<in> set (schemes_for spec op)"
    and "variables (api_key_secret (sc_name scheme)) = Some key"
  shows "(sc_kind scheme = ApiKey KeyQuery name \<longrightarrow>
      str_contains (pr_url (masked r)) (en_encode E name @ ''='' @ en_encode E key)) \<and>
    (\<forall>v. (''Authorization'', v) \<in> set (pr_headers r) \<and> CHR '' '' \<notin> set v \<longrightarrow>
      (''Authorization'', v @ '' ****'') \<in> set (pr_headers (masked r)))"
proof -
  from assms(1) obtain op' url f url' f' vs f'' body f3 headers missing where
    "operation_of spec operation_key = Some op'"
    and "fill E variables (dr_url draft) ([], st) = (url, f)"
    and "fill_path_params E variables (dr_path_params draft) url f = (url', f')"
    and "fill_all E variables (map pe_value (sent_query draft)) f' = (vs, f'')"
    and "prepare_body E spec op' draft variables f'' = (body, f3)"
    and "set_filled E variables (header_sources E spec operation_key draft collection_headers variables (body \<noteq> None)) [] f3 =
       (headers, (missing, st'))"
    and "pr_url r = with_query E (zip (map pe_name (sent_query draft)) vs @ query_keys spec op' variables) url'"
    and "pr_body r = body"
    and "pr_method r = op_method op'" "pr_missing r = missing @ missing_path_params op' draft"
    and "pr_headers r = (case boundary_of r of
       Some boundary \<Rightarrow> set_header ''Content-Type'' (''multipart/form-data; boundary='' @ boundary) headers | None \<Rightarrow> headers)"
    by (rule prepare_cases)
  then have url: "pr_url r = with_query E (zip (map pe_name (sent_query draft)) vs @ query_keys spec op variables) url'"
    using assms(2) by simp
  have "(name, key) \<in> set (query_keys spec op variables)" if "sc_kind scheme = ApiKey KeyQuery name"
    using that assms(3,4) by (force simp: query_keys_def List.map_filter_def)
  then have "str_contains (pr_url r) (en_encode E name @ ''='' @ en_encode E key)" if "sc_kind scheme = ApiKey KeyQuery name"
    using that unfolding url by (intro with_query_contains) simp
  moreover have "masked_header (''Authorization'', v) = (''Authorization'', v @ '' ****'')" if "CHR '' '' \<notin> set v" for v
  proof -
    have "to_ascii_lowercase ''Authorization'' = ''authorization''" by code_simp
    then show ?thesis using split_no_space [OF that] by (simp add: masked_header_def mask_def)
  qed
  ultimately show ?thesis by (force simp: masked_def)
qed

section \<open>The cookies of the jar\<close>

text \<open>\<open>Collection::prepare\<close>: the cookies of the jar follow those the request sets itself.\<close>

definition update_first :: "('a \<Rightarrow> bool) \<Rightarrow> ('a \<Rightarrow> 'a) \<Rightarrow> 'a list \<Rightarrow> 'a list" where
  "update_first P g xs = (case position P xs of Some i \<Rightarrow> xs[i := g (xs ! i)] | None \<Rightarrow> xs)"

definition with_jar :: "cookie_jar \<Rightarrow> int \<Rightarrow> prepared_request \<Rightarrow> prepared_request" where
  "with_jar jar now r = (case header_for jar (pr_url r) now of
     None \<Rightarrow> r
   | Some jar_cookies \<Rightarrow>
       if find (\<lambda>(name, _). eq_ignore_ascii_case name ''cookie'') (pr_headers r) \<noteq> None
       then r\<lparr>pr_headers := update_first (\<lambda>(name, _). eq_ignore_ascii_case name ''cookie'')
         (\<lambda>(name, v). (name, v @ ''; '' @ jar_cookies)) (pr_headers r)\<rparr>
       else r\<lparr>pr_headers := pr_headers r @ [(''Cookie'', jar_cookies)]\<rparr>)"

definition collection_prepare ::
  "'s send_env \<Rightarrow> i18n \<Rightarrow> spec option \<Rightarrow> string \<Rightarrow> request_draft \<Rightarrow> header_entry list \<Rightarrow> (string \<Rightarrow> string option) \<Rightarrow> cookie_jar \<Rightarrow> 's \<Rightarrow>
    (string + prepared_request) \<times> 's" where
  "collection_prepare E L spec operation_key draft collection_headers variables jar st = (case spec of
     None \<Rightarrow> (Inl (translate L ''api_client.collection.error_spec_not_loaded''), st)
   | Some spec \<Rightarrow> (case prepare E L spec operation_key draft collection_headers variables st of
       (Inl e, st) \<Rightarrow> (Inl e, st)
     | (Inr r, st) \<Rightarrow> (case en_timestamp E st of (now, st) \<Rightarrow> (Inr (with_jar jar now r), st))))"

lemma update_first_simps [simp]:
  "update_first P g [] = []" "update_first P g (x # xs) = (if P x then g x # xs else x # update_first P g xs)"
  by (auto simp: update_first_def split: option.split)

lemma header_get_Cons: "header_get n ((m, v) # headers) = (if eq_ignore_ascii_case m n then Some v else header_get n headers)"
  by (simp add: header_get_def)

lemma header_get_update:
  "header_get n (update_first (\<lambda>(name, _). eq_ignore_ascii_case name m) (\<lambda>(name, v). (name, g v)) headers) =
     (if eq_ignore_ascii_case m n then map_option g (header_get n headers) else header_get n headers)"
  by (induction headers) (auto simp: header_get_Cons header_get_def [of _ "[]"] eq_ignore_ascii_case_def)

lemma update_first_names:
  "map (to_ascii_lowercase \<circ> fst) (update_first P (\<lambda>(name, v). (name, g v)) headers) = map (to_ascii_lowercase \<circ> fst) headers"
  by (induction headers) auto

lemma lowercase_cookie: "to_ascii_lowercase ''Cookie'' = to_ascii_lowercase ''cookie''"
  by code_simp

lemma header_get_append:
  "header_get n (xs @ ys) = (case header_get n xs of Some v \<Rightarrow> Some v | None \<Rightarrow> header_get n ys)"
  by (auto simp: header_get_def find_append split: option.split)

lemma with_jar_get:
  "header_get n (pr_headers (with_jar jar now q)) =
     (case header_for jar (pr_url q) now of
        None \<Rightarrow> header_get n (pr_headers q)
      | Some jar_cookies \<Rightarrow>
          if eq_ignore_ascii_case ''cookie'' n
          then Some ((case header_get n (pr_headers q) of Some own \<Rightarrow> own @ ''; '' | None \<Rightarrow> []) @ jar_cookies)
          else header_get n (pr_headers q))"
proof -
  have cookie: "eq_ignore_ascii_case ''Cookie'' n \<longleftrightarrow> eq_ignore_ascii_case ''cookie'' n"
    by (simp add: eq_ignore_ascii_case_def lowercase_cookie)
  have get: "header_get n (pr_headers q) = map_option snd (find (\<lambda>(name, _). eq_ignore_ascii_case name ''cookie'') (pr_headers q))"
    if "eq_ignore_ascii_case ''cookie'' n"
    using that by (simp add: header_get_def eq_ignore_ascii_case_def)
  show ?thesis
    using get
    by (auto simp: with_jar_def header_get_update header_get_append header_get_def [of n "[_]"] cookie split: option.split)
qed

lemma with_jar_names:
  assumes "distinct_names (pr_headers r)"
  shows "distinct_names (pr_headers (with_jar jar now r))"
proof (cases "find (\<lambda>(name, _). eq_ignore_ascii_case name ''cookie'') (pr_headers r)")
  case None
  then have "to_ascii_lowercase ''Cookie'' \<notin> (to_ascii_lowercase \<circ> fst) ` set (pr_headers r)"
    by (auto simp: find_None_iff eq_ignore_ascii_case_def lowercase_cookie)
  with None assms show ?thesis by (simp add: with_jar_def distinct_names_def split: option.split)
next
  case (Some h)
  with assms show ?thesis by (simp add: with_jar_def distinct_names_def update_first_names split: option.split)
qed

text \<open>The cookies of a collection's jar go along with a request and change nothing else of it: the \<open>Cookie\<close> header holds what the
  request sets itself, then those of the jar for the URL, and one header per name stays.\<close>

lemma jar_goes_along:
  assumes "collection_prepare E L (Some spec) operation_key draft collection_headers variables jar st = (Inr r, st')"
  shows "\<exists>q now st1. prepare E L spec operation_key draft collection_headers variables st = (Inr q, st1) \<and> en_timestamp E st1 = (now, st') \<and>
    r = q\<lparr>pr_headers := pr_headers r\<rparr> \<and> distinct_names (pr_headers r) \<and>
    (\<forall>n. header_get n (pr_headers r) =
      (if eq_ignore_ascii_case ''Cookie'' n then
         (case (header_get ''Cookie'' (pr_headers q), header_for jar (pr_url q) now) of
            (own, None) \<Rightarrow> own
          | (None, Some jar_cookies) \<Rightarrow> Some jar_cookies
          | (Some own, Some jar_cookies) \<Rightarrow> Some (own @ ''; '' @ jar_cookies))
       else header_get n (pr_headers q)))"
proof -
  obtain q st1 now where q: "prepare E L spec operation_key draft collection_headers variables st = (Inr q, st1)"
    and now: "en_timestamp E st1 = (now, st')" and r: "r = with_jar jar now q"
    using assms by (auto simp: collection_prepare_def split: prod.splits sum.splits)
  have names: "distinct_names (pr_headers q)" using prepare_distinct [OF q] .
  have cookie: "eq_ignore_ascii_case ''cookie'' n \<longleftrightarrow> eq_ignore_ascii_case ''Cookie'' n" for n
    by (simp add: eq_ignore_ascii_case_def lowercase_cookie)
  have same: "header_get n hs = header_get ''Cookie'' hs" if "eq_ignore_ascii_case ''Cookie'' n" for n hs
    using that by (simp add: header_get_def eq_ignore_ascii_case_def)
  have get: "header_get n (pr_headers (with_jar jar now q)) =
      (if eq_ignore_ascii_case ''Cookie'' n then
         (case (header_get ''Cookie'' (pr_headers q), header_for jar (pr_url q) now) of
            (own, None) \<Rightarrow> own
          | (None, Some jar_cookies) \<Rightarrow> Some jar_cookies
          | (Some own, Some jar_cookies) \<Rightarrow> Some (own @ ''; '' @ jar_cookies))
       else header_get n (pr_headers q))" for n
    by (auto simp: with_jar_get cookie same split: option.split)
  have "distinct_names (pr_headers r)" unfolding r using names by (rule with_jar_names)
  moreover have "r = q\<lparr>pr_headers := pr_headers r\<rparr>" by (simp add: r with_jar_def split: option.split)
  ultimately show ?thesis using q now get r by blast
qed

section \<open>An example\<close>

definition example_send_env :: "unit send_env" where
  "example_send_env = \<lparr>en_encode = (\<lambda>s. s), en_base64 = (\<lambda>s. s), en_parse_json = (\<lambda>_. None), en_pretty_json = (\<lambda>_. None),
     en_parse_number = (\<lambda>_. None), en_pointer = (\<lambda>_ _. None), en_new_uuid = (\<lambda>st. (7, st)), en_uuid_text = nat_to_string,
     en_uuid_simple = nat_to_string, en_timestamp = (\<lambda>st. (5, st)), en_rfc3339 = (\<lambda>st. (''1970'', st))\<rparr>"

definition example_key :: security_scheme where
  "example_key = \<lparr>sc_name = ''key'', sc_kind = ApiKey KeyQuery ''api_key'', sc_description = None\<rparr>"

definition example_operation :: operation where
  "example_operation = \<lparr>op_key = ''GET /users/{id}'', op_method = ''GET'', op_path = ''/users/{id}'', op_operation_id = None,
     op_summary = None, op_description = None, op_tags = [], op_deprecated = False,
     op_parameters = [\<lparr>pa_name = ''id'', pa_location = InPath, pa_required = True, pa_description = None, pa_schema = None, pa_example = None\<rparr>],
     op_request_body = None, op_responses = [], op_security = Some [[''key'']]\<rparr>"

definition example_spec :: spec where
  "example_spec = \<lparr>sp_format = OpenApi31, sp_version_string = ''3.1.0'', sp_title = ''Users'', sp_api_version = ''1'', sp_servers = [],
     sp_security_schemes = [example_key], sp_default_security = [], sp_tags = [], sp_operations = [example_operation], sp_warnings = [],
     sp_document = JNull\<rparr>"

definition example_draft :: request_draft where
  "example_draft = \<lparr>dr_url = ''{{base}}/users/{id}'', dr_path_params = [\<lparr>pe_name = ''id'', pe_value = ''{{user}}'', pe_enabled = True\<rparr>],
     dr_query = [], dr_headers = [\<lparr>he_name = ''X-Tenant'', he_value = ''{{tenant}}'', he_enabled = True\<rparr>], dr_disabled_inherited = [''x-debug''],
     dr_body = None, dr_form = []\<rparr>"

definition example_collection :: "header_entry list" where
  "example_collection = [\<lparr>he_name = ''x-tenant'', he_value = ''a'', he_enabled = True\<rparr>, \<lparr>he_name = ''X-Debug'', he_value = ''1'', he_enabled = True\<rparr>]"

definition example_variables :: "string \<Rightarrow> string option" where
  "example_variables = map_of [(''base'', ''https://h''), (''user'', ''7''), (''secret.apiKey.key'', ''k1'')]"

definition example_request :: prepared_request where
  "example_request = \<lparr>pr_method = ''GET'', pr_url = ''https://h/users/7?api_key=k1'', pr_headers = [(''X-Tenant'', ''{{tenant}}'')],
     pr_body = None, pr_missing = [''tenant'']\<rparr>"

lemmas example_send_defs = example_send_env_def example_key_def example_operation_def example_spec_def example_draft_def
  example_collection_def example_variables_def example_request_def

lemma example_prepared:
  "prepare example_send_env L example_spec ''GET /users/{id}'' example_draft example_collection example_variables () = (Inr example_request, ())"
  unfolding example_send_defs by code_simp

definition example_i18n :: i18n where
  "example_i18n = \<lparr>current_language = 0, tables = (\<lambda>_. Map.empty)\<rparr>"

theorem prepare_headers_witness:
  "last_source ''x-debug'' (header_sources example_send_env example_spec ''GET /users/{id}'' example_draft example_collection
     example_variables False) = None \<and> distinct_names (pr_headers example_request)"
proof -
  have "''x-debug'' \<in> set (dr_disabled_inherited example_draft)" "last_source ''x-debug'' (sent_own example_draft) = None"
    unfolding example_send_defs by code_simp+
  moreover have "(pr_body example_request \<noteq> None) = False" by (simp add: example_request_def)
  ultimately show ?thesis using prepare_headers [OF example_prepared [of example_i18n]] by auto
qed

theorem prepare_missing_witness:
  "firsts (filter (undefined_name example_variables) (concat (map placeholder_names
     (filled_texts example_send_env example_spec ''GET /users/{id}'' example_operation example_draft example_collection example_variables False)))) @
     missing_path_params example_operation example_draft = [''tenant'']"
proof -
  have op: "operation_of example_spec ''GET /users/{id}'' = Some example_operation" unfolding example_send_defs by code_simp
  have b: "(pr_body example_request \<noteq> None) = False" by (simp add: example_request_def)
  have "pr_missing example_request = [''tenant'']" by (simp add: example_request_def)
  with prepare_missing [OF example_prepared [of example_i18n], unfolded op b] show ?thesis by simp
qed


theorem masking_leaks_witness: "str_contains (pr_url (masked example_request)) ''api_key=k1''"
proof -
  have "operation_of example_spec ''GET /users/{id}'' = Some example_operation" "example_key \<in> set (schemes_for example_spec example_operation)"
    "example_variables (api_key_secret (sc_name example_key)) = Some ''k1''"
    unfolding example_send_defs by code_simp+
  note masking_leaks [OF example_prepared [of example_i18n] this, of "''api_key''"]
  then show ?thesis by (simp add: example_key_def example_send_env_def)
qed

lemma jar_goes_along_witness:
  "\<exists>r. collection_prepare example_send_env example_i18n (Some example_spec) ''GET /users/{id}'' example_draft example_collection example_variables
       [] () = (Inr r, ()) \<and> distinct_names (pr_headers r)"
proof -
  have "collection_prepare example_send_env example_i18n (Some example_spec) ''GET /users/{id}'' example_draft example_collection
      example_variables [] () = (Inr (with_jar [] 5 example_request), ())"
    by (simp add: collection_prepare_def example_prepared) (simp add: example_send_env_def)
  with jar_goes_along [OF this] show ?thesis by blast
qed

end
