(* ===== verification/Spec2Isabelle.thy ===== *)
theory Spec2Isabelle
  imports Prelude I18n TaskAgents Flows FlowFile FlowRun FlowRunner FlowSystem Clock
    SumTree SumTreeCursor TreeMap Locator UndoMap Patch
    SyncFiles Github SettingsSync SyncState Statements Edits QueryRun Cookies ApiVars ApiSend
begin

text \<open>
  Asylum is a code editor, a Rust workspace grown from Zed. This development verifies the logic of its own crates (flows of agents,
  settings sync, the database client, the API client) and the data structures under its text model. All paths below are under
  \<open>crates/\<close>.

  \<^bold>\<open>The parts and how they interact\<close>

  \<^item> \<^emph>\<open>Flows.\<close> A task agent is a markdown file with a YAML front matter (\<open>task_agents\<close>); a flow is a file of steps: agents, commands,
    gates, GitHub actions, branches and parallel steps (\<open>flows/src/flows.rs\<close>). A run keeps the state of each step and decides what
    happens next (\<open>flows/src/run.rs\<close>); the view of the agent panel (\<open>agent_ui/src/flows_view.rs\<close>, \<open>flows_view/runner.rs\<close>) starts the work
    of a step and feeds the results back. Labels and messages come from \<open>i18n\<close>.
  \<^item> \<^emph>\<open>Text model.\<close> Sum trees (\<open>sum_tree\<close>) are the B+ trees under buffers, ropes and maps; keyed trees and \<open>TreeMap\<close> are built on them,
    and the undo map of a buffer on keyed trees. Locators order the fragments of a buffer, patches relate two versions of a text,
    and logical clocks (\<open>clock\<close>) order the operations of replicas.
  \<^item> \<^emph>\<open>Settings sync.\<close> The settings files of the user are kept in private gists (\<open>settings_sync\<close>): a plan from three hashes per file
    decides what is uploaded, downloaded, deleted and backed up.
  \<^item> \<^emph>\<open>Database client.\<close> SQL sources are scanned into statements, classified and guarded before they run; edited cells become
    UPDATE statements (\<open>database_client\<close>).
  \<^item> \<^emph>\<open>API client.\<close> A draft and an OpenAPI operation become a request, filled from variables, with the cookies of a jar
    (\<open>api_client\<close>).

  \<^bold>\<open>The theories\<close>

  \<^item> \<open>Prelude\<close>: texts, numbers, checked indexing and \<open>BTreeMap\<close> as the crates use them; \<open>wp\<close>, the weakest precondition of a computation
    that may panic; the locale \<open>keyed_map\<close> of what a map promises, interpreted on the ordered association list (\<open>btree\<close>); the locale
    \<open>step_system\<close> of a step relation with an invariant, from which reachable states keep the invariant and no handler panics.
  \<^item> \<open>I18n\<close> (\<open>i18n.rs\<close>): the current language, the tables, lookup with its fallbacks and the macro \<open>t!\<close>.
  \<^item> \<open>TaskAgents\<close> (\<open>task_agents.rs\<close>): slugs, reading and writing agent files, tool rules, precedence of folders. Slugs are canonical,
    saving and reading agree, and loading keeps exactly the winners.
  \<^item> \<open>Flows\<close> (\<open>flows.rs\<close>): steps, generated ids, what a step can receive, \<open>validate_flow\<close>. A flow without problems is sound; a
    generated id is free and the search for it ends.
  \<^item> \<open>FlowFile\<close> (\<open>flows.rs\<close>, \<open>authoring.rs\<close>): the raw form of the front matter and both conversions, \<open>parse_flow\<close>, \<open>to_markdown\<close>,
    loading, the review of a suggestion. What saving keeps, when it keeps generated ids, and a flow whose ids drift.
  \<^item> \<open>FlowRun\<close> (\<open>run.rs\<close>): every operation of \<open>FlowRun\<close>, with index panics as \<^const>\<open>None\<close>; the invariant \<open>run_inv\<close>, what a failed step and
    a branch do.
  \<^item> \<open>FlowRunner\<close> (\<open>runner.rs\<close>, \<open>submit_step_tool.rs\<close>): the prompt and the agent of a step, \<open>drive\<close>, every result and every answer.
  \<^item> \<open>FlowSystem\<close> (\<open>flows_view.rs\<close>): the view as events over the handlers of \<open>FlowRunner\<close>; \<open>step_system\<close> is interpreted on it
    (\<open>flow_system\<close>). In every reachable view no handler panics, passed steps have their required criteria, the steps are in
    order, the budgets hold, and nothing stalls unless a gate sends adjustments to a step that does no work; that a flow can
    stall in this way is shown too.
  \<^item> \<open>Clock\<close> (\<open>clock.rs\<close>): Lamport timestamps and version vectors; \<open>observed_all\<close> is a partial order with \<open>join\<close> as least upper
    bound; \<open>observing\<close> interprets the library's locale of order-insensitive folds.
  \<^item> \<open>SumTree\<close> (\<open>sum_tree.rs\<close>): nodes, \<open>append\<close> with all its cases, construction, the ends, in the locale \<open>summary_laws\<close> of what a
    summary promises. A tree stands for the list of its items; appending concatenates and never panics.
  \<^item> \<open>SumTreeCursor\<close> (\<open>cursor.rs\<close>, the searches of \<open>sum_tree.rs\<close>): \<open>find\<close>, the cursor, \<open>seek\<close>, \<open>slice\<close>, \<open>suffix\<close>, \<open>summary\<close>, \<open>next\<close>, in the
    locales \<open>dimension_laws\<close>, \<open>aggregate_laws\<close> (with sublocales for seeking, slicing and summing) and \<open>two_dimensions\<close>.
  \<^item> \<open>TreeMap\<close> (\<open>tree_map.rs\<close>): keyed trees and the ordered map refine finite maps, in the locale \<open>keyed_laws\<close>, interpreted on map
    entries (\<open>entries\<close>) and on undo entries (\<open>undos\<close>, in \<open>UndoMap\<close>).
  \<^item> \<open>Locator\<close>, \<open>UndoMap\<close>, \<open>Patch\<close> (\<open>text/src\<close>): \<open>between\<close> is strictly between; the undo map is what the undo operations told, in
    any order; composing patches composes the changes, and positions translate forth and back.
  \<^item> \<open>SyncFiles\<close> (\<open>sync_plan.rs\<close>, \<open>local_files.rs\<close>), \<open>Github\<close> (\<open>github.rs\<close>), \<open>SettingsSync\<close> (\<open>run_sync\<close>, \<open>run_all_syncs\<close>): no
    content is lost whatever fails while nobody edits, both sides agree after a sync, and the next does nothing; an edit during
    the upload can be lost. \<open>SyncState\<close> (\<open>settings_sync.rs\<close>): signing in and syncing as events, another interpretation of
    \<open>step_system\<close> (\<open>sync_system\<close>); nothing waits for a task that is not under way.
  \<^item> \<open>Statements\<close> (\<open>statements.rs\<close>), \<open>Edits\<close> (\<open>edits.rs\<close>), \<open>QueryRun\<close> (\<open>query_view.rs\<close>, \<open>agent_toolkit.rs\<close>): tokens and statements
    cover the source; an edited row is one UPDATE with a WHERE whatever the names and texts are; which runs go ahead without a
    question; an EXPLAIN that runs a DELETE unasked.
  \<^item> \<open>Cookies\<close> (\<open>cookies.rs\<close>), \<open>ApiVars\<close> (\<open>vars.rs\<close>, \<open>jsonpath.rs\<close>), \<open>ApiSend\<close> (\<open>send.rs\<close>, \<open>Collection::prepare\<close>, and the parts of
    \<open>spec.rs\<close>, \<open>config.rs\<close>, \<open>schema.rs\<close> they call): cookies go back where they belong (IPv6 hosts aside); substitution is one pass;
    every place of a JSON value has a path; the headers and the missing names of a request; a shell reads the copied
    command as the request; masking leaves some keys in sight.

  \<^bold>\<open>Conventions and bounds\<close>

  A struct is a record, an enum a datatype, and each function a definition with its early returns. A panic (an index out of range, a
  full \<open>ArrayVec\<close>, an overflow where the code would panic) is \<^const>\<open>None\<close>; an error is \<^const>\<open>Inl\<close>. Effects are explicit: handlers map a state to a
  state, and what comes from outside is the payload of an event or a parameter with a state of its own. Counters are words
  of their width (\<open>u8\<close> retries, returns and heights, \<open>u32\<close> minutes and sequence numbers); \<open>usize\<close> is a natural number, with lengths below
  \<open>2 ^ 64\<close> where a sum could pass it; \<open>i64\<close> times are integers with the wrap-around written out. The stack of a cursor has room for 16
  entries, so its theorems ask for a height of at most 15.

  A text is a list of scalar values below U+0100; arrows, bullets and ellipses of messages are written in ASCII. SQL sources are lists of
  UTF-8 bytes. Loops are structural recursion or recursion with a measure. Fuel is used only where the code counts: references of a
  schema are followed 32 times and a body is coerced 9 levels deep, as the constants of the source say. The
  loop of \<open>drive\<close> ends because every failed start uses up a retry or a return or stops the run (\<open>drive_order\<close>).

  Parameters stand for code outside the repository: the YAML and JSON libraries, the file system, the endpoints of GitHub with their
  documented behaviour (\<open>github_ok\<close>), SHA-256, the session with a database, date parsing, percent encoding, base 64, fresh
  identifiers and the clock. Where a theorem assumes something of a parameter, an example instance shows that it can hold.

  \<^bold>\<open>Not modelled\<close>

  Rendering, editor widgets and panels; threads with language models and their tools; processes, terminals and sockets; the editor,
  workspace, project and language servers that come from Zed; the collaboration server; extensions; themes. Of the modelled
  crates: text buffers and fragments (\<open>text.rs\<close>), the operation queue, ropes; moving a cursor backwards, \<open>closest\<close>, \<open>remove_range\<close> and
  \<open>TreeSet\<close>; reading OpenAPI documents, sessions, sending and captures of the API client; drivers, tunnels, completion and grids of the
  database client. Next in the plan are the session and the retries of the API client (\<open>collection.rs\<close>), its reading of documents, and
  the buffers.
\<close>

end
